(* ===== verification/Prelude.thy ===== *)
theory Prelude
  imports Main "HOL-Library.Word"
begin

text \<open>
  Generic material shared by every component: the exceptional outcomes of a C++ call, the
  sequencing of fallible steps, the character classes of \<^verbatim>\<open><cctype>\<close> (in the C locale, on
  8-bit characters), the scanning loop
  \<^verbatim>\<open>while (pos < s.size() && P(s[pos])) ++pos;\<close>
  and decimal printing of unsigned numbers.
\<close>

section \<open>Collections of facts\<close>

named_theorems scan_facts \<open>bounds and contents of scanning loops\<close>
named_theorems step_defs \<open>definitions of the operations of a component\<close>

section \<open>Fallible steps\<close>

text \<open>
  A call that can fail returns \<open>Inl\<close> of the failure or \<open>Inr\<close> of the result. \<open>bind_res\<close>
  is the early return: the rest of the function runs only on success.
\<close>

definition bind_res :: "'e + 'a \<Rightarrow> ('a \<Rightarrow> 'e + 'b) \<Rightarrow> 'e + 'b" where
  "bind_res r f = (case r of Inl e \<Rightarrow> Inl e | Inr a \<Rightarrow> f a)"

lemma bind_res_simps [simp]:
  "bind_res (Inl e) f = Inl e"
  "bind_res (Inr a) f = f a"
  by (simp_all add: bind_res_def)

lemma bind_res_Inr_iff:
  "bind_res r f = Inr b \<longleftrightarrow> (\<exists>a. r = Inr a \<and> f a = Inr b)"
  by (cases r) simp_all

lemma bind_res_Inl_iff:
  "bind_res r f = Inl e \<longleftrightarrow> r = Inl e \<or> (\<exists>a. r = Inr a \<and> f a = Inl e)"
  by (cases r) auto

lemma bind_res_assoc: "bind_res (bind_res r f) g = bind_res r (\<lambda>a. bind_res (f a) g)"
  by (cases r) simp_all

lemma bind_res_cong [fundef_cong]:
  "r = r' \<Longrightarrow> (\<And>a. r' = Inr a \<Longrightarrow> f a = g a) \<Longrightarrow> bind_res r f = bind_res r' g"
  by (cases r') simp_all

text \<open>
  What C++ code can do besides returning: break a rule of the language (reading a destroyed
  object, dereferencing a null pointer, going past the end), throw, or terminate the program.
\<close>

datatype fault =
    Undefined string
  | Thrown string
  | Terminated string

section \<open>Character classes\<close>

text \<open>
  The tests of \<^verbatim>\<open><cctype>\<close>, as the C locale answers them for 0 to 255. The code passes them a plain
  \<^verbatim>\<open>char\<close> without the cast to \<^verbatim>\<open>unsigned char\<close>: where \<^verbatim>\<open>char\<close> is signed, a byte from 128 on arrives as a
  negative \<^verbatim>\<open>int\<close>, which the C standard leaves undefined. The definitions give such a byte the answer
  that it is in no class.
\<close>

definition c_isspace :: "char \<Rightarrow> bool" where
  "c_isspace c \<longleftrightarrow> (let n = (of_char c :: nat) in n = 32 \<or> (9 \<le> n \<and> n \<le> 13))"

definition c_isdigit :: "char \<Rightarrow> bool" where
  "c_isdigit c \<longleftrightarrow> (let n = (of_char c :: nat) in 48 \<le> n \<and> n \<le> 57)"

definition c_isalpha :: "char \<Rightarrow> bool" where
  "c_isalpha c \<longleftrightarrow>
     (let n = (of_char c :: nat) in (65 \<le> n \<and> n \<le> 90) \<or> (97 \<le> n \<and> n \<le> 122))"

definition c_isalnum :: "char \<Rightarrow> bool" where
  "c_isalnum c \<longleftrightarrow> c_isalpha c \<or> c_isdigit c"

text \<open>\<open>char_between lo hi c\<close> is the test \<^verbatim>\<open>c >= lo && c <= hi\<close>.\<close>

definition char_between :: "char \<Rightarrow> char \<Rightarrow> char \<Rightarrow> bool" where
  "char_between lo hi c \<longleftrightarrow>
     (of_char lo :: nat) \<le> of_char c \<and> (of_char c :: nat) \<le> of_char hi"

lemmas char_class_defs = c_isspace_def c_isdigit_def c_isalpha_def c_isalnum_def
  char_between_def Let_def

lemma c_isspace_not_alnum: "c_isspace c \<Longrightarrow> \<not> c_isalnum c"
  by (auto simp: char_class_defs)

lemma c_isspace_not_digit: "c_isspace c \<Longrightarrow> \<not> c_isdigit c"
  by (auto simp: char_class_defs)

lemma c_isdigit_not_alpha: "c_isdigit c \<Longrightarrow> \<not> c_isalpha c"
  by (auto simp: char_class_defs)

section \<open>Scanning loops\<close>

function scan_while :: "(char \<Rightarrow> bool) \<Rightarrow> string \<Rightarrow> nat \<Rightarrow> nat" where
  "scan_while P s p =
     (if p < length s \<and> P (s ! p) then scan_while P s (Suc p) else p)"
  by pat_completeness auto
termination
  by (relation "measure (\<lambda>(P, s, p). length s - p)") auto

declare scan_while.simps [simp del]

text \<open>The loop stops after the longest run of characters that satisfy the test.\<close>

lemma scan_while_takeWhile:
  "scan_while P s p = p + length (takeWhile P (drop p s))"
proof (induction P s p rule: scan_while.induct)
  case (1 P s p)
  show ?case
  proof (cases "p < length s \<and> P (s ! p)")
    case True
    then have "drop p s = s ! p # drop (Suc p) s"
      by (simp add: Cons_nth_drop_Suc)
    with True 1 show ?thesis by (simp add: scan_while.simps [of P s p])
  next
    case False
    then show ?thesis
      by (cases "p < length s")
         (auto simp: scan_while.simps [of P s p] simp flip: Cons_nth_drop_Suc)
  qed
qed

lemma scan_while_ge [scan_facts]: "p \<le> scan_while P s p"
  by (simp add: scan_while_takeWhile)

lemma scan_while_le [scan_facts]: "p \<le> length s \<Longrightarrow> scan_while P s p \<le> length s"
  using length_takeWhile_le [of P "drop p s"] by (simp add: scan_while_takeWhile)

lemma scan_while_step:
  "p < length s \<Longrightarrow> P (s ! p) \<Longrightarrow> p < scan_while P s p"
  by (subst scan_while.simps) (use scan_while_ge [of "Suc p" P s] in simp)

lemma scan_while_drop: "drop (scan_while P s p) s = dropWhile P (drop p s)"
proof -
  have "drop (scan_while P s p) s = drop (length (takeWhile P (drop p s))) (drop p s)"
    by (simp add: scan_while_takeWhile add.commute)
  then show ?thesis by (simp only: dropWhile_eq_drop [symmetric])
qed

lemma scan_while_take:
  "take (scan_while P s p - p) (drop p s) = takeWhile P (drop p s)"
  by (simp add: scan_while_takeWhile takeWhile_eq_take [symmetric])

lemma scan_while_stops:
  "scan_while P s p < length s \<Longrightarrow> \<not> P (s ! scan_while P s p)"
proof (induction P s p rule: scan_while.induct)
  case (1 P s p)
  then show ?case
    by (cases "p < length s \<and> P (s ! p)") (auto simp: scan_while.simps [of P s p])
qed

text \<open>\<open>substr s a b\<close> is \<^verbatim>\<open>s.substr(a, b - a)\<close>.\<close>

definition substr :: "string \<Rightarrow> nat \<Rightarrow> nat \<Rightarrow> string" where
  "substr s a b = take (b - a) (drop a s)"

lemma substr_append_drop: "a \<le> b \<Longrightarrow> substr s a b @ drop b s = drop a s"
  by (metis append_take_drop_id drop_drop le_add_diff_inverse2 substr_def)

lemma length_substr: "a \<le> b \<Longrightarrow> b \<le> length s \<Longrightarrow> length (substr s a b) = b - a"
  by (simp add: substr_def)

section \<open>Decimal output\<close>

definition digit_char :: "nat \<Rightarrow> char" where
  "digit_char d = char_of (48 + d)"

lemma digit_chars [simp]:
  "digit_char 0 = CHR ''0''" "digit_char (Suc 0) = CHR ''1''" "digit_char 1 = CHR ''1''"
  "digit_char 2 = CHR ''2''" "digit_char 3 = CHR ''3''" "digit_char 4 = CHR ''4''"
  "digit_char 5 = CHR ''5''" "digit_char 6 = CHR ''6''" "digit_char 7 = CHR ''7''"
  "digit_char 8 = CHR ''8''" "digit_char 9 = CHR ''9''"
  by code_simp+

fun show_nat :: "nat \<Rightarrow> string" where
  "show_nat n = (if n < 10 then [digit_char n] else show_nat (n div 10) @ [digit_char (n mod 10)])"

declare show_nat.simps [simp del]

definition show_int :: "int \<Rightarrow> string" where
  "show_int i = (if i < 0 then CHR ''-'' # show_nat (nat (- i)) else show_nat (nat i))"

end
