(* ===== verification/Machine.thy ===== *)
theory Machine
  imports Prelude
begin

text \<open>
  Interfaces shared by the components that are used as state machines. A component offers
  operations \<open>step op s\<close> that return the next state or a C++ fault; a client issues a
  sequence of operations. \<open>safe_machine\<close> is the contract "an admissible operation never
  faults and keeps the invariant"; \<open>refined_machine\<close> adds an abstraction function under
  which every operation is the abstract operation. The client-side theorems (whole runs) are
  proved here once and reused by every component through an interpretation.
\<close>

section \<open>Runs of a machine\<close>

fun run_ops :: "('op \<Rightarrow> 's \<Rightarrow> fault + 's) \<Rightarrow> 'op list \<Rightarrow> 's \<Rightarrow> fault + 's" where
  "run_ops step [] s = Inr s"
| "run_ops step (x # xs) s = bind_res (step x s) (run_ops step xs)"

lemma run_ops_append:
  "run_ops step (xs @ ys) s = bind_res (run_ops step xs s) (run_ops step ys)"
proof (induction xs arbitrary: s)
  case Nil
  then show ?case by simp
next
  case (Cons x xs)
  then show ?case by (cases "step x s") simp_all
qed

text \<open>\<open>admissible pre step xs s\<close>: every operation of the run meets its precondition in the
  state it is issued in, as long as no fault has occurred.\<close>

fun admissible :: "('op \<Rightarrow> 's \<Rightarrow> bool) \<Rightarrow> ('op \<Rightarrow> 's \<Rightarrow> fault + 's) \<Rightarrow> 'op list \<Rightarrow> 's \<Rightarrow> bool" where
  "admissible pre step [] s \<longleftrightarrow> True"
| "admissible pre step (x # xs) s \<longleftrightarrow>
     pre x s \<and> (case step x s of Inl _ \<Rightarrow> True | Inr s' \<Rightarrow> admissible pre step xs s')"

lemma admissible_append:
  "admissible pre step (xs @ ys) s \<longleftrightarrow>
     admissible pre step xs s \<and> (case run_ops step xs s of Inl _ \<Rightarrow> True | Inr t \<Rightarrow> admissible pre step ys t)"
proof (induction xs arbitrary: s)
  case Nil
  then show ?case by simp
next
  case (Cons x xs)
  then show ?case by (cases "step x s") simp_all
qed

section \<open>The safety contract\<close>

locale safe_machine =
  fixes step :: "'op \<Rightarrow> 's \<Rightarrow> fault + 's"
    and pre :: "'op \<Rightarrow> 's \<Rightarrow> bool"
    and inv :: "'s \<Rightarrow> bool"
  assumes step_ok: "inv s \<Longrightarrow> pre x s \<Longrightarrow> \<exists>s'. step x s = Inr s' \<and> inv s'"
begin

lemma run_safe:
  "inv s \<Longrightarrow> admissible pre step xs s \<Longrightarrow> \<exists>s'. run_ops step xs s = Inr s' \<and> inv s'"
proof (induction xs arbitrary: s)
  case Nil
  then show ?case by simp
next
  case (Cons x xs)
  then obtain t where t: "step x s = Inr t" "inv t"
    using step_ok [of s x] by auto
  with Cons.prems(2) have "admissible pre step xs t" by simp
  with Cons.IH [OF t(2)] t(1) show ?case by simp
qed

lemma run_inv:
  "inv s \<Longrightarrow> admissible pre step xs s \<Longrightarrow> run_ops step xs s = Inr s' \<Longrightarrow> inv s'"
  using run_safe [of s xs] by auto

lemma run_no_fault:
  "inv s \<Longrightarrow> admissible pre step xs s \<Longrightarrow> run_ops step xs s \<noteq> Inl f"
  using run_safe [of s xs] by auto

end

section \<open>The contract with predicted faults\<close>

text \<open>Some operations end in a fault that can be told from the state before: \<open>expect x s\<close> is that fault.
  \<open>first_fault\<close> follows a run up to the first operation that is expected to fault.\<close>

fun first_fault :: "('op \<Rightarrow> 's \<Rightarrow> fault option) \<Rightarrow> ('op \<Rightarrow> 's \<Rightarrow> fault + 's) \<Rightarrow> 'op list \<Rightarrow> 's \<Rightarrow> fault option" where
  "first_fault expect step [] s = None"
| "first_fault expect step (x # xs) s =
     (case expect x s of
        Some f \<Rightarrow> Some f
      | None \<Rightarrow> (case step x s of Inl f \<Rightarrow> None | Inr t \<Rightarrow> first_fault expect step xs t))"

locale checked_machine =
  fixes step :: "'op \<Rightarrow> 's \<Rightarrow> fault + 's"
    and pre :: "'op \<Rightarrow> 's \<Rightarrow> bool"
    and inv :: "'s \<Rightarrow> bool"
    and expect :: "'op \<Rightarrow> 's \<Rightarrow> fault option"
  assumes step_checked: "inv s \<Longrightarrow> pre x s \<Longrightarrow>
      (case expect x s of Some f \<Rightarrow> step x s = Inl f | None \<Rightarrow> \<exists>s'. step x s = Inr s' \<and> inv s')"
begin

lemma run_checked:
  "inv s \<Longrightarrow> admissible pre step xs s \<Longrightarrow>
     (case first_fault expect step xs s of
        Some f \<Rightarrow> run_ops step xs s = Inl f
      | None \<Rightarrow> \<exists>s'. run_ops step xs s = Inr s' \<and> inv s')"
proof (induction xs arbitrary: s)
  case Nil
  then show ?case by simp
next
  case (Cons x xs)
  have step: "case expect x s of Some f \<Rightarrow> step x s = Inl f | None \<Rightarrow> \<exists>s'. step x s = Inr s' \<and> inv s'"
    using step_checked Cons.prems by simp
  show ?case
  proof (cases "expect x s")
    case (Some f)
    with step show ?thesis by simp
  next
    case None
    with step obtain t where t: "step x s = Inr t" "inv t" by auto
    with Cons.prems(2) have "admissible pre step xs t" by simp
    have "run_ops step (x # xs) s = run_ops step xs t"
      "first_fault expect step (x # xs) s = first_fault expect step xs t" using t(1) None by simp_all
    with Cons.IH [OF t(2) \<open>admissible pre step xs t\<close>] show ?thesis by (simp only:)
  qed
qed

end

text \<open>A safe machine is one that never expects a fault.\<close>

sublocale safe_machine \<subseteq> checked: checked_machine step pre inv "\<lambda>_ _. None"
  by unfold_locales (simp add: step_ok)

section \<open>The refinement contract\<close>

locale refined_machine = safe_machine step pre inv
  for step :: "'op \<Rightarrow> 's \<Rightarrow> fault + 's"
    and pre :: "'op \<Rightarrow> 's \<Rightarrow> bool"
    and inv :: "'s \<Rightarrow> bool" +
  fixes abs :: "'s \<Rightarrow> 'a"
    and astep :: "'op \<Rightarrow> 'a \<Rightarrow> 'a"
  assumes step_abs: "inv s \<Longrightarrow> pre x s \<Longrightarrow> step x s = Inr s' \<Longrightarrow> abs s' = astep x (abs s)"
begin

lemma run_refines:
  "inv s \<Longrightarrow> admissible pre step xs s \<Longrightarrow>
     \<exists>s'. run_ops step xs s = Inr s' \<and> inv s' \<and> abs s' = fold astep xs (abs s)"
proof (induction xs arbitrary: s)
  case Nil
  then show ?case by simp
next
  case (Cons x xs)
  then obtain t where t: "step x s = Inr t" "inv t"
    using step_ok [of s x] by auto
  moreover from Cons.prems t have "abs t = astep x (abs s)"
    using step_abs [of s x t] by simp
  moreover from Cons.prems(2) t(1) have "admissible pre step xs t" by simp
  ultimately show ?case using Cons.IH [OF t(2)] by simp
qed

end


section \<open>Run queues\<close>

text \<open>
  The event loops of the repository take a snapshot of the number of queued operations and then
  move the front operation out, pop it and run it, that many times. \<open>drain\<close> is that loop.
  \<open>run_queue\<close> is what it needs of the operations: running one may only append to the queue,
  and is recorded in the log.
\<close>

fun drain :: "('op \<Rightarrow> 's \<Rightarrow> fault + 's) \<Rightarrow> ('s \<Rightarrow> 'op list) \<Rightarrow> ('s \<Rightarrow> 's) \<Rightarrow> nat \<Rightarrow> 's \<Rightarrow> fault + 's" where
  "drain exec pending pop 0 s = Inr s"
| "drain exec pending pop (Suc n) s =
     (case pending s of
        [] \<Rightarrow> Inl (Undefined ''front of an empty queue'')
      | op # _ \<Rightarrow> bind_res (exec op (pop s)) (drain exec pending pop n))"

locale run_queue =
  fixes exec :: "'op \<Rightarrow> 's \<Rightarrow> fault + 's"
    and pending :: "'s \<Rightarrow> 'op list"
    and pop :: "'s \<Rightarrow> 's"
    and ran :: "'s \<Rightarrow> 'op list"
    and inv :: "'s \<Rightarrow> bool"
  assumes exec_appends: "inv s \<Longrightarrow> exec op s = Inr s' \<Longrightarrow>
      inv s' \<and> (\<exists>new. pending s' = pending s @ new) \<and> ran s' = ran s @ [op]"
    and pop_front: "pending (pop s) = tl (pending s)" "ran (pop s) = ran s" "inv s \<Longrightarrow> inv (pop s)"
begin

lemma drain_runs:
  "inv s \<Longrightarrow> n \<le> length (pending s) \<Longrightarrow> drain exec pending pop n s = Inr s' \<Longrightarrow>
     inv s' \<and> ran s' = ran s @ take n (pending s)
     \<and> (\<exists>new. pending s' = drop n (pending s) @ new)"
proof (induction n arbitrary: s)
  case 0
  then show ?case by simp
next
  case (Suc n)
  then obtain op ops where ops: "pending s = op # ops" by (cases "pending s") auto
  with Suc.prems(3) obtain t where t: "exec op (pop s) = Inr t" "drain exec pending pop n t = Inr s'"
    by (auto simp: bind_res_Inr_iff)
  from exec_appends [OF pop_front(3) [OF Suc.prems(1)] t(1)] ops
  obtain new where new: "inv t" "pending t = ops @ new" "ran t = ran s @ [op]"
    by (auto simp: pop_front)
  from Suc.IH [OF new(1) _ t(2)] Suc.prems(2) ops new(2) obtain new' where
    "inv s'" "ran s' = ran t @ take n (ops @ new)" "pending s' = drop n (ops @ new) @ new'" by auto
  with Suc.prems(2) ops new(3) show ?case by simp
qed

lemma drain_defined:
  "inv s \<Longrightarrow> n \<le> length (pending s) \<Longrightarrow> (\<And>op t. inv t \<Longrightarrow> \<exists>t'. exec op t = Inr t') \<Longrightarrow>
     \<exists>s'. drain exec pending pop n s = Inr s'"
proof (induction n arbitrary: s)
  case 0
  then show ?case by simp
next
  case (Suc n)
  then obtain op ops where ops: "pending s = op # ops" by (cases "pending s") auto
  obtain t where t: "exec op (pop s) = Inr t"
    using Suc.prems(3) [OF pop_front(3) [OF Suc.prems(1)]] by blast
  from exec_appends [OF pop_front(3) [OF Suc.prems(1)] t] ops
  obtain new where new: "inv t" "pending t = ops @ new" by (auto simp: pop_front)
  have "n \<le> length (pending t)" using Suc.prems(2) ops new(2) by simp
  from Suc.IH [OF new(1) this Suc.prems(3)] ops t show ?case by simp
qed

end

text \<open>An invariant of the whole loop, when running the front operation of a queue keeps it.\<close>

lemma drain_invariant:
  assumes step: "\<And>s op later. I s \<Longrightarrow> pending s = op # later \<Longrightarrow>
      \<exists>s' new. exec op (pop s) = Inr s' \<and> I s' \<and> pending s' = later @ new"
  shows "I s \<Longrightarrow> n \<le> length (pending s) \<Longrightarrow>
    \<exists>s' new. drain exec pending pop n s = Inr s' \<and> I s' \<and> pending s' = drop n (pending s) @ new"
proof (induction n arbitrary: s)
  case 0
  then show ?case by simp
next
  case (Suc n)
  then obtain op later where q: "pending s = op # later" by (cases "pending s") auto
  from step [OF Suc.prems(1) q] obtain t new where
    t: "exec op (pop s) = Inr t" "I t" "pending t = later @ new" by blast
  have "n \<le> length (pending t)" using Suc.prems(2) q t(3) by simp
  from Suc.IH [OF t(2) this] obtain s' new' where
    "drain exec pending pop n t = Inr s'" "I s'" "pending s' = drop n (pending t) @ new'" by blast
  moreover have "n \<le> length later" using Suc.prems(2) q by simp
  ultimately show ?case using q t by simp
qed

declare drain.simps(2) [simp del]

end
