(* ===== verification/Core_Result.thy ===== *)
theory Core_Result
  imports Prelude
begin

text \<open>
  \<^verbatim>\<open>src/core/result.h\<close>: the three class templates \<^verbatim>\<open>Result<T, E>\<close>, \<^verbatim>\<open>Result<T, void>\<close> and
  \<^verbatim>\<open>Result<void, E>\<close>. A \<^verbatim>\<open>std::variant<T, E>\<close> is the sum \<open>'e + 'a\<close> (index 0, the value, is
  \<open>Inr\<close>; index 1, the error, is \<open>Inl\<close>); a \<^verbatim>\<open>std::optional\<close> is \<open>option\<close>. The accessors that
  can throw return \<open>fault + 'a\<close>; an exception leaving a \<^verbatim>\<open>noexcept\<close> accessor is \<open>Terminated\<close>.
\<close>

section \<open>Result with a value and an error type\<close>

type_synonym ('a, 'e) result = "'e + 'a"

definition Result_value :: "'a \<Rightarrow> ('a, 'e) result" where
  "Result_value v = Inr v"

definition Result_error :: "'e \<Rightarrow> ('a, 'e) result" where
  "Result_error e = Inl e"

text \<open>The converting constructors: one exists exactly when the argument's type converts to one of the two
  types only. \<open>to_T\<close> and \<open>to_E\<close> are those conversions, \<open>None\<close> where there is none.\<close>

definition Result_converting ::
    "('u \<Rightarrow> 'a) option \<Rightarrow> ('u \<Rightarrow> 'e) option \<Rightarrow> ('u \<Rightarrow> ('a, 'e) result) option" where
  "Result_converting to_T to_E =
     (case (to_T, to_E) of
        (Some f, None) \<Rightarrow> Some (\<lambda>u. Result_value (f u))
      | (None, Some g) \<Rightarrow> Some (\<lambda>u. Result_error (g u))
      | _ \<Rightarrow> None)"

definition variant_index :: "('a, 'e) result \<Rightarrow> nat" where
  "variant_index r = (case r of Inr _ \<Rightarrow> 0 | Inl _ \<Rightarrow> 1)"

definition HasValue :: "('a, 'e) result \<Rightarrow> bool" where
  "HasValue r \<longleftrightarrow> variant_index r = 0"

definition HasError :: "('a, 'e) result \<Rightarrow> bool" where
  "HasError r \<longleftrightarrow> variant_index r = 1"

definition Ok :: "('a, 'e) result \<Rightarrow> bool" where
  "Ok r \<longleftrightarrow> HasValue r"

definition ValueUnsafe :: "('a, 'e) result \<Rightarrow> fault + 'a" where
  "ValueUnsafe r =
     (case r of Inr v \<Rightarrow> Inr v | Inl _ \<Rightarrow> Inl (Terminated ''bad_variant_access''))"

definition ErrorUnsafe :: "('a, 'e) result \<Rightarrow> fault + 'e" where
  "ErrorUnsafe r =
     (case r of Inl e \<Rightarrow> Inr e | Inr _ \<Rightarrow> Inl (Terminated ''bad_variant_access''))"

definition Value :: "('a, 'e) result \<Rightarrow> fault + 'a" where
  "Value r = (if HasError r then Inl (Thrown ''Result: No Value present'') else ValueUnsafe r)"

definition Error :: "('a, 'e) result \<Rightarrow> fault + 'e" where
  "Error r = (if HasValue r then Inl (Thrown ''Result: No Error present'') else ErrorUnsafe r)"

section \<open>Result with a value type only\<close>

type_synonym 'a result_tv = "'a option"

definition TV_default :: "'a result_tv" where
  "TV_default = None"

definition TV_value :: "'a \<Rightarrow> 'a result_tv" where
  "TV_value v = Some v"

definition TV_HasError :: "'a result_tv \<Rightarrow> bool" where
  "TV_HasError r \<longleftrightarrow> r = None"

definition TV_HasValue :: "'a result_tv \<Rightarrow> bool" where
  "TV_HasValue r \<longleftrightarrow> \<not> TV_HasError r"

definition TV_Ok :: "'a result_tv \<Rightarrow> bool" where
  "TV_Ok r \<longleftrightarrow> TV_HasValue r"

definition TV_ValueUnsafe :: "'a result_tv \<Rightarrow> fault + 'a" where
  "TV_ValueUnsafe r =
     (case r of Some v \<Rightarrow> Inr v | None \<Rightarrow> Inl (Terminated ''bad_optional_access''))"

definition TV_Value :: "'a result_tv \<Rightarrow> fault + 'a" where
  "TV_Value r =
     (if TV_HasError r then Inl (Thrown ''Result: No Value present'') else TV_ValueUnsafe r)"

section \<open>Result with an error type only\<close>

type_synonym 'e result_ve = "'e option"

definition VE_default :: "'e result_ve" where
  "VE_default = None"

definition VE_error :: "'e \<Rightarrow> 'e result_ve" where
  "VE_error e = Some e"

definition VE_HasError :: "'e result_ve \<Rightarrow> bool" where
  "VE_HasError r \<longleftrightarrow> r \<noteq> None"

definition VE_HasValue :: "'e result_ve \<Rightarrow> bool" where
  "VE_HasValue r \<longleftrightarrow> \<not> VE_HasError r"

definition VE_Ok :: "'e result_ve \<Rightarrow> bool" where
  "VE_Ok r \<longleftrightarrow> VE_HasValue r"

definition VE_ErrorUnsafe :: "'e result_ve \<Rightarrow> fault + 'e" where
  "VE_ErrorUnsafe r =
     (case r of Some e \<Rightarrow> Inr e | None \<Rightarrow> Inl (Terminated ''bad_optional_access''))"

definition VE_Error :: "'e result_ve \<Rightarrow> fault + 'e" where
  "VE_Error r =
     (if VE_HasValue r then Inl (Thrown ''Result: No Error present'') else VE_ErrorUnsafe r)"

lemmas result_defs = Result_value_def Result_error_def variant_index_def HasValue_def HasError_def
  Ok_def ValueUnsafe_def ErrorUnsafe_def Value_def Error_def
  TV_default_def TV_value_def TV_HasError_def TV_HasValue_def TV_Ok_def TV_ValueUnsafe_def
  TV_Value_def VE_default_def VE_error_def VE_HasError_def VE_HasValue_def VE_Ok_def
  VE_ErrorUnsafe_def VE_Error_def

section \<open>The contract of a checked accessor\<close>

text \<open>
  Every accessor pair of the header follows one contract: a presence test, an unchecked read
  that is only meaningful when the test holds, and a checked read that throws otherwise.
  Clients of a \<^verbatim>\<open>Result\<close> rely on nothing else.
\<close>

locale checked_access =
  fixes has :: "'r \<Rightarrow> bool"
    and raw_read :: "'r \<Rightarrow> fault + 'a"
    and guarded :: "'r \<Rightarrow> fault + 'a"
    and mk :: "'a \<Rightarrow> 'r"
    and msg :: string
  assumes has_iff: "has r \<longleftrightarrow> (\<exists>v. raw_read r = Inr v)"
    and guarded_eq: "guarded r = (if has r then raw_read r else Inl (Thrown msg))"
    and raw_read_mk: "raw_read (mk v) = Inr v"
begin

lemma guarded_mk: "guarded (mk v) = Inr v"
  using has_iff [of "mk v"] by (simp add: guarded_eq raw_read_mk)

lemma has_mk: "has (mk v)"
  using raw_read_mk by (simp add: has_iff)

lemma guarded_Inl_iff: "guarded r = Inl f \<longleftrightarrow> f = Thrown msg \<and> \<not> has r"
  using has_iff [of r] by (auto simp: guarded_eq)

lemma guarded_Inr_iff: "(\<exists>v. guarded r = Inr v) \<longleftrightarrow> has r"
  using has_iff [of r] by (auto simp: guarded_eq)

lemma never_terminates: "guarded r \<noteq> Inl (Terminated m)"
  by (simp add: guarded_Inl_iff)

end

interpretation value_access: checked_access HasValue ValueUnsafe Value Result_value
  "''Result: No Value present''"
  by unfold_locales (auto simp: result_defs split: sum.splits)

interpretation error_access: checked_access HasError ErrorUnsafe Error Result_error
  "''Result: No Error present''"
  by unfold_locales (auto simp: result_defs split: sum.splits)

interpretation tv_access: checked_access TV_HasValue TV_ValueUnsafe TV_Value TV_value
  "''Result: No Value present''"
  by unfold_locales (auto simp: result_defs split: option.splits)

interpretation ve_access: checked_access VE_HasError VE_ErrorUnsafe VE_Error VE_error
  "''Result: No Error present''"
  by unfold_locales (auto simp: result_defs split: option.splits)

lemma HasValue_simps [simp]: "HasValue (Inr v)" "\<not> HasValue (Inl e)"
  by (simp_all add: result_defs)

lemma HasError_simps [simp]: "HasError (Inl e)" "\<not> HasError (Inr v)"
  by (simp_all add: result_defs)

lemma Ok_simps [simp]: "Ok (Inr v)" "\<not> Ok (Inl e)"
  by (simp_all add: Ok_def)

lemma HasError_iff: "HasError r \<longleftrightarrow> \<not> HasValue r"
  by (cases r) simp_all


section \<open>The properties of Result\<close>

text \<open>
  The checked accessors return the stored alternative or throw a \<^verbatim>\<open>logic_error\<close> that names
  the missing one, for all three templates; they never reach the terminating path, which the
  unchecked accessors take exactly when their alternative is missing.
\<close>
theorem result_accessors:
  "(HasValue r \<longrightarrow> (\<exists>v. Value r = Inr v \<and> ValueUnsafe r = Inr v \<and> r = Result_value v))
   \<and> (\<not> HasValue r \<longrightarrow> Value r = Inl (Thrown ''Result: No Value present'')
        \<and> (\<exists>m. ValueUnsafe r = Inl (Terminated m)) \<and> (\<exists>e. Error r = Inr e \<and> r = Result_error e))
   \<and> (HasValue r \<longrightarrow> Error r = Inl (Thrown ''Result: No Error present'')
        \<and> (\<exists>m. ErrorUnsafe r = Inl (Terminated m)))
   \<and> Value r \<noteq> Inl (Terminated m) \<and> Error r \<noteq> Inl (Terminated m)
   \<and> TV_Value t \<noteq> Inl (Terminated m) \<and> (TV_HasValue t \<longleftrightarrow> (\<exists>v. TV_Value t = Inr v))
   \<and> VE_Error u \<noteq> Inl (Terminated m) \<and> (VE_HasError u \<longleftrightarrow> (\<exists>e. VE_Error u = Inr e))"
  using value_access.never_terminates [of r m] error_access.never_terminates [of r m]
    tv_access.never_terminates [of t m] ve_access.never_terminates [of u m]
    tv_access.guarded_Inr_iff [of t] ve_access.guarded_Inr_iff [of u]
  by (cases r) (auto simp: result_defs)

lemma result_accessors_witness:
  "Value (Result_error (3 :: nat) :: (nat, nat) result) = Inl (Thrown ''Result: No Value present'')"
  using result_accessors [of "Inl 3 :: (nat, nat) result" "[]" None None]
  by (auto simp: Result_error_def)

end
