(* ===== verification/Core_Error.thy ===== *)
theory Core_Error
  imports Core_Result
begin

text \<open>
  \<^verbatim>\<open>src/core/error.h\<close>, \<^verbatim>\<open>error.cpp\<close>, \<^verbatim>\<open>source_context.h\<close>, \<^verbatim>\<open>make_noexcept.h\<close> and the error
  details declared by the components (\<^verbatim>\<open>c_frontend/lib/{lexer,parser,codegen}.h\<close>,
  \<^verbatim>\<open>minaio/v2/error_details.h\<close>). An error-details object is a value of \<open>err_details\<close>, one
  constructor per concrete class; the address of a class's \<^verbatim>\<open>static char s_id\<close>, which is what
  \<^verbatim>\<open>ClassId()\<close> returns and what \<^verbatim>\<open>IsA\<close> compares, is a value of \<open>err_class\<close>. File names of
  source locations are relative to \<^verbatim>\<open>src/\<close> (the build prefix of \<^verbatim>\<open>__FILE__\<close> is dropped).
\<close>

section \<open>Classes of error details\<close>

datatype err_class =
    C_IErrorDetails | C_StringErrorDetails
  | C_LexerErrorDetails | C_ParserErrorDetails | C_CodegenErrorDetails
  | C_NetErrorDetails | C_NetUserErrorDetails | C_PosixErrorDetails

datatype net_user_code = kCancelledAsyncOp | kEndOfFile | kClosedFD

datatype err_details =
    StringErrorDetails string
  | LexerErrorDetails string
  | ParserErrorDetails string
  | CodegenErrorDetails string
  | NetErrorDetails
  | NetUserErrorDetails net_user_code
  | PosixErrorDetails int

fun class_of :: "err_details \<Rightarrow> err_class" where
  "class_of (StringErrorDetails _) = C_StringErrorDetails"
| "class_of (LexerErrorDetails _) = C_LexerErrorDetails"
| "class_of (ParserErrorDetails _) = C_ParserErrorDetails"
| "class_of (CodegenErrorDetails _) = C_CodegenErrorDetails"
| "class_of NetErrorDetails = C_NetErrorDetails"
| "class_of (NetUserErrorDetails _) = C_NetUserErrorDetails"
| "class_of (PosixErrorDetails _) = C_PosixErrorDetails"

text \<open>\<^verbatim>\<open>IErrorDetails::IsA\<close>, and the override every derived class has: compare with the own
  class id, else ask the base class.\<close>

definition IErrorDetails_IsA :: "err_class \<Rightarrow> bool" where
  "IErrorDetails_IsA class_id \<longleftrightarrow> class_id = C_IErrorDetails"

definition Helper_IsA :: "err_class \<Rightarrow> (err_class \<Rightarrow> bool) \<Rightarrow> err_class \<Rightarrow> bool" where
  "Helper_IsA derived base_IsA class_id \<longleftrightarrow> class_id = derived \<or> base_IsA class_id"

definition LexerErrorDetails_IsA :: "err_class \<Rightarrow> bool" where
  "LexerErrorDetails_IsA class_id \<longleftrightarrow>
     class_id = C_LexerErrorDetails \<or> IErrorDetails_IsA class_id"

definition ParserErrorDetails_IsA :: "err_class \<Rightarrow> bool" where
  "ParserErrorDetails_IsA class_id \<longleftrightarrow>
     class_id = C_ParserErrorDetails \<or> IErrorDetails_IsA class_id"

definition CodegenErrorDetails_IsA :: "err_class \<Rightarrow> bool" where
  "CodegenErrorDetails_IsA class_id \<longleftrightarrow>
     class_id = C_CodegenErrorDetails \<or> IErrorDetails_IsA class_id"

definition NetErrorDetails_IsA :: "err_class \<Rightarrow> bool" where
  "NetErrorDetails_IsA = Helper_IsA C_NetErrorDetails IErrorDetails_IsA"

text \<open>The virtual call \<^verbatim>\<open>details.IsA(class_id)\<close> dispatches on the dynamic class.\<close>

fun IsA :: "err_details \<Rightarrow> err_class \<Rightarrow> bool" where
  "IsA (StringErrorDetails _) = Helper_IsA C_StringErrorDetails IErrorDetails_IsA"
| "IsA (LexerErrorDetails _) = LexerErrorDetails_IsA"
| "IsA (ParserErrorDetails _) = ParserErrorDetails_IsA"
| "IsA (CodegenErrorDetails _) = CodegenErrorDetails_IsA"
| "IsA NetErrorDetails = NetErrorDetails_IsA"
| "IsA (NetUserErrorDetails _) = Helper_IsA C_NetUserErrorDetails NetErrorDetails_IsA"
| "IsA (PosixErrorDetails _) = Helper_IsA C_PosixErrorDetails NetErrorDetails_IsA"

text \<open>\<^verbatim>\<open>Clone()\<close> of each class: a new object built from the stored fields.\<close>

fun Clone :: "err_details \<Rightarrow> err_details" where
  "Clone (StringErrorDetails msg) = StringErrorDetails msg"
| "Clone (LexerErrorDetails msg) = LexerErrorDetails msg"
| "Clone (ParserErrorDetails msg) = ParserErrorDetails msg"
| "Clone (CodegenErrorDetails msg) = CodegenErrorDetails msg"
| "Clone NetErrorDetails = NetErrorDetails"
| "Clone (NetUserErrorDetails code) = NetUserErrorDetails code"
| "Clone (PosixErrorDetails err_no) = PosixErrorDetails err_no"

text \<open>\<^verbatim>\<open>to_string()\<close> of each class; \<^verbatim>\<open>strerror\<close> is the C library's and is a parameter.\<close>

fun details_to_string :: "(int \<Rightarrow> string) \<Rightarrow> err_details \<Rightarrow> string" where
  "details_to_string strerror (StringErrorDetails msg) = msg"
| "details_to_string strerror (LexerErrorDetails msg) = msg"
| "details_to_string strerror (ParserErrorDetails msg) = msg"
| "details_to_string strerror (CodegenErrorDetails msg) = msg"
| "details_to_string strerror NetErrorDetails = ''NetErrorDetails''"
| "details_to_string strerror (NetUserErrorDetails _) = ''TODO''"
| "details_to_string strerror (PosixErrorDetails err_no) =
     ''errno: '' @ show_int err_no @ '', errstr: '' @ strerror err_no"

section \<open>Inheritance, and what IsA decides\<close>

text \<open>The class declarations \<^verbatim>\<open>class D : public B\<close>.\<close>

inductive extends :: "err_class \<Rightarrow> err_class \<Rightarrow> bool" where
  "extends C_StringErrorDetails C_IErrorDetails"
| "extends C_LexerErrorDetails C_IErrorDetails"
| "extends C_ParserErrorDetails C_IErrorDetails"
| "extends C_CodegenErrorDetails C_IErrorDetails"
| "extends C_NetErrorDetails C_IErrorDetails"
| "extends C_NetUserErrorDetails C_NetErrorDetails"
| "extends C_PosixErrorDetails C_NetErrorDetails"

inductive_simps extends_simps [simp]:
  "extends C_IErrorDetails b" "extends C_StringErrorDetails b" "extends C_LexerErrorDetails b"
  "extends C_ParserErrorDetails b" "extends C_CodegenErrorDetails b" "extends C_NetErrorDetails b"
  "extends C_NetUserErrorDetails b" "extends C_PosixErrorDetails b"

lemma extends_star_iff:
  "extends\<^sup>*\<^sup>* a c \<longleftrightarrow> a = c \<or> (\<exists>b. extends a b \<and> extends\<^sup>*\<^sup>* b c)"
  by (auto elim: converse_rtranclpE intro: converse_rtranclp_into_rtranclp)

lemma extends_star_root: "extends\<^sup>*\<^sup>* C_IErrorDetails c \<longleftrightarrow> c = C_IErrorDetails"
  by (subst extends_star_iff) auto

lemma extends_star_net:
  "extends\<^sup>*\<^sup>* C_NetErrorDetails c \<longleftrightarrow> c = C_NetErrorDetails \<or> c = C_IErrorDetails"
  by (subst extends_star_iff) (auto simp: extends_star_root)

lemmas IsA_defs = IErrorDetails_IsA_def Helper_IsA_def LexerErrorDetails_IsA_def
  ParserErrorDetails_IsA_def CodegenErrorDetails_IsA_def NetErrorDetails_IsA_def

lemma IsA_iff_extends: "IsA d c \<longleftrightarrow> extends\<^sup>*\<^sup>* (class_of d) c"
  by (cases d; subst extends_star_iff)
     (auto simp: IsA_defs extends_star_root extends_star_net)

text \<open>The classes are ordered by inheritance, and what \<^verbatim>\<open>IsA\<close> tests is this order.\<close>

instantiation err_class :: order
begin

definition less_eq_err_class :: "err_class \<Rightarrow> err_class \<Rightarrow> bool" where
  "less_eq_err_class = extends\<^sup>*\<^sup>*"

definition less_err_class :: "err_class \<Rightarrow> err_class \<Rightarrow> bool" where
  "less_err_class a b \<longleftrightarrow> a \<le> b \<and> \<not> b \<le> a"

lemma subclass_iff:
  "(a :: err_class) \<le> b \<longleftrightarrow> a = b \<or> b = C_IErrorDetails
     \<or> b = C_NetErrorDetails \<and> (a = C_NetUserErrorDetails \<or> a = C_PosixErrorDetails)"
  unfolding less_eq_err_class_def
  by (cases a; subst extends_star_iff) (auto simp: extends_star_root extends_star_net)

instance
  by standard (auto simp: less_err_class_def subclass_iff)

end

lemma IsA_iff_subclass: "IsA d c \<longleftrightarrow> class_of d \<le> c"
  by (simp add: IsA_iff_extends less_eq_err_class_def)

lemma IsA_base: "IsA d c \<Longrightarrow> c \<le> c' \<Longrightarrow> IsA d c'"
  unfolding IsA_iff_subclass by (rule order_trans)

lemma Clone_id [simp]: "Clone d = d"
  by (cases d) simp_all

section \<open>Errors with a source location\<close>

record source_location =
  file_name :: string
  line :: nat

record error =
  details :: err_details
  source_context :: source_location

text \<open>\<^verbatim>\<open>TCPP_MAKE_ERROR(details)\<close> at a line of a file.\<close>

definition TCPP_MAKE_ERROR :: "string \<Rightarrow> nat \<Rightarrow> err_details \<Rightarrow> error" where
  "TCPP_MAKE_ERROR file ln d =
     \<lparr>details = d, source_context = \<lparr>file_name = file, line = ln\<rparr>\<rparr>"

text \<open>The copy constructor and the copy assignment clone the details.\<close>

definition Error_copy :: "error \<Rightarrow> error" where
  "Error_copy e = \<lparr>details = Clone (details e), source_context = source_context e\<rparr>"

definition Error_copy_assign :: "error \<Rightarrow> error \<Rightarrow> error" where
  "Error_copy_assign this e =
     (let this = this\<lparr>source_context := source_context e\<rparr>
      in this\<lparr>details := Clone (details e)\<rparr>)"

definition Error_to_string :: "(int \<Rightarrow> string) \<Rightarrow> error \<Rightarrow> string" where
  "Error_to_string strerror e =
     ''Error @'' @ file_name (source_context e) @ '':'' @ show_nat (line (source_context e))
     @ '', details: '' @ details_to_string strerror (details e)"

definition Error_IsA :: "error \<Rightarrow> err_class \<Rightarrow> bool" where
  "Error_IsA e c \<longleftrightarrow> IsA (details e) c"

text \<open>\<^verbatim>\<open>Error::As<T>()\<close> is an unchecked \<^verbatim>\<open>static_cast\<close>.\<close>

definition Error_As :: "error \<Rightarrow> err_class \<Rightarrow> fault + err_details" where
  "Error_As e c =
     (if extends\<^sup>*\<^sup>* (class_of (details e)) c then Inr (details e)
      else Inl (Undefined ''static_cast to a class the object does not have''))"

lemma Error_copy_id [simp]: "Error_copy e = e"
  by (simp add: Error_copy_def)

lemma Error_copy_assign_eq [simp]: "Error_copy_assign this e = e"
  by (simp add: Error_copy_assign_def)

lemma Error_As_guarded: "Error_IsA e c \<Longrightarrow> Error_As e c = Inr (details e)"
  by (simp add: Error_IsA_def Error_As_def IsA_iff_extends)

type_synonym 'a error_or = "('a, error) result"

section \<open>Turning exceptions into errors\<close>

text \<open>What the wrapped callable does: return, throw a \<^verbatim>\<open>std::exception\<close> with a \<^verbatim>\<open>what()\<close>, or
  throw something else.\<close>

datatype 'a call_outcome = Returns 'a | ThrowsStd string | ThrowsOther

definition make_noexcept :: "'a call_outcome \<Rightarrow> 'a error_or" where
  "make_noexcept f =
     (case f of
        Returns v \<Rightarrow> Result_value v
      | ThrowsStd what \<Rightarrow>
          Result_error (TCPP_MAKE_ERROR ''core/make_noexcept.h'' 25 (StringErrorDetails what))
      | ThrowsOther \<Rightarrow>
          Result_error (TCPP_MAKE_ERROR ''core/make_noexcept.h'' 27
            (StringErrorDetails ''unknown exception'')))"

text \<open>\<^verbatim>\<open>TCPP_MAKE_NOEXCEPT(EXPR)\<close> wraps the evaluation of an expression, here in a state.\<close>

definition TCPP_MAKE_NOEXCEPT :: "('s \<Rightarrow> 'a call_outcome \<times> 's) \<Rightarrow> 's \<Rightarrow> 'a error_or \<times> 's" where
  "TCPP_MAKE_NOEXCEPT expr s = (let (r, s) = expr s in (make_noexcept r, s))"

lemma make_noexcept_Ok_iff: "Ok (make_noexcept f) \<longleftrightarrow> (\<exists>v. f = Returns v)"
  by (cases f) (simp_all add: make_noexcept_def Result_value_def Result_error_def)


section \<open>The properties of errors\<close>

text \<open>
  The hand-written run-time type test of the error details decides inheritance: \<^verbatim>\<open>IsA\<close> holds
  exactly for the class of the object and its base classes, so an \<^verbatim>\<open>As\<close> guarded by \<^verbatim>\<open>IsA\<close> is a
  valid cast, and an unguarded one is undefined behaviour exactly when \<^verbatim>\<open>IsA\<close> fails.
\<close>
theorem error_rtti:
  "(Error_IsA e c \<longleftrightarrow> extends\<^sup>*\<^sup>* (class_of (details e)) c)
   \<and> Error_As e c = (if Error_IsA e c then Inr (details e)
                      else Inl (Undefined ''static_cast to a class the object does not have''))
   \<and> Error_IsA (Error_copy e) c = Error_IsA e c
   \<and> Error_to_string sr (Error_copy_assign d e) = Error_to_string sr e"
  by (simp add: Error_IsA_def Error_As_def IsA_iff_extends)

text \<open>
  \<^verbatim>\<open>TCPP_MAKE_NOEXCEPT\<close> turns every outcome of the callable into a result: a value exactly
  when it returns, otherwise a \<^verbatim>\<open>StringErrorDetails\<close> that carries the exception's text.
\<close>
theorem make_noexcept_total:
  "(Ok (make_noexcept f) \<longleftrightarrow> (\<exists>v. f = Returns v))
   \<and> (\<forall>e. make_noexcept f = Inl e \<longrightarrow> Error_IsA e C_StringErrorDetails
        \<and> details_to_string sr (details e) = (case f of ThrowsStd what \<Rightarrow> what | _ \<Rightarrow> ''unknown exception''))"
  by (cases f) (auto simp: make_noexcept_def Result_value_def Result_error_def TCPP_MAKE_ERROR_def
      Error_IsA_def IsA_defs)

lemma make_noexcept_total_witness:
  "Error_IsA (projl (make_noexcept (ThrowsStd ''boom'' :: nat call_outcome))) C_StringErrorDetails"
  using make_noexcept_total [of "ThrowsStd ''boom'' :: nat call_outcome"]
  by (simp add: make_noexcept_def Result_error_def)

end
