(* ===== verification/Core_Range.thy ===== *)
theory Core_Range
  imports Prelude
begin

text \<open>
  \<^verbatim>\<open>src/core/range.h\<close>: \<^verbatim>\<open>Range<T>\<close> over an integral type. A value of \<^verbatim>\<open>T\<close> is a \<open>'w word\<close>
  together with the signedness of \<^verbatim>\<open>T\<close>: \<open>val\<close> reads it. Incrementing an unsigned iterator
  wraps; an increment past the largest value of a signed type at least as wide as \<^verbatim>\<open>int\<close> is
  undefined (narrower signed types are promoted and converted back, which wraps).
\<close>

definition val :: "bool \<Rightarrow> 'w::len word \<Rightarrow> int" where
  "val sg x = (if sg then sint x else uint x)"

record 't range =
  rg_begin :: "'t"
  rg_end :: "'t"
  rg_step :: "'t"

record 't range_iter =
  it_value :: "'t"
  it_step :: "'t"

definition Range3 :: "'w::len word \<Rightarrow> 'w word \<Rightarrow> 'w word \<Rightarrow> 'w word range" where
  "Range3 b e s = \<lparr>rg_begin = b, rg_end = e, rg_step = s\<rparr>"

definition Range2 :: "'w::len word \<Rightarrow> 'w word \<Rightarrow> 'w word range" where
  "Range2 b e = Range3 b e 1"

definition Range1 :: "'w::len word \<Rightarrow> 'w word range" where
  "Range1 e = Range2 0 e"

definition range_begin :: "'w word range \<Rightarrow> 'w word range_iter" where
  "range_begin r = \<lparr>it_value = rg_begin r, it_step = rg_step r\<rparr>"

definition range_end :: "'w word range \<Rightarrow> 'w word range_iter" where
  "range_end r = \<lparr>it_value = rg_end r, it_step = rg_step r\<rparr>"

definition iter_deref :: "'w word range_iter \<Rightarrow> 'w word" where
  "iter_deref it = it_value it"

definition iter_neq :: "bool \<Rightarrow> 'w::len word range_iter \<Rightarrow> 'w word range_iter \<Rightarrow> bool" where
  "iter_neq sg it other =
     (if val sg (it_step it) > 0 then val sg (it_value it) < val sg (it_value other)
      else val sg (it_value it) > val sg (it_value other))"

definition add_undefined :: "bool \<Rightarrow> 'w::len word \<Rightarrow> 'w word \<Rightarrow> bool" where
  "add_undefined sg a b \<longleftrightarrow>
     sg \<and> 32 \<le> LENGTH('w) \<and> sint (a + b) \<noteq> sint a + sint b"

definition iter_inc :: "bool \<Rightarrow> 'w::len word range_iter \<Rightarrow> fault + 'w word range_iter" where
  "iter_inc sg it =
     (if add_undefined sg (it_value it) (it_step it) then Inl (Undefined ''signed overflow'')
      else Inr (it\<lparr>it_value := it_value it + it_step it\<rparr>))"

text \<open>
  \<^verbatim>\<open>for (auto x : range) body\<close>, collecting the values the body sees. \<open>None\<close>: the loop does
  not end.
\<close>

partial_function (option) range_loop ::
    "bool \<Rightarrow> 'w::len word range_iter \<Rightarrow> 'w word range_iter \<Rightarrow> 'w word list
       \<Rightarrow> (fault + 'w word list) option" where
  "range_loop sg it fin acc =
     (if iter_neq sg it fin then
        (case iter_inc sg it of
           Inl f \<Rightarrow> Some (Inl f)
         | Inr it' \<Rightarrow> range_loop sg it' fin (acc @ [iter_deref it]))
      else Some (Inr acc))"

definition range_for :: "bool \<Rightarrow> 'w::len word range \<Rightarrow> (fault + 'w word list) option" where
  "range_for sg r = range_loop sg (range_begin r) (range_end r) []"

section \<open>Ascending iteration\<close>

lemmas range_defs = Range3_def Range2_def Range1_def range_begin_def range_end_def
  iter_deref_def iter_neq_def iter_inc_def

lemma sint_add_exact:
  fixes a b :: "'w::len word"
  assumes "- (2 ^ (LENGTH('w) - 1)) \<le> sint a + sint b" "sint a + sint b < 2 ^ (LENGTH('w) - 1)"
  shows "sint (a + b) = sint a + sint b"
  using assms by (simp add: signed_take_bit_int_eq_self sint_word_ariths(1))

lemma uint_add_exact:
  fixes a b :: "'w::len word"
  assumes "uint a + uint b < 2 ^ LENGTH('w)"
  shows "uint (a + b) = uint a + uint b"
  using assms by (simp add: uint_plus_if_size word_size)

definition val_max :: "bool \<Rightarrow> 'w::len itself \<Rightarrow> int" where
  "val_max sg _ = (if sg then 2 ^ (LENGTH('w) - 1) - 1 else 2 ^ LENGTH('w) - 1)"

lemma val_le_max: "val sg (x :: 'w::len word) \<le> val_max sg TYPE('w)"
  using sint_lt [of x] uint_bounded [of x] by (simp add: val_def val_max_def)

lemma val_add_exact:
  fixes a b :: "'w::len word"
  assumes "0 \<le> val sg b" "val sg a + val sg b \<le> val_max sg TYPE('w)"
  shows "val sg (a + b) = val sg a + val sg b" "\<not> add_undefined sg a b"
proof -
  have "sg \<Longrightarrow> sint (a + b) = sint a + sint b"
    using assms sint_ge [of a] by (intro sint_add_exact) (auto simp: val_def val_max_def)
  moreover have "\<not> sg \<Longrightarrow> uint (a + b) = uint a + uint b"
    using assms by (intro uint_add_exact) (auto simp: val_def val_max_def)
  ultimately show "val sg (a + b) = val sg a + val sg b" "\<not> add_undefined sg a b"
    by (auto simp: val_def add_undefined_def)
qed

text \<open>The values an ascending loop visits: \<open>b, b + s, b + 2s, \<dots>\<close> below \<open>e\<close>.\<close>

function steps_below :: "int \<Rightarrow> int \<Rightarrow> int \<Rightarrow> int list" where
  "steps_below b e s = (if b < e \<and> 0 < s then b # steps_below (b + s) e s else [])"
  by pat_completeness auto
termination
  by (relation "measure (\<lambda>(b, e, s). nat (e - b))") auto

declare steps_below.simps [simp del]

lemma range_loop_ascending:
  fixes b e s :: "'w::len word"
  assumes "0 < val sg s" "val sg e + val sg s - 1 \<le> val_max sg TYPE('w)"
  shows "\<exists>xs. range_loop sg \<lparr>it_value = b, it_step = s\<rparr> \<lparr>it_value = e, it_step = s\<rparr> acc
                = Some (Inr (acc @ xs))
            \<and> map (val sg) xs = steps_below (val sg b) (val sg e) (val sg s)"
  using assms
proof (induction "nat (val sg e - val sg b)" arbitrary: b acc rule: less_induct)
  case less
  show ?case
  proof (cases "val sg b < val sg e")
    case True
    have ok: "val sg b + val sg s \<le> val_max sg TYPE('w)"
      using less.prems(2) True by linarith
    note add = val_add_exact [OF order_less_imp_le [OF less.prems(1)] ok]
    have inc: "iter_inc sg \<lparr>it_value = b, it_step = s\<rparr> = Inr \<lparr>it_value = b + s, it_step = s\<rparr>"
      using add(2) by (simp add: iter_inc_def)
    have "nat (val sg e - val sg (b + s)) < nat (val sg e - val sg b)"
      using True add(1) less.prems(1) by simp
    from less.hyps [OF this less.prems, of "acc @ [b]"]
    obtain xs where xs:
      "range_loop sg \<lparr>it_value = b + s, it_step = s\<rparr> \<lparr>it_value = e, it_step = s\<rparr> (acc @ [b])
         = Some (Inr (acc @ b # xs))"
      "map (val sg) xs = steps_below (val sg (b + s)) (val sg e) (val sg s)"
      by auto
    have "range_loop sg \<lparr>it_value = b, it_step = s\<rparr> \<lparr>it_value = e, it_step = s\<rparr> acc
            = Some (Inr (acc @ b # xs))"
      using True less.prems(1) inc xs(1)
      by (subst range_loop.simps) (simp add: iter_neq_def iter_deref_def)
    moreover have "map (val sg) (b # xs) = steps_below (val sg b) (val sg e) (val sg s)"
      using True less.prems(1) xs(2) add(1) by (subst steps_below.simps) simp
    ultimately show ?thesis by blast
  next
    case False
    then show ?thesis using less.prems(1)
      by (subst range_loop.simps) (simp add: iter_neq_def steps_below.simps)
  qed
qed

lemma steps_below_1: "steps_below b e 1 = [b..e - 1]"
proof (induction "nat (e - b)" arbitrary: b)
  case 0
  then show ?case by (simp add: steps_below.simps)
next
  case (Suc n)
  then have "n = nat (e - (b + 1))" "b < e" by simp_all
  with Suc.hyps(1) [of "b + 1"] show ?case
    by (subst steps_below.simps) (simp add: upto_rec1)
qed

lemma val_one: "2 \<le> LENGTH('w) \<Longrightarrow> val sg (1 :: 'w::len word) = 1"
  by (simp add: val_def)

lemma range_loop_stuck:
  fixes b e :: "'w::len word"
  assumes "val sg e < val sg b"
  shows "range_loop sg \<lparr>it_value = b, it_step = 0\<rparr> \<lparr>it_value = e, it_step = 0\<rparr> acc = None"
proof (rule ccontr)
  let ?stuck = "\<lambda>it fin. it = \<lparr>it_value = b, it_step = 0\<rparr> \<and>
                          fin = \<lparr>it_value = e, it_step = (0 :: 'w word)\<rparr>"
  assume "\<not> ?thesis"
  then obtain r where ret:
    "range_loop sg \<lparr>it_value = b, it_step = 0\<rparr> \<lparr>it_value = e, it_step = 0\<rparr> acc = Some r"
    by auto
  have "\<forall>it fin. ?stuck it fin \<longrightarrow>
          \<lparr>it_value = b, it_step = 0\<rparr> = it \<longrightarrow> \<lparr>it_value = e, it_step = 0\<rparr> = fin \<longrightarrow> \<not> sg = sg"
  proof (rule range_loop.raw_induct
      [where P = "\<lambda>sg' it fin acc r. \<forall>it' fin'. ?stuck it' fin' \<longrightarrow> it = it' \<longrightarrow> fin = fin'
          \<longrightarrow> \<not> sg' = sg", OF _ ret])
    fix f sg' it fin acc r
    assume IH: "\<And>sg' it fin acc r. f sg' it fin acc = Some r \<Longrightarrow>
        \<forall>it' fin'. ?stuck it' fin' \<longrightarrow> it = it' \<longrightarrow> fin = fin' \<longrightarrow> \<not> sg' = sg"
      and eq: "(if iter_neq sg' it fin then
        (case iter_inc sg' it of Inl f \<Rightarrow> Some (Inl f)
         | Inr it' \<Rightarrow> f sg' it' fin (acc @ [iter_deref it])) else Some (Inr acc)) = Some r"
    show "\<forall>it' fin'. ?stuck it' fin' \<longrightarrow> it = it' \<longrightarrow> fin = fin' \<longrightarrow> \<not> sg' = sg"
      using eq assms IH
      by (fastforce simp: iter_neq_def iter_inc_def add_undefined_def val_def split: if_splits)
  qed
  then show False by simp
qed


section \<open>The properties of Range\<close>

text \<open>
  C40. Iterating a range with a positive step ends without undefined behaviour and visits exactly
  the begin value, begin plus step, and so on below the end, for every width and signedness, as
  long as one step past the last value does not leave the type.
\<close>
theorem range_for_ascending:
  fixes b e s :: "'w::len word"
  assumes "0 < val sg s" "val sg e + val sg s - 1 \<le> val_max sg TYPE('w)"
  shows "\<exists>xs. range_for sg (Range3 b e s) = Some (Inr xs)
    \<and> map (val sg) xs = steps_below (val sg b) (val sg e) (val sg s)"
  using range_loop_ascending [OF assms, of b "[]"] by (simp add: range_for_def range_defs)

text \<open>
  \<^verbatim>\<open>Range(b, e)\<close> visits all values from \<^verbatim>\<open>b\<close> to \<^verbatim>\<open>e - 1\<close>; with \<^verbatim>\<open>b\<close> above \<^verbatim>\<open>e\<close> it visits none
  (the unit test \<^verbatim>\<open>ReverseIteration\<close> expects a descending sequence, and never looks).
\<close>
theorem range_for_unit_step:
  fixes b e :: "'w::len word"
  assumes "2 \<le> LENGTH('w)"
  shows "\<exists>xs. range_for sg (Range2 b e) = Some (Inr xs) \<and> map (val sg) xs = [val sg b..val sg e - 1]"
  using range_loop_ascending [of sg 1 e b "[]"] val_one [OF assms, of sg] val_le_max [of sg e]
  by (simp add: range_for_def range_defs steps_below_1)

text \<open>
  A descending range with step 0 is accepted by the constructor and its loop never ends.
\<close>
theorem range_for_step_0:
  fixes b e :: "'w::len word"
  assumes "val sg e < val sg b"
  shows "range_for sg (Range3 b e 0) = None"
  using range_loop_stuck [OF assms] by (simp add: range_for_def range_defs)

section \<open>Witnesses\<close>

lemma range_for_ascending_witness:
  "\<exists>xs. range_for True (Range3 1 6 (2 :: 32 word)) = Some (Inr xs) \<and> map (val True) xs = [1, 3, 5]"
  using range_for_ascending [of True "2 :: 32 word" 6 1]
  by (simp add: val_def val_max_def steps_below.simps)

lemma range_for_unit_step_witness:
  "\<exists>xs. range_for True (Range2 5 (1 :: 32 word)) = Some (Inr xs) \<and> map (val True) xs = []"
  using range_for_unit_step [where 'w = 32, of True 5 1] by (simp add: val_def)

lemma range_for_step_0_witness: "range_for True (Range3 5 1 (0 :: 32 word)) = None"
  by (rule range_for_step_0) (simp add: val_def)

end
