(* ===== verification/CF_Lexer.thy ===== *)
theory CF_Lexer
  imports Core_Error
begin

text \<open>
  \<^verbatim>\<open>src/c_frontend/lib/lexer.{h,cpp}\<close>: tokens, the lexer's state (\<^verbatim>\<open>input_\<close>, \<^verbatim>\<open>pos_\<close>) and
  \<^verbatim>\<open>Lexer::next()\<close>, and the loop of \<^verbatim>\<open>main.cpp\<close> that calls it to the end of the input. The
  index-based code is translated as it is; \<open>lex1\<close> is a reference lexer on the remaining
  characters, and \<open>Lexer_next_lex1\<close> is the refinement between the two.
\<close>

section \<open>Tokens\<close>

datatype token_type = Identifier | ConstantNumberLiteral | Keyword | Symbol | EndOfFile

record token =
  tok_type :: token_type
  tok_text :: string

definition Token :: "token_type \<Rightarrow> string \<Rightarrow> token" where
  "Token ty txt = \<lparr>tok_type = ty, tok_text = txt\<rparr>"

lemma Token_sel [simp]: "tok_type (Token ty txt) = ty" "tok_text (Token ty txt) = txt"
  by (simp_all add: Token_def)

definition kKeywords :: "string list" where
  "kKeywords =
     [''int'', ''long'', ''bool'', ''short'', ''float'', ''double'', ''return'', ''if'', ''else'',
      ''while'', ''for'', ''void'']"

definition kCSymbols :: "char list" where
  "kCSymbols = ''+-*/=;(){}[]<>,.&|^!~%?:#''"

section \<open>The lexer\<close>

record lexer =
  lx_input :: string
  lx_pos :: nat

definition Lexer :: "string \<Rightarrow> lexer" where
  "Lexer input = \<lparr>lx_input = input, lx_pos = 0\<rparr>"

definition is_digit_for_base :: "nat \<Rightarrow> char \<Rightarrow> bool" where
  "is_digit_for_base base c =
     (if base = 2 then c = CHR ''0'' \<or> c = CHR ''1''
      else if base = 8 then char_between CHR ''0'' CHR ''7'' c
      else if base = 10 then c_isdigit c
      else if base = 16 then
        c_isdigit c \<or> char_between CHR ''a'' CHR ''f'' c \<or> char_between CHR ''A'' CHR ''F'' c
      else False)"

definition is_ident_char :: "char \<Rightarrow> bool" where
  "is_ident_char c \<longleftrightarrow> c_isalnum c \<or> c = CHR ''_''"

text \<open>The four stages of a number, each moving \<^verbatim>\<open>pos_\<close> on: digits with their base prefix,
  fraction, exponent, suffixes.\<close>

definition number_prefix :: "string \<Rightarrow> nat \<Rightarrow> nat" where
  "number_prefix s p =
     (if s ! p = CHR ''0'' then
        if p + 1 < length s \<and> (s ! (p + 1) = CHR ''x'' \<or> s ! (p + 1) = CHR ''X'') then
          scan_while (is_digit_for_base 16) s (p + 2)
        else if p + 1 < length s \<and> (s ! (p + 1) = CHR ''b'' \<or> s ! (p + 1) = CHR ''B'') then
          scan_while (is_digit_for_base 2) s (p + 2)
        else if p + 1 < length s \<and> c_isdigit (s ! (p + 1)) then
          scan_while (is_digit_for_base 8) s (p + 1)
        else p + 1
      else scan_while c_isdigit s p)"

definition number_fraction :: "string \<Rightarrow> nat \<Rightarrow> nat" where
  "number_fraction s p =
     (if p < length s \<and> s ! p = CHR ''.'' then scan_while c_isdigit s (p + 1) else p)"

definition number_exponent :: "string \<Rightarrow> nat \<Rightarrow> nat" where
  "number_exponent s p =
     (if p < length s \<and> (s ! p = CHR ''e'' \<or> s ! p = CHR ''E'') then
        let q = p + 1;
            q = (if q < length s \<and> (s ! q = CHR ''+'' \<or> s ! q = CHR ''-'') then q + 1 else q)
        in scan_while c_isdigit s q
      else p)"

definition is_suffix_char :: "char \<Rightarrow> bool" where
  "is_suffix_char ch \<longleftrightarrow>
     ch = CHR ''u'' \<or> ch = CHR ''U'' \<or> ch = CHR ''l'' \<or> ch = CHR ''L'' \<or> ch = CHR ''f'' \<or> ch = CHR ''F''"

definition number_suffix :: "string \<Rightarrow> nat \<Rightarrow> nat" where
  "number_suffix s p = scan_while is_suffix_char s p"

definition number_end :: "string \<Rightarrow> nat \<Rightarrow> nat" where
  "number_end s p = number_suffix s (number_exponent s (number_fraction s (number_prefix s p)))"

definition number_start :: "string \<Rightarrow> nat \<Rightarrow> bool" where
  "number_start s p \<longleftrightarrow>
     c_isdigit (s ! p) \<or> (s ! p = CHR ''.'' \<and> p + 1 < length s \<and> c_isdigit (s ! (p + 1)))"

definition invalid_character :: "char \<Rightarrow> error" where
  "invalid_character c =
     TCPP_MAKE_ERROR ''c_frontend/lib/lexer.cpp'' 115
       (LexerErrorDetails (''Invalid character in input: '' @ [CHR 0x27, c, CHR 0x27]))"

definition Lexer_next :: "lexer \<Rightarrow> token error_or \<times> lexer" where
  "Lexer_next l =
     (let s = lx_input l;
          p = scan_while c_isspace s (lx_pos l)
      in if p \<ge> length s then (Result_value (Token EndOfFile ''''), l\<lparr>lx_pos := p\<rparr>)
         else
           let c = s ! p in
           if c_isalpha c \<or> c = CHR ''_'' then
             let q = scan_while is_ident_char s p;
                 txt = substr s p q
             in (if txt \<in> set kKeywords then Result_value (Token Keyword txt)
                 else Result_value (Token Identifier txt),
                 l\<lparr>lx_pos := q\<rparr>)
           else if number_start s p then
             let q = number_end s p
             in (Result_value (Token ConstantNumberLiteral (substr s p q)), l\<lparr>lx_pos := q\<rparr>)
           else if c \<in> set kCSymbols then
             (Result_value (Token Symbol [c]), l\<lparr>lx_pos := p + 1\<rparr>)
           else (Result_error (invalid_character c), l\<lparr>lx_pos := p + 1\<rparr>))"

section \<open>A reference lexer on the remaining characters\<close>

fun rest_prefix :: "string \<Rightarrow> string" where
  "rest_prefix [] = []"
| "rest_prefix (c # cs) =
     (if c = CHR ''0'' then
        (case cs of
           [] \<Rightarrow> []
         | d # ds \<Rightarrow>
             if d = CHR ''x'' \<or> d = CHR ''X'' then dropWhile (is_digit_for_base 16) ds
             else if d = CHR ''b'' \<or> d = CHR ''B'' then dropWhile (is_digit_for_base 2) ds
             else if c_isdigit d then dropWhile (is_digit_for_base 8) cs
             else cs)
      else dropWhile c_isdigit (c # cs))"

fun rest_fraction :: "string \<Rightarrow> string" where
  "rest_fraction [] = []"
| "rest_fraction (c # cs) = (if c = CHR ''.'' then dropWhile c_isdigit cs else c # cs)"

fun rest_exponent :: "string \<Rightarrow> string" where
  "rest_exponent [] = []"
| "rest_exponent (c # cs) =
     (if c = CHR ''e'' \<or> c = CHR ''E'' then
        (case cs of
           [] \<Rightarrow> []
         | d # ds \<Rightarrow> dropWhile c_isdigit (if d = CHR ''+'' \<or> d = CHR ''-'' then ds else cs))
      else c # cs)"

definition rest_number :: "string \<Rightarrow> string" where
  "rest_number u = dropWhile is_suffix_char (rest_exponent (rest_fraction (rest_prefix u)))"

text \<open>\<open>eaten u r\<close> is what was consumed of \<open>u\<close> when \<open>r\<close> is left.\<close>

definition eaten :: "string \<Rightarrow> string \<Rightarrow> string" where
  "eaten u r = take (length u - length r) u"

fun starts_number :: "string \<Rightarrow> bool" where
  "starts_number [] = False"
| "starts_number (c # cs) =
     (c_isdigit c \<or> (c = CHR ''.'' \<and> (case cs of [] \<Rightarrow> False | d # _ \<Rightarrow> c_isdigit d)))"

definition word_token :: "string \<Rightarrow> token" where
  "word_token txt = (if txt \<in> set kKeywords then Token Keyword txt else Token Identifier txt)"

fun lex_token :: "string \<Rightarrow> token error_or \<times> string" where
  "lex_token [] = (Inr (Token EndOfFile ''''), [])"
| "lex_token (c # cs) =
     (if c_isalpha c \<or> c = CHR ''_'' then
        (Inr (word_token (takeWhile is_ident_char (c # cs))), dropWhile is_ident_char (c # cs))
      else if starts_number (c # cs) then
        (Inr (Token ConstantNumberLiteral (eaten (c # cs) (rest_number (c # cs)))),
         rest_number (c # cs))
      else if c \<in> set kCSymbols then (Inr (Token Symbol [c]), cs)
      else (Inl (invalid_character c), cs))"

definition lex1 :: "string \<Rightarrow> token error_or \<times> string" where
  "lex1 u = lex_token (dropWhile c_isspace u)"

section \<open>The index-based lexer refines the reference lexer\<close>

lemma drop_eq_nth: "p < length s \<Longrightarrow> drop p s = s ! p # drop (Suc p) s"
  by (simp add: Cons_nth_drop_Suc)

lemma drop_number_prefix:
  assumes "p < length s"
  shows "drop (number_prefix s p) s = rest_prefix (drop p s)"
proof (cases "Suc p < length s")
  case True
  then show ?thesis using assms
    by (simp add: drop_eq_nth [of p s] drop_eq_nth [of "Suc p" s] number_prefix_def scan_while_drop)
next
  case False
  then show ?thesis using assms
    by (simp add: drop_eq_nth [of p s] number_prefix_def scan_while_drop)
qed

lemma drop_number_fraction: "drop (number_fraction s p) s = rest_fraction (drop p s)"
  by (cases "p < length s") (auto simp: number_fraction_def scan_while_drop drop_eq_nth [of p s])

lemma drop_number_exponent: "drop (number_exponent s p) s = rest_exponent (drop p s)"
proof (cases "p < length s")
  case True
  then show ?thesis
    by (cases "Suc p < length s")
       (auto simp: number_exponent_def scan_while_drop drop_eq_nth [of p s]
          drop_eq_nth [of "Suc p" s] Let_def)
next
  case False
  then show ?thesis by (simp add: number_exponent_def)
qed

lemma drop_number_end: "p < length s \<Longrightarrow> drop (number_end s p) s = rest_number (drop p s)"
  by (simp add: number_end_def number_suffix_def rest_number_def scan_while_drop
      drop_number_prefix drop_number_fraction drop_number_exponent)

lemma number_start_drop: "p < length s \<Longrightarrow> number_start s p = starts_number (drop p s)"
  by (cases "Suc p < length s")
     (simp_all add: number_start_def drop_eq_nth [of p s] drop_eq_nth [of "Suc p" s])

text \<open>Positions stay within the input.\<close>

lemma number_prefix_bounds:
  assumes "p < length s"
  shows "p \<le> number_prefix s p \<and> number_prefix s p \<le> length s"
  using assms scan_while_ge [of "p + 2" _ s] scan_while_ge [of "p + 1" _ s] scan_while_ge [of p _ s]
    scan_while_le [of "p + 2" s] scan_while_le [of "p + 1" s] scan_while_le [of p s]
  by (auto simp: number_prefix_def intro: order_trans [of _ "Suc (Suc p)"] Suc_leD)

lemma number_fraction_bounds:
  "p \<le> length s \<Longrightarrow> p \<le> number_fraction s p \<and> number_fraction s p \<le> length s"
  using scan_while_ge [of "p + 1" c_isdigit s] scan_while_le [of "p + 1" s c_isdigit]
  by (auto simp: number_fraction_def)

lemma number_exponent_bounds:
  "p \<le> length s \<Longrightarrow> p \<le> number_exponent s p \<and> number_exponent s p \<le> length s"
  using scan_while_ge [of "p + 1" c_isdigit s] scan_while_le [of "p + 1" s c_isdigit]
    scan_while_ge [of "p + 2" c_isdigit s] scan_while_le [of "p + 2" s c_isdigit]
  by (auto simp: number_exponent_def Let_def)

lemma number_end_bounds:
  assumes "p < length s"
  shows "p \<le> number_end s p \<and> number_end s p \<le> length s"
  using number_prefix_bounds [OF assms] number_fraction_bounds [of "number_prefix s p" s]
    number_exponent_bounds [of "number_fraction s (number_prefix s p)" s]
    scan_while_ge [of "number_exponent s (number_fraction s (number_prefix s p))" is_suffix_char s]
    scan_while_le [of "number_exponent s (number_fraction s (number_prefix s p))" s is_suffix_char]
  by (auto simp: number_end_def number_suffix_def)

lemma substr_eaten: "q \<le> length s \<Longrightarrow> substr s p q = eaten (drop p s) (drop q s)"
  by (simp add: substr_def eaten_def)

lemma substr_scan: "substr s p (scan_while P s p) = takeWhile P (drop p s)"
  by (simp add: substr_def scan_while_take)

text \<open>The refinement: the same token (or error), and the rest of the input from the new
  position on is what the reference lexer leaves.\<close>

lemma Lexer_next_lex1:
  assumes "Lexer_next l = (re, l')"
  shows "lex1 (drop (lx_pos l) (lx_input l)) = (re, drop (lx_pos l') (lx_input l'))
    \<and> lx_input l' = lx_input l"
proof -
  let ?s = "lx_input l"
  define p where "p = scan_while c_isspace ?s (lx_pos l)"
  have ws: "dropWhile c_isspace (drop (lx_pos l) ?s) = drop p ?s"
    by (simp add: p_def scan_while_drop)
  note nxt = assms [unfolded Lexer_next_def Let_def, folded p_def]
  show ?thesis
  proof (cases "p < length ?s")
    case True
    define c where "c = ?s ! p"
    define cs where "cs = drop (Suc p) ?s"
    have v: "drop p ?s = c # cs"
      using drop_eq_nth [OF True] by (simp add: c_def cs_def)
    have end_le: "number_end ?s p \<le> length ?s"
      using number_end_bounds [OF True] by simp
    note num = substr_eaten [OF end_le, of p, unfolded v] drop_number_end [OF True, unfolded v]
      number_start_drop [OF True, unfolded v]
    note wrd = substr_scan [of ?s p is_ident_char, unfolded v] scan_while_drop [of is_ident_char ?s p, unfolded v]
    have nxt: "(if c_isalpha c \<or> c = CHR ''_'' then
        (Inr (word_token (takeWhile is_ident_char (c # cs))),
         l\<lparr>lx_pos := scan_while is_ident_char ?s p\<rparr>)
      else if starts_number (c # cs) then
        (Inr (Token ConstantNumberLiteral (eaten (c # cs) (rest_number (c # cs)))),
         l\<lparr>lx_pos := number_end ?s p\<rparr>)
      else if c \<in> set kCSymbols then (Inr (Token Symbol [c]), l\<lparr>lx_pos := p + 1\<rparr>)
      else (Inl (invalid_character c), l\<lparr>lx_pos := p + 1\<rparr>)) = (re, l')"
      using nxt True by (simp only: num wrd c_def [symmetric] word_token_def Result_value_def
          Result_error_def not_le [symmetric] if_False if_distrib [of Inr])
    show ?thesis
      unfolding lex1_def ws v lex_token.simps using nxt cs_def
      by (simp only: split: if_splits) (auto simp: num(2) wrd(2))
  next
    case False
    with nxt show ?thesis
      unfolding lex1_def ws by (auto simp: Result_value_def)
  qed
qed

section \<open>What a token consumes\<close>

text \<open>The characters the lexer accepts; every other one is an error.\<close>

definition lexable :: "char \<Rightarrow> bool" where
  "lexable c \<longleftrightarrow> c_isspace c \<or> is_ident_char c \<or> c \<in> set kCSymbols"

definition token_char :: "char \<Rightarrow> bool" where
  "token_char c \<longleftrightarrow> lexable c \<and> \<not> c_isspace c"

lemma kCSymbols_not_space: "c \<in> set kCSymbols \<Longrightarrow> \<not> c_isspace c"
  by (auto simp: kCSymbols_def c_isspace_def)

lemma ident_char_not_space: "is_ident_char c \<Longrightarrow> \<not> c_isspace c"
  by (auto simp: is_ident_char_def c_isspace_def c_isalnum_def c_isalpha_def c_isdigit_def Let_def)

lemma token_char_intros:
  "is_ident_char c \<Longrightarrow> token_char c"
  "c_isdigit c \<Longrightarrow> token_char c"
  "c_isalpha c \<Longrightarrow> token_char c"
  "is_digit_for_base b c \<Longrightarrow> token_char c"
  "is_suffix_char c \<Longrightarrow> token_char c"
  "c \<in> set kCSymbols \<Longrightarrow> token_char c"
proof -
  show id: "is_ident_char c \<Longrightarrow> token_char c" for c
    by (simp add: token_char_def lexable_def ident_char_not_space)
  show "c_isdigit c \<Longrightarrow> token_char c" "c_isalpha c \<Longrightarrow> token_char c"
    by (auto intro!: id simp: is_ident_char_def c_isalnum_def)
  have "is_digit_for_base b c \<Longrightarrow> is_ident_char c"
    by (auto simp: is_digit_for_base_def is_ident_char_def char_class_defs split: if_splits)
  then show "is_digit_for_base b c \<Longrightarrow> token_char c" by (rule id)
  have "is_suffix_char c \<Longrightarrow> is_ident_char c"
    by (auto simp: is_suffix_char_def is_ident_char_def char_class_defs)
  then show "is_suffix_char c \<Longrightarrow> token_char c" by (rule id)
  show "c \<in> set kCSymbols \<Longrightarrow> token_char c"
    by (simp add: token_char_def lexable_def kCSymbols_not_space)
qed

lemma token_char_literals [simp]:
  "token_char CHR ''_''" "token_char CHR ''.''" "token_char CHR ''+''" "token_char CHR ''-''"
  "token_char CHR ''0''" "token_char CHR ''x''" "token_char CHR ''X''" "token_char CHR ''b''"
  "token_char CHR ''B''" "token_char CHR ''e''" "token_char CHR ''E''"
  by (simp_all add: token_char_def lexable_def kCSymbols_def is_ident_char_def char_class_defs)

text \<open>
  A scanner takes a prefix of token characters off its input (\<open>munches\<close>), and what it does up
  to the end of the token does not depend on the characters after it, as long as these begin
  with white space or there are none (\<open>local\<close>).
\<close>

definition eats :: "string \<Rightarrow> string \<Rightarrow> bool" where
  "eats u r \<longleftrightarrow> (\<exists>t. u = t @ r \<and> (\<forall>c \<in> set t. token_char c))"

definition munches :: "(string \<Rightarrow> string) \<Rightarrow> bool" where
  "munches f \<longleftrightarrow> (\<forall>u. eats u (f u))"

definition separated :: "string \<Rightarrow> bool" where
  "separated r \<longleftrightarrow> (case r of [] \<Rightarrow> True | c # _ \<Rightarrow> c_isspace c)"

definition local :: "(string \<Rightarrow> string) \<Rightarrow> bool" where
  "local f \<longleftrightarrow>
     (\<forall>t1 t2 r r'. f (t1 @ t2 @ r) = t2 @ r \<longrightarrow> separated r' \<longrightarrow> f (t1 @ t2 @ r') = t2 @ r')"

lemma eats_refl [simp, intro]: "eats r r"
  by (auto simp: eats_def)

lemma eats_Cons: "token_char c \<Longrightarrow> eats cs r \<Longrightarrow> eats (c # cs) r"
  unfolding eats_def by (elim exE conjE, rule_tac x = "c # t" in exI) auto

lemma eats_trans:
  assumes "eats u v" "eats v w" shows "eats u w"
proof -
  obtain t t' where "u = t @ v" "v = t' @ w" "\<forall>c \<in> set (t @ t'). token_char c"
    using assms by (auto simp: eats_def)
  then have "u = (t @ t') @ w" by simp
  with \<open>\<forall>c \<in> set (t @ t'). token_char c\<close> show ?thesis unfolding eats_def by blast
qed

lemma eats_length: "eats u r \<Longrightarrow> length r \<le> length u"
  by (auto simp: eats_def)

lemma eats_dropWhile: "(\<And>c. P c \<Longrightarrow> token_char c) \<Longrightarrow> eats u (dropWhile P u)"
  by (induction u) (auto intro: eats_Cons)

lemma munchesD: "munches f \<Longrightarrow> eats u (f u)"
  by (simp add: munches_def)

lemma munchesE:
  assumes "munches f" obtains t where "u = t @ f u" "\<forall>c \<in> set t. token_char c"
  using assms unfolding munches_def eats_def by blast

lemma munches_comp: "munches f \<Longrightarrow> munches g \<Longrightarrow> munches (\<lambda>u. g (f u))"
  unfolding munches_def by (blast intro: eats_trans)

lemma munches_length: "munches f \<Longrightarrow> length (f u) \<le> length u"
  by (blast intro: eats_length munchesD)

lemma local_comp:
  assumes f: "local f" "munches f" and g: "local g" "munches g"
  shows "local (\<lambda>u. g (f u))"
  unfolding local_def
proof (intro allI impI)
  fix t1 t2 r r'
  assume eq: "g (f (t1 @ t2 @ r)) = t2 @ r" and sep: "separated r'"
  obtain x where x: "f (t1 @ t2 @ r) = x @ t2 @ r"
    using munchesE [OF g(2), of "f (t1 @ t2 @ r)"] eq by metis
  obtain y where y: "t1 @ t2 @ r = y @ x @ t2 @ r"
    using munchesE [OF f(2), of "t1 @ t2 @ r"] x by metis
  then have t1: "t1 = y @ x" by simp
  have "f (y @ (x @ t2) @ r) = (x @ t2) @ r" using x t1 by simp
  then have "f (y @ (x @ t2) @ r') = (x @ t2) @ r'"
    using f(1) sep unfolding local_def by blast
  moreover have "g (x @ t2 @ r') = t2 @ r'"
    using g(1) sep eq x unfolding local_def by metis
  ultimately show "g (f (t1 @ t2 @ r')) = t2 @ r'" by (simp add: t1)
qed

lemma separated_simps [simp]:
  "separated []" "separated (c # r) = c_isspace c"
  by (simp_all add: separated_def)

lemma munches_dropWhile: "(\<And>c. P c \<Longrightarrow> token_char c) \<Longrightarrow> munches (dropWhile P)"
  by (simp add: munches_def eats_dropWhile)

lemma dropWhile_append_eq:
  "dropWhile P (t @ r) = r \<longleftrightarrow> (\<forall>c \<in> set t. P c) \<and> dropWhile P r = r"
proof
  assume eq: "dropWhile P (t @ r) = r"
  have all: "\<forall>c \<in> set t. P c"
  proof (rule ccontr)
    assume "\<not> ?thesis"
    then have "dropWhile P (t @ r) = dropWhile P t @ r" "dropWhile P t \<noteq> []"
      by (auto simp: dropWhile_append)
    with eq show False by simp
  qed
  with eq show "(\<forall>c \<in> set t. P c) \<and> dropWhile P r = r" by simp
qed simp

lemma dropWhile_separated:
  "(\<And>c. P c \<Longrightarrow> token_char c) \<Longrightarrow> separated r \<Longrightarrow> dropWhile P r = r"
  by (cases r) (auto simp: token_char_def)

lemma dropWhile_not_Cons: "dropWhile P xs \<noteq> x # xs"
  using length_dropWhile_le [of P xs] by auto

lemma dropWhile_not_Cons2: "dropWhile P xs \<noteq> x # y # xs"
  using length_dropWhile_le [of P xs] by auto

lemma dropWhile_same [simp]: "dropWhile P (x # xs) = x # xs \<longleftrightarrow> \<not> P x"
  using dropWhile_not_Cons [of P xs x] by (cases "P x") auto

lemma local_dropWhile:
  assumes "\<And>c. P c \<Longrightarrow> token_char c"
  shows "local (dropWhile P)"
  unfolding local_def
proof (intro allI impI)
  fix t1 t2 r r'
  assume "dropWhile P (t1 @ t2 @ r) = t2 @ r" and sep: "separated r'"
  then have all: "\<forall>c \<in> set t1. P c" and stop: "dropWhile P (t2 @ r) = t2 @ r"
    by (simp_all add: dropWhile_append_eq)
  have "dropWhile P (t2 @ r') = t2 @ r'"
    using stop dropWhile_separated [OF assms sep] by (cases t2) (auto simp: dropWhile_not_Cons split: if_splits)
  with all show "dropWhile P (t1 @ t2 @ r') = t2 @ r'" by simp
qed

section \<open>Each stage of a number\<close>

lemma eats_scans [simp]:
  "eats u (dropWhile c_isdigit u)"
  "eats u (dropWhile (is_digit_for_base b) u)"
  "eats u (dropWhile is_suffix_char u)"
  by (intro eats_dropWhile; erule token_char_intros)+

lemma eats_scans_Cons:
  "token_char c \<Longrightarrow> eats (c # u) (dropWhile c_isdigit u)"
  "token_char c \<Longrightarrow> eats (c # u) (dropWhile (is_digit_for_base b) u)"
  "token_char c \<Longrightarrow> eats (c # u) u"
  "token_char c \<Longrightarrow> token_char d \<Longrightarrow> eats (c # d # u) (dropWhile c_isdigit u)"
  "token_char c \<Longrightarrow> token_char d \<Longrightarrow> eats (c # d # u) (dropWhile (is_digit_for_base b) u)"
  by (simp_all add: eats_Cons)

lemma munches_fraction: "munches rest_fraction"
  unfolding munches_def
proof
  fix u show "eats u (rest_fraction u)"
    by (cases u) (simp_all add: eats_scans_Cons)
qed

lemma munches_exponent: "munches rest_exponent"
  unfolding munches_def
proof
  fix u show "eats u (rest_exponent u)"
  proof (cases u)
    case (Cons e cs)
    then show ?thesis
      by (cases cs) (auto simp add: eats_scans_Cons simp del: dropWhile.simps)
  qed simp
qed

lemma munches_prefix: "munches rest_prefix"
  unfolding munches_def
proof
  fix u show "eats u (rest_prefix u)"
  proof (cases u)
    case (Cons c cs)
    then show ?thesis
      by (cases cs) (auto simp add: eats_scans_Cons simp del: dropWhile.simps)
  qed simp
qed

lemmas munches_suffix = munches_dropWhile [OF token_char_intros(5)]

lemma munches_number: "munches rest_number"
  using munches_comp [OF munches_comp [OF munches_comp [OF munches_prefix munches_fraction]
      munches_exponent] munches_suffix]
  by (simp add: munches_def rest_number_def)

text \<open>Locality of the stages.\<close>

lemma separated_not:
  assumes "separated (c # r)"
  shows "\<not> c_isdigit c" "\<not> is_digit_for_base b c" "c \<noteq> CHR ''.''" "c \<noteq> CHR ''x''" "c \<noteq> CHR ''X''"
    "c \<noteq> CHR ''b''" "c \<noteq> CHR ''B''" "c \<noteq> CHR ''e''" "c \<noteq> CHR ''E''" "c \<noteq> CHR ''+''" "c \<noteq> CHR ''-''"
    "c \<noteq> CHR ''0''" "\<not> is_ident_char c" "\<not> is_suffix_char c"
proof -
  have sp: "\<not> token_char c" using assms by (simp add: token_char_def)
  show "\<not> c_isdigit c" "\<not> is_digit_for_base b c" "\<not> is_ident_char c" "\<not> is_suffix_char c"
    using sp token_char_intros(1,2,4,5) by blast+
  show "c \<noteq> CHR ''.''" "c \<noteq> CHR ''x''" "c \<noteq> CHR ''X''"
    "c \<noteq> CHR ''b''" "c \<noteq> CHR ''B''" "c \<noteq> CHR ''e''" "c \<noteq> CHR ''E''" "c \<noteq> CHR ''+''" "c \<noteq> CHR ''-''" "c \<noteq> CHR ''0''"
    using sp by auto
qed

text \<open>A scanner that is local after a first character, and decides on the first character
  alone whether to take it, is local.\<close>

lemma localI:
  assumes nil: "\<And>t r r'. f (t @ r) = t @ r \<Longrightarrow> separated r' \<Longrightarrow> f (t @ r') = t @ r'"
    and cons: "\<And>c t1 t2 r r'. f (c # t1 @ t2 @ r) = t2 @ r \<Longrightarrow> separated r'
      \<Longrightarrow> f (c # t1 @ t2 @ r') = t2 @ r'"
  shows "local f"
  unfolding local_def
proof (intro allI impI)
  fix t1 t2 r r'
  assume "f (t1 @ t2 @ r) = t2 @ r" "separated r'"
  then show "f (t1 @ t2 @ r') = t2 @ r'"
    using nil [of t2 r r'] cons [of _ _ t2 r r'] by (cases t1) auto
qed

lemma localD: "local f \<Longrightarrow> f (t1 @ t2 @ r) = t2 @ r \<Longrightarrow> separated r' \<Longrightarrow> f (t1 @ t2 @ r') = t2 @ r'"
  unfolding local_def by blast

lemmas local_scans = local_dropWhile [OF token_char_intros(2)]
  local_dropWhile [OF token_char_intros(4)] local_dropWhile [OF token_char_intros(5)]

lemma local_fraction: "local rest_fraction"
proof (rule localI)
  fix t r r' assume "rest_fraction (t @ r) = t @ r" "separated r'"
  then show "rest_fraction (t @ r') = t @ r'"
    by (cases t; cases r') (auto simp: dropWhile_not_Cons separated_not split: if_splits)
next
  fix c t1 t2 r r'
  assume "rest_fraction (c # t1 @ t2 @ r) = t2 @ r" "separated r'"
  then show "rest_fraction (c # t1 @ t2 @ r') = t2 @ r'"
    using localD [OF local_scans(1), where ?t1.0 = t1 and ?t2.0 = t2 and r = r and r' = r']
    by (auto split: if_splits dest: arg_cong [where f = length])
qed

lemma local_exponent: "local rest_exponent"
proof (rule localI)
  fix t r r' assume "rest_exponent (t @ r) = t @ r" "separated r'"
  then show "rest_exponent (t @ r') = t @ r'"
    by (cases t; cases r')
       (auto simp: dropWhile_not_Cons dropWhile_not_Cons2 separated_not simp del: dropWhile.simps
          split: if_splits list.splits)
next
  fix e t1 t2 r r'
  assume eq: "rest_exponent (e # t1 @ t2 @ r) = t2 @ r" and sep: "separated r'"
  then have e: "e = CHR ''e'' \<or> e = CHR ''E''"
    by (auto split: if_splits dest: arg_cong [where f = length])
  note digits = localD [OF local_scans(1) _ sep]
  show "rest_exponent (e # t1 @ t2 @ r') = t2 @ r'"
  proof (cases t1)
    case Nil
    with eq e digits [where ?t1.0 = "[]" and ?t2.0 = t2 and r = r] show ?thesis
      by (cases t2; cases r; cases r')
         (use sep in \<open>auto simp: separated_not dropWhile_not_Cons split: if_splits
            dest: arg_cong [where f = length]\<close>)
  next
    case (Cons d ds)
    with eq e digits [where ?t1.0 = ds and ?t2.0 = t2 and r = r]
      digits [where ?t1.0 = t1 and ?t2.0 = t2 and r = r] show ?thesis
      by (auto split: if_splits)
  qed
qed

lemma local_prefix: "local rest_prefix"
proof (rule localI)
  fix t r r' assume "rest_prefix (t @ r) = t @ r" "separated r'"
  then show "rest_prefix (t @ r') = t @ r'"
    by (cases t; cases r')
       (auto simp: dropWhile_not_Cons dropWhile_not_Cons2 separated_not
          dropWhile_separated [OF token_char_intros(2)]
          simp del: dropWhile.simps split: if_splits list.splits)
next
  fix c t1 t2 r r'
  assume eq: "rest_prefix (c # t1 @ t2 @ r) = t2 @ r" and sep: "separated r'"
  note digits = localD [OF local_scans(1) _ sep]
  have based: "dropWhile (is_digit_for_base b) (t1 @ t2 @ r) = t2 @ r \<Longrightarrow>
      dropWhile (is_digit_for_base b) (t1 @ t2 @ r') = t2 @ r'" for b t1
    by (rule localD [OF local_scans(2) _ sep])
  show "rest_prefix (c # t1 @ t2 @ r') = t2 @ r'"
  proof (cases "c = CHR ''0''")
    case False
    with eq digits [where ?t1.0 = "c # t1" and ?t2.0 = t2 and r = r] show ?thesis
      by (simp del: dropWhile.simps)
  next
    case zero: True
    show ?thesis
    proof (cases t1)
      case Nil
      with eq zero based [of 8 "[]"] show ?thesis
        by (cases t2; cases r; cases r')
           (use sep in \<open>auto simp: separated_not dropWhile_not_Cons dropWhile_not_Cons2
              simp del: dropWhile.simps split: if_splits\<close>)
    next
      case (Cons d ds)
      with eq zero based [of _ ds] based [of _ t1] show ?thesis
        by (auto simp del: dropWhile.simps split: if_splits)
    qed
  qed
qed

lemma local_number: "local rest_number"
  using local_comp [OF local_comp [OF local_comp [OF local_prefix munches_prefix
      local_fraction munches_fraction] munches_comp [OF munches_prefix munches_fraction]
      local_exponent munches_exponent] munches_comp [OF munches_comp [OF munches_prefix munches_fraction]
      munches_exponent] local_scans(3) munches_suffix]
  by (simp add: local_def rest_number_def)

lemma rest_number_shorter:
  assumes "starts_number v" shows "length (rest_number v) < length v"
proof -
  have "length (rest_number v) \<le> length (rest_fraction (rest_prefix v))"
    using eats_length [OF eats_scans(3), of "rest_exponent (rest_fraction (rest_prefix v))"]
      munches_length [OF munches_exponent, of "rest_fraction (rest_prefix v)"]
    by (simp add: rest_number_def)
  also have "\<dots> < length v"
  proof (cases v)
    case (Cons c cs)
    show ?thesis
    proof (cases "c = CHR ''.''")
      case True
      then have "rest_fraction (rest_prefix v) = dropWhile c_isdigit cs"
        by (simp add: Cons c_isdigit_def Let_def)
      then show ?thesis by (simp add: Cons le_imp_less_Suc length_dropWhile_le)
    next
      case False
      with assms Cons have digit: "c_isdigit c" by simp
      have "length (rest_prefix v) < length v"
        using digit length_dropWhile_le [of c_isdigit cs]
          length_dropWhile_le [of "is_digit_for_base _" "tl cs"]
          length_dropWhile_le [of "is_digit_for_base 8" cs]
        by (auto simp add: Cons less_Suc_eq_le split: list.split) (metis Suc_leD le_SucI list.sel(3))+
      then show ?thesis
        using munches_length [OF munches_fraction, of "rest_prefix v"] by simp
    qed
  qed (use assms in simp)
  finally show ?thesis .
qed

end
