(* ===== verification/CF_Tokens.thy ===== *)
theory CF_Tokens
  imports CF_Lexer
begin

text \<open>
  The token stream: the loop of \<^verbatim>\<open>src/c_frontend/main/main.cpp\<close> that calls
  \<^verbatim>\<open>Lexer::next\<close> until \<^verbatim>\<open>EndOfFile\<close> or an error, what a token is made of, and the
  theorems about whole inputs: nothing but white space is lost, an error names the first
  character outside the alphabet, and tokens printed with blanks between them lex back.
\<close>

section \<open>One token of the reference lexer\<close>

definition accepted :: "char \<Rightarrow> bool" where
  "accepted c \<longleftrightarrow> is_ident_char c \<or> c \<in> set kCSymbols"

lemma accepted_iff: "accepted c \<longleftrightarrow> token_char c"
  by (auto simp: accepted_def token_char_def lexable_def ident_char_not_space kCSymbols_not_space)

lemma lexable_iff: "lexable c \<longleftrightarrow> c_isspace c \<or> token_char c"
  by (auto simp: token_char_def lexable_def)

lemma is_ident_char_iff: "is_ident_char c \<longleftrightarrow> c_isalpha c \<or> c = CHR ''_'' \<or> c_isdigit c"
  by (auto simp: is_ident_char_def c_isalnum_def)

lemma lex_token_error:
  "lex_token v = (Inl e, r) \<longleftrightarrow> (\<exists>c. v = c # r \<and> \<not> token_char c \<and> e = invalid_character c)"
proof (cases v)
  case (Cons c cs)
  have "lex_token (c # cs) = (Inl e, r) \<longleftrightarrow>
      \<not> (c_isalpha c \<or> c = CHR ''_'') \<and> \<not> starts_number (c # cs) \<and> c \<notin> set kCSymbols
      \<and> e = invalid_character c \<and> r = cs"
    by auto
  also have "\<dots> \<longleftrightarrow> \<not> token_char c \<and> e = invalid_character c \<and> r = cs"
    by (auto simp: accepted_iff [symmetric] accepted_def is_ident_char_iff kCSymbols_def)
  finally show ?thesis using Cons by auto
qed auto

text \<open>\<open>is_token t tok\<close>: the string \<open>t\<close> lexes as the token \<open>tok\<close> whatever separated text
  follows it.\<close>

definition is_token :: "string \<Rightarrow> token \<Rightarrow> bool" where
  "is_token t tok \<longleftrightarrow>
     t \<noteq> [] \<and> (\<forall>c \<in> set t. token_char c) \<and> tok_text tok = t \<and> tok_type tok \<noteq> EndOfFile
     \<and> (\<forall>r'. separated r' \<longrightarrow> lex_token (t @ r') = (Inr tok, r'))"

lemma eaten_append [simp]: "eaten (t @ r) r = t"
  by (simp add: eaten_def)

lemma word_is_token:
  assumes "c_isalpha c \<or> c = CHR ''_''" "\<forall>d \<in> set cs. is_ident_char d"
  shows "is_token (c # cs) (word_token (c # cs))"
proof -
  have id: "\<forall>d \<in> set (c # cs). is_ident_char d"
    using assms by (auto simp: is_ident_char_iff)
  have "lex_token ((c # cs) @ r') = (Inr (word_token (c # cs)), r')" if "separated r'" for r'
  proof -
    have "dropWhile is_ident_char r' = r'" "takeWhile is_ident_char r' = []"
      using that by (cases r'; simp add: separated_not)+
    then have "takeWhile is_ident_char ((c # cs) @ r') = c # cs"
      "dropWhile is_ident_char ((c # cs) @ r') = r'"
      using id by (simp_all only: takeWhile_append2 dropWhile_append2 append_Nil2)
    with assms(1) show ?thesis by (simp del: takeWhile.simps dropWhile.simps)
  qed
  moreover have "\<forall>d \<in> set (c # cs). token_char d"
    using id token_char_intros(1) by blast
  ultimately show ?thesis by (simp add: is_token_def word_token_def)
qed

lemma starts_number_two: "starts_number (c # d # u) = starts_number (c # d # u')"
  by simp

lemma dot_number_rest:
  "starts_number (CHR ''.'' # r) \<Longrightarrow> length (rest_number (CHR ''.'' # r)) < length r"
proof -
  assume "starts_number (CHR ''.'' # r)"
  then obtain d ds where r: "r = d # ds" "c_isdigit d"
    by (cases r) (auto simp: c_isdigit_def Let_def)
  then have "rest_fraction (rest_prefix (CHR ''.'' # r)) = dropWhile c_isdigit ds"
    by (simp add: c_isdigit_def Let_def)
  then have "length (rest_number (CHR ''.'' # r)) \<le> length ds"
    using eats_length [OF eats_scans(3), of "rest_exponent (dropWhile c_isdigit ds)"]
      munches_length [OF munches_exponent, of "dropWhile c_isdigit ds"]
      length_dropWhile_le [of c_isdigit ds]
    by (simp add: rest_number_def)
  with r show ?thesis by simp
qed

lemma starts_number_prefix:
  assumes "starts_number (t @ r)" and "rest_number (t @ r) = r" and "separated r'"
  shows "starts_number (t @ r')"
proof -
  obtain c ts where t: "t = c # ts"
    using rest_number_shorter [OF assms(1)] assms(2) by (cases t) auto
  show ?thesis
  proof (cases ts)
    case Nil
    then have "c \<noteq> CHR ''.''"
      using dot_number_rest [of r] assms(1,2) t by auto
    with assms(1) t Nil show ?thesis by simp
  next
    case (Cons d ds)
    with assms(1) t starts_number_two [of c d "ds @ r" "ds @ r'"] show ?thesis by simp
  qed
qed

lemma starts_number_not_word: "starts_number (c # cs) \<Longrightarrow> \<not> (c_isalpha c \<or> c = CHR ''_'')"
  by (auto simp: c_isdigit_not_alpha) (auto simp: char_class_defs)

lemma number_is_token:
  assumes num: "starts_number (t @ r)" and r: "rest_number (t @ r) = r"
  shows "is_token t (Token ConstantNumberLiteral t)"
proof -
  obtain c ts where t: "t = c # ts"
    using rest_number_shorter [OF num] r by (cases t) auto
  obtain t' where "t @ r = t' @ rest_number (t @ r)" "\<forall>c \<in> set t'. token_char c"
    by (rule munchesE [OF munches_number])
  with r have tc: "\<forall>c \<in> set t. token_char c" by simp
  have "lex_token (t @ r') = (Inr (Token ConstantNumberLiteral t), r')" if sep: "separated r'" for r'
  proof -
    have s: "starts_number (t @ r')" by (rule starts_number_prefix [OF num r sep])
    have e: "rest_number (t @ r') = r'"
      using localD [OF local_number _ sep, where ?t1.0 = t and ?t2.0 = "[]" and r = r] r by simp
    have "\<not> (c_isalpha c \<or> c = CHR ''_'')"
      using starts_number_not_word s t by simp
    moreover have "eaten (t @ r') r' = t" by simp
    ultimately show ?thesis using s e t by (simp del: starts_number.simps eaten_append)
  qed
  with tc t show ?thesis by (simp add: is_token_def)
qed

lemma symbol_plain: "c \<in> set kCSymbols \<Longrightarrow> \<not> c_isalpha c \<and> c \<noteq> CHR ''_'' \<and> \<not> c_isdigit c"
  by (auto simp: kCSymbols_def char_class_defs)

lemma symbol_is_token:
  assumes "c \<in> set kCSymbols"
  shows "is_token [c] (Token Symbol [c])"
proof -
  have "lex_token ([c] @ r') = (Inr (Token Symbol [c]), r')" if "separated r'" for r'
  proof -
    have "\<not> starts_number (c # r')"
      using that symbol_plain [OF assms] by (cases r') (simp_all add: c_isspace_not_digit)
    with assms symbol_plain [OF assms] show ?thesis by (simp del: starts_number.simps)
  qed
  moreover have "token_char c" by (rule token_char_intros(6) [OF assms])
  ultimately show ?thesis by (simp add: is_token_def)
qed

lemma lex_token_is_token:
  assumes "lex_token v = (Inr tok, r)" "v \<noteq> []"
  shows "v = tok_text tok @ r \<and> is_token (tok_text tok) tok"
proof -
  obtain c cs where v: "v = c # cs" using assms(2) by (cases v) auto
  consider (word) "c_isalpha c \<or> c = CHR ''_''"
    | (number) "\<not> (c_isalpha c \<or> c = CHR ''_'')" "starts_number v"
    | (symbol) "\<not> (c_isalpha c \<or> c = CHR ''_'')" "\<not> starts_number v" "c \<in> set kCSymbols"
    using assms v by (auto split: if_splits)
  then show ?thesis
  proof cases
    case word
    then have id: "is_ident_char c" by (auto simp: is_ident_char_iff)
    let ?t = "c # takeWhile is_ident_char cs"
    have tok: "tok = word_token ?t" and r: "r = dropWhile is_ident_char cs"
      using assms(1) v word id by simp_all
    have "\<forall>d \<in> set (takeWhile is_ident_char cs). is_ident_char d"
      by (blast dest: set_takeWhileD)
    from word_is_token [OF word this] have "is_token ?t tok" by (simp only: tok)
    moreover from this have "tok_text tok = ?t" by (simp only: is_token_def)
    ultimately show ?thesis using v r by simp
  next
    case number
    then have "tok = Token ConstantNumberLiteral (eaten v (rest_number v))" "r = rest_number v"
      using assms(1) v by (auto simp del: starts_number.simps)
    moreover obtain t where t: "v = t @ rest_number v"
      using munchesE [OF munches_number] by blast
    moreover from this have "eaten v (rest_number v) = t" by (metis eaten_append)
    ultimately show ?thesis using number_is_token [of t "rest_number v"] number(2) t by simp
  next
    case symbol
    then have "tok = Token Symbol [c]" "r = cs" using assms(1) v by auto
    with v symbol_is_token [OF symbol(3)] show ?thesis by simp
  qed
qed


section \<open>Progress of \<open>Lexer::next\<close>\<close>

lemma lex_token_shorter:
  "lex_token v = (Inr tok, r) \<Longrightarrow> tok_type tok \<noteq> EndOfFile \<Longrightarrow> length r < length v"
proof (cases "v = []")
  case False
  assume "lex_token v = (Inr tok, r)"
  then have "v = tok_text tok @ r" "tok_text tok \<noteq> []"
    using lex_token_is_token [OF _ False] by (auto simp: is_token_def)
  then show ?thesis by (metis length_append length_greater_0_conv less_add_same_cancel2)
qed auto

lemma lex1_shorter:
  "lex1 u = (Inr tok, r) \<Longrightarrow> tok_type tok \<noteq> EndOfFile \<Longrightarrow> length r < length u"
  using lex_token_shorter [of "dropWhile c_isspace u" tok r] length_dropWhile_le [of c_isspace u]
  by (simp add: lex1_def)

lemma Lexer_next_progress:
  assumes "Lexer_next l = (Inr tok, l')" "tok_type tok \<noteq> EndOfFile"
  shows "lx_input l' = lx_input l" "lx_pos l < lx_pos l'" "lx_pos l < length (lx_input l)"
  using Lexer_next_lex1 [OF assms(1)] lex1_shorter [OF _ assms(2)] by force+

section \<open>The loop of the driver\<close>

function lex_loop :: "lexer \<Rightarrow> token list \<Rightarrow> token list error_or" where
  "lex_loop l tokens =
     (case Lexer_next l of
        (Inl err, l') \<Rightarrow> Inl err
      | (Inr tok, l') \<Rightarrow>
          if tok_type tok = EndOfFile then Inr tokens else lex_loop l' (tokens @ [tok]))"
  by pat_completeness auto
termination
proof (relation "measure (\<lambda>(l, tokens). length (lx_input l) - lx_pos l)", goal_cases)
  case (2 l tokens x l' tok)
  then have "Lexer_next l = (Inr tok, l')" by simp
  then show ?case using Lexer_next_progress [of l tok l'] 2 by simp
qed simp

declare lex_loop.simps [simp del]

definition tokenize :: "string \<Rightarrow> token list error_or" where
  "tokenize source = lex_loop (Lexer source) []"

text \<open>The reference: tokens of the remaining characters.\<close>

function lex_all :: "string \<Rightarrow> token list error_or" where
  "lex_all u =
     (case lex1 u of
        (Inl err, r) \<Rightarrow> Inl err
      | (Inr tok, r) \<Rightarrow>
          if tok_type tok = EndOfFile then Inr [] else bind_res (lex_all r) (\<lambda>ts. Inr (tok # ts)))"
  by pat_completeness auto
termination
  by (relation "measure length") (auto dest: lex1_shorter [OF sym])

declare lex_all.simps [simp del]

lemma lex_loop_lex_all:
  "lex_loop l tokens = bind_res (lex_all (drop (lx_pos l) (lx_input l))) (\<lambda>ts. Inr (tokens @ ts))"
proof (induction l tokens rule: lex_loop.induct)
  case (1 l tokens)
  obtain re l' where nxt: "Lexer_next l = (re, l')" by fastforce
  note l1 = Lexer_next_lex1 [OF nxt]
  show ?case
  proof (cases re)
    case (Inl e)
    with nxt l1 show ?thesis by (simp add: lex_loop.simps [of l] lex_all.simps [of "drop _ _"])
  next
    case (Inr tok)
    show ?thesis
    proof (cases "tok_type tok = EndOfFile")
      case True
      with nxt l1 Inr show ?thesis
        by (simp add: lex_loop.simps [of l] lex_all.simps [of "drop (lx_pos l) _"])
    next
      case False
      have "lex_loop l' (tokens @ [tok]) =
          bind_res (lex_all (drop (lx_pos l') (lx_input l'))) (\<lambda>ts. Inr ((tokens @ [tok]) @ ts))"
        using 1 nxt Inr False by metis
      with nxt l1 Inr False show ?thesis
        by (simp add: lex_loop.simps [of l] lex_all.simps [of "drop (lx_pos l) (lx_input l)"]
            bind_res_assoc)
    qed
  qed
qed

lemma tokenize_lex_all: "tokenize source = lex_all source"
  by (cases "lex_all source") (simp_all add: tokenize_def lex_loop_lex_all Lexer_def)

lemma lex_all_cases:
  obtains (eof) "dropWhile c_isspace u = []" "lex_all u = Inr []"
  | (error) c r where "dropWhile c_isspace u = c # r" "\<not> token_char c"
      "lex_all u = Inl (invalid_character c)"
  | (token) tok r where "dropWhile c_isspace u = tok_text tok @ r" "is_token (tok_text tok) tok"
      "lex_all u = bind_res (lex_all r) (\<lambda>ts. Inr (tok # ts))" "length r < length u"
proof (cases "dropWhile c_isspace u = []")
  case True
  then show ?thesis by (intro eof) (simp_all add: lex_all.simps [of u] lex1_def del: dropWhile_eq_Nil_conv)
next
  case False
  obtain re r where lt: "lex_token (dropWhile c_isspace u) = (re, r)" by fastforce
  show ?thesis
  proof (cases re)
    case (Inl e)
    then show ?thesis using lt lex_token_error [of "dropWhile c_isspace u" e r]
      by (auto intro!: error simp: lex_all.simps [of u] lex1_def)
  next
    case (Inr tok)
    with lt lex_token_is_token [of "dropWhile c_isspace u" tok r] False
    have tok: "dropWhile c_isspace u = tok_text tok @ r" "is_token (tok_text tok) tok" by auto
    then have "tok_type tok \<noteq> EndOfFile" by (simp add: is_token_def)
    with tok lt Inr lex1_shorter [of u tok r] show ?thesis
      by (intro token [of tok r]) (simp_all add: lex_all.simps [of u] lex1_def)
  qed
qed


section \<open>Whole inputs\<close>

lemma filter_dropWhile: "filter (\<lambda>c. \<not> P c) (dropWhile P u) = filter (\<lambda>c. \<not> P c) u"
  by (induction u) auto

lemma find_dropWhile:
  "(\<And>c. P c \<Longrightarrow> \<not> Q c) \<Longrightarrow> find Q (dropWhile P u) = find Q u"
  by (induction u) auto

lemma find_append: "find P (t @ r) = (case find P t of None \<Rightarrow> find P r | Some c \<Rightarrow> Some c)"
  by (induction t) auto

lemma find_none: "(\<And>c. c \<in> set t \<Longrightarrow> \<not> P c) \<Longrightarrow> find P t = None"
  by (induction t) auto

lemma token_text_dense: "is_token t tok \<Longrightarrow> filter (\<lambda>c. \<not> c_isspace c) t = t"
  by (auto simp: is_token_def token_char_def filter_id_conv)

lemma lex_all_text:
  "lex_all u = Inr ts \<Longrightarrow> concat (map tok_text ts) = filter (\<lambda>c. \<not> c_isspace c) u"
proof (induction u arbitrary: ts rule: length_induct)
  case (1 u)
  note spaces = filter_dropWhile [of c_isspace u, symmetric]
  show ?case
  proof (cases u rule: lex_all_cases)
    case eof
    with 1(2) spaces show ?thesis by (simp del: dropWhile_eq_Nil_conv)
  next
    case (token tok r)
    then obtain ts' where ts': "lex_all r = Inr ts'" "ts = tok # ts'"
      using 1(2) by (cases "lex_all r") auto
    with 1(1) token(4) have "concat (map tok_text ts') = filter (\<lambda>c. \<not> c_isspace c) r"
      by blast
    with ts' spaces token(1) token_text_dense [OF token(2)] show ?thesis by simp
  qed (use 1(2) in simp)
qed

lemma lex_all_tokens:
  "lex_all u = Inr ts \<Longrightarrow> tok \<in> set ts \<Longrightarrow> is_token (tok_text tok) tok"
proof (induction u arbitrary: ts rule: length_induct)
  case (1 u)
  show ?case
  proof (cases u rule: lex_all_cases)
    case (token tk r)
    then obtain ts' where "lex_all r = Inr ts'" "ts = tk # ts'"
      using 1(2) by (cases "lex_all r") auto
    with 1(1,3) token(2,4) show ?thesis by auto
  qed (use 1(2,3) in simp_all)
qed

lemma lex_all_find:
  "lex_all u = (case find (\<lambda>c. \<not> lexable c) u of
      Some c \<Rightarrow> Inl (invalid_character c) | None \<Rightarrow> Inr (projr (lex_all u)))"
proof (induction u rule: length_induct)
  case (1 u)
  have spaces: "find (\<lambda>c. \<not> lexable c) u = find (\<lambda>c. \<not> lexable c) (dropWhile c_isspace u)"
    by (rule find_dropWhile [symmetric]) (simp add: lexable_def)
  show ?case
  proof (cases u rule: lex_all_cases)
    case eof
    then show ?thesis by (simp add: spaces del: dropWhile_eq_Nil_conv)
  next
    case (error c r)
    have "\<not> c_isspace c" using hd_dropWhile [of c_isspace u] error(1) by fastforce
    with error have "find (\<lambda>c. \<not> lexable c) u = Some c"
      unfolding spaces error(1) by (simp add: lexable_iff)
    with error(3) show ?thesis by simp
  next
    case (token tok r)
    have "find (\<lambda>c. \<not> lexable c) (tok_text tok) = None"
      by (rule find_none) (use token(2) in \<open>simp add: is_token_def lexable_iff\<close>)
    then have "find (\<lambda>c. \<not> lexable c) u = find (\<lambda>c. \<not> lexable c) r"
      by (simp add: spaces token(1) find_append)
    moreover have "lex_all r = (case find (\<lambda>c. \<not> lexable c) r of
        Some c \<Rightarrow> Inl (invalid_character c) | None \<Rightarrow> Inr (projr (lex_all r)))"
      using 1 token(4) by blast
    ultimately show ?thesis using token(3)
      by (cases "find (\<lambda>c. \<not> lexable c) r"; cases "lex_all r") simp_all
  qed
qed

text \<open>\<open>layout tws\<close>: the texts of the tokens, each followed by its own white space.\<close>

definition layout :: "(token \<times> string) list \<Rightarrow> string" where
  "layout tws = concat (map (\<lambda>(tok, w). tok_text tok @ w) tws)"

definition spaced :: "(token \<times> string) list \<Rightarrow> bool" where
  "spaced tws \<longleftrightarrow> (\<forall>(tok, w) \<in> set tws. w \<noteq> [] \<and> (\<forall>c \<in> set w. c_isspace c))"

lemma lex_all_spaces: "(\<forall>c \<in> set w. c_isspace c) \<Longrightarrow> lex_all (w @ u) = lex_all u"
proof -
  assume "\<forall>c \<in> set w. c_isspace c"
  then have "lex1 (w @ u) = lex1 u" by (simp add: lex1_def)
  then show ?thesis by (simp add: lex_all.simps [of "w @ u"] lex_all.simps [of u])
qed

lemma lex_all_token:
  assumes "is_token t tok" "separated r"
  shows "lex_all (t @ r) = bind_res (lex_all r) (\<lambda>ts. Inr (tok # ts))"
proof -
  obtain c cs where t: "t = c # cs" "token_char c"
    using assms(1) by (cases t) (auto simp: is_token_def)
  then have "\<not> c_isspace c" by (simp add: token_char_def)
  then have "lex1 (t @ r) = (Inr tok, r)" "tok_type tok \<noteq> EndOfFile"
    using assms t(1) by (simp_all add: lex1_def is_token_def)
  then show ?thesis by (simp add: lex_all.simps [of "t @ r"])
qed

lemma lex_all_layout:
  assumes "spaced tws" "\<forall>tok \<in> set (map fst tws). is_token (tok_text tok) tok"
  shows "lex_all (layout tws) = Inr (map fst tws)"
  using assms
proof (induction tws)
  case Nil
  then show ?case by (simp add: layout_def lex_all.simps [of "[]"] lex1_def)
next
  case (Cons tw tws)
  obtain tok w where tw: "tw = (tok, w)" by fastforce
  with Cons.prems have w: "w \<noteq> []" "\<forall>c \<in> set w. c_isspace c" and rest: "spaced tws"
    by (auto simp: spaced_def)
  then have "separated (w @ layout tws)" by (cases w) simp_all
  with Cons.prems(2) tw
  have "lex_all (tok_text tok @ w @ layout tws)
      = bind_res (lex_all (w @ layout tws)) (\<lambda>ts. Inr (tok # ts))"
    by (intro lex_all_token) auto
  with Cons w rest tw show ?case
    by (simp add: layout_def lex_all_spaces)
qed


section \<open>Number literals\<close>

text \<open>The shape of a decimal literal: an integer part, an optional fraction, an optional
  exponent with an optional sign, and a run of suffix letters.\<close>

definition digits :: "string \<Rightarrow> bool" where
  "digits ds \<longleftrightarrow> (\<forall>c \<in> set ds. c_isdigit c)"

definition fraction_part :: "string \<Rightarrow> bool" where
  "fraction_part f \<longleftrightarrow> f = [] \<or> (\<exists>ds. f = CHR ''.'' # ds \<and> digits ds)"

definition exponent_part :: "string \<Rightarrow> bool" where
  "exponent_part x \<longleftrightarrow> x = [] \<or>
     (\<exists>e sg ds. x = e # sg @ ds \<and> e \<in> {CHR ''e'', CHR ''E''} \<and> sg \<in> {[], ''+'', ''-''} \<and> digits ds)"

definition suffix_part :: "string \<Rightarrow> bool" where
  "suffix_part sf \<longleftrightarrow> (\<forall>c \<in> set sf. is_suffix_char c)"

definition stops :: "string \<Rightarrow> bool" where
  "stops r \<longleftrightarrow> (case r of [] \<Rightarrow> True | c # _ \<Rightarrow> \<not> c_isdigit c)"

lemma dropWhile_digits:
  assumes "digits ds" "stops r" shows "dropWhile c_isdigit (ds @ r) = r"
proof -
  have "dropWhile c_isdigit r = r" using assms(2) by (cases r) (auto simp: stops_def)
  with assms(1) show ?thesis by (simp add: digits_def)
qed

lemma letters_not_digits:
  "\<not> c_isdigit CHR ''.''" "\<not> c_isdigit CHR ''e''" "\<not> c_isdigit CHR ''E''" "\<not> c_isdigit CHR ''x''"
  "\<not> c_isdigit CHR ''X''" "\<not> c_isdigit CHR ''b''" "\<not> c_isdigit CHR ''B''" "\<not> c_isdigit CHR ''+''"
  "\<not> c_isdigit CHR ''-''" "c_isdigit CHR ''0''"
  by (simp_all add: c_isdigit_def Let_def)

lemma suffix_char_plain: "is_suffix_char c \<Longrightarrow>
    \<not> c_isdigit c \<and> c \<noteq> CHR ''e'' \<and> c \<noteq> CHR ''E'' \<and> c \<noteq> CHR ''.'' \<and> c \<noteq> CHR ''+'' \<and> c \<noteq> CHR ''-''
    \<and> c \<noteq> CHR ''x'' \<and> c \<noteq> CHR ''X'' \<and> c \<noteq> CHR ''b'' \<and> c \<noteq> CHR ''B''"
  by (auto simp: is_suffix_char_def c_isdigit_def Let_def)

lemma suffix_tail:
  "suffix_part sf \<Longrightarrow> stops sf \<and> rest_exponent sf = sf \<and> rest_fraction sf = sf"
  using suffix_char_plain by (cases sf) (auto simp: suffix_part_def stops_def)

lemma exponent_tail:
  assumes "exponent_part x" "suffix_part sf"
  shows "stops (x @ sf) \<and> rest_fraction (x @ sf) = x @ sf \<and> rest_exponent (x @ sf) = sf"
proof (cases x)
  case Nil
  then show ?thesis using suffix_tail [OF assms(2)] by simp
next
  case (Cons e y)
  with assms(1) obtain sg ds where y: "y = sg @ ds" "e \<in> {CHR ''e'', CHR ''E''}"
    "sg \<in> {[], ''+'', ''-''}" "digits ds" by (auto simp: exponent_part_def)
  have sf: "dropWhile c_isdigit (ds @ sf) = sf"
    using dropWhile_digits [OF y(4)] suffix_tail [OF assms(2)] by blast
  have no_sign: "dropWhile c_isdigit (ds @ sf) = sf \<and> (\<forall>d u. ds @ sf = d # u \<longrightarrow> d \<noteq> CHR ''+'' \<and> d \<noteq> CHR ''-'')"
    using sf y(4) assms(2) suffix_char_plain letters_not_digits
    by (cases ds; cases sf) (auto simp: digits_def suffix_part_def)
  then have "rest_exponent (e # y @ sf) = sf"
    using y by (cases "ds @ sf") (auto simp del: dropWhile.simps)
  with Cons y(2) show ?thesis by (auto simp: stops_def letters_not_digits)
qed

lemma fraction_tail:
  assumes "fraction_part f" "exponent_part x" "suffix_part sf"
  shows "stops (f @ x @ sf) \<and> rest_fraction (f @ x @ sf) = x @ sf"
proof (cases f)
  case Nil
  then show ?thesis using exponent_tail [OF assms(2,3)] by simp
next
  case (Cons c ds)
  with assms(1) have "c = CHR ''.''" "digits ds" by (auto simp: fraction_part_def)
  with Cons exponent_tail [OF assms(2,3)] dropWhile_digits [of ds "x @ sf"] show ?thesis
    by (simp add: stops_def letters_not_digits)
qed

lemma rest_number_decimal:
  assumes "digits ds" "ds \<noteq> []" "hd ds = CHR ''0'' \<longrightarrow> ds = ''0''"
    "fraction_part f" "exponent_part x" "suffix_part sf"
  shows "rest_number (ds @ f @ x @ sf) = []"
proof -
  let ?u = "f @ x @ sf"
  note tails = fraction_tail [OF assms(4-6)] exponent_tail [OF assms(5,6)]
  have "rest_prefix (ds @ ?u) = ?u"
  proof (cases "hd ds = CHR ''0''")
    case True
    have "?u = [] \<or> (\<exists>d v. ?u = d # v \<and> d \<notin> {CHR ''x'', CHR ''X'', CHR ''b'', CHR ''B''})"
    proof (cases f)
      case Nil
      show ?thesis
      proof (cases x)
        case Nil
        with \<open>f = []\<close> assms(6) suffix_char_plain show ?thesis
          by (cases sf) (auto simp: suffix_part_def)
      qed (use \<open>f = []\<close> assms(5) in \<open>auto simp: exponent_part_def\<close>)
    qed (use assms(4) in \<open>auto simp: fraction_part_def\<close>)
    moreover have "\<forall>d v. ?u = d # v \<longrightarrow> \<not> c_isdigit d"
      using tails by (auto simp: stops_def)
    ultimately have "rest_prefix (CHR ''0'' # ?u) = ?u"
      by (auto simp del: dropWhile.simps)
    with True assms(3) show ?thesis by simp
  next
    case False
    with assms(1,2) tails dropWhile_digits [of ds ?u] show ?thesis
      by (cases ds) (simp_all del: dropWhile.simps)
  qed
  with tails assms(6) show ?thesis by (simp add: rest_number_def suffix_part_def)
qed


section \<open>The properties of the token stream\<close>

lemma lex_all_Nil [simp]: "lex_all [] = Inr []"
  by (simp add: lex_all.simps [of "[]"] lex1_def)

text \<open>
  C20. The driver's lexing loop returns for every source, and it fails exactly when the source
  holds a character outside the lexer's alphabet; the error then names the first such character.
\<close>
theorem tokenize_total:
  "(case find (\<lambda>c. \<not> lexable c) source of
      Some c \<Rightarrow> tokenize source = Inl (invalid_character c)
    | None \<Rightarrow> \<exists>ts. tokenize source = Inr ts)"
  using lex_all_find [of source] by (auto simp: tokenize_lex_all split: option.split)

text \<open>
  Lexing loses nothing but white space: the texts of the tokens, concatenated, are the
  source without its white space.
\<close>
theorem tokenize_text:
  assumes "tokenize source = Inr ts"
  shows "concat (map tok_text ts) = filter (\<lambda>c. \<not> c_isspace c) source"
  using assms by (simp add: tokenize_lex_all lex_all_text)

text \<open>
  C7. Lexing and printing are inverse: printing the tokens of any source, each followed by any
  non-empty white space, and lexing the result gives the same tokens (with the same types).
\<close>
theorem tokenize_layout:
  assumes "tokenize source = Inr (map fst tws)" "spaced tws"
  shows "tokenize (layout tws) = Inr (map fst tws)"
proof -
  from assms(1) have "\<forall>tok \<in> set (map fst tws). is_token (tok_text tok) tok"
    by (metis tokenize_lex_all lex_all_tokens)
  with assms(2) show ?thesis by (simp only: tokenize_lex_all lex_all_layout)
qed

text \<open>
  A decimal literal (integer part without a leading zero, optional fraction, optional
  exponent with optional sign, suffix letters) is lexed as one number token.
\<close>
theorem tokenize_decimal:
  assumes "digits ds" "ds \<noteq> []" "hd ds = CHR ''0'' \<longrightarrow> ds = ''0''"
    "fraction_part f" "exponent_part x" "suffix_part sf"
  shows "tokenize (ds @ f @ x @ sf) = Inr [Token ConstantNumberLiteral (ds @ f @ x @ sf)]"
proof -
  have "starts_number (ds @ f @ x @ sf)"
    using assms(1,2) by (cases ds) (simp_all add: digits_def)
  then have "is_token (ds @ f @ x @ sf) (Token ConstantNumberLiteral (ds @ f @ x @ sf))"
    using number_is_token [of "ds @ f @ x @ sf" "[]"] rest_number_decimal [OF assms] by simp
  from lex_all_token [OF this, of "[]"] show ?thesis by (simp add: tokenize_lex_all)
qed

text \<open>
  C19. The index-based lexer refines the lexer on the remaining characters: it returns the same
  token or error, keeps the input, and leaves the rest the reference lexer leaves; \<^verbatim>\<open>pos_\<close> never
  moves back and stays within the input, and it moves on unless the token is \<^verbatim>\<open>EndOfFile\<close>.
\<close>
theorem Lexer_next_refines:
  assumes "Lexer_next l = (re, l')" "lx_pos l \<le> length (lx_input l)"
  shows "lex1 (drop (lx_pos l) (lx_input l)) = (re, drop (lx_pos l') (lx_input l'))
    \<and> lx_input l' = lx_input l \<and> lx_pos l \<le> lx_pos l' \<and> lx_pos l' \<le> length (lx_input l)
    \<and> (lx_pos l' = lx_pos l \<longrightarrow> re = Inr (Token EndOfFile ''''))"
proof -
  let ?s = "lx_input l"
  let ?p = "scan_while c_isspace ?s (lx_pos l)"
  note ref = Lexer_next_lex1 [OF assms(1)]
  note sp = scan_while_ge [of "lx_pos l" c_isspace ?s] scan_while_le [OF assms(2), of c_isspace]
  have le: "lx_pos l \<le> lx_pos l' \<and> lx_pos l' \<le> length ?s"
    using assms(1) sp scan_while_ge [of ?p is_ident_char ?s] scan_while_le [of ?p ?s is_ident_char]
      number_end_bounds [of ?p ?s]
    by (auto simp: Lexer_next_def Let_def split: if_splits)
  have "re = Inr (Token EndOfFile '''')" if "lx_pos l' = lx_pos l"
  proof (rule ccontr)
    assume not_eof: "re \<noteq> Inr (Token EndOfFile '''')"
    let ?u = "drop (lx_pos l) ?s"
    from ref that have lt: "lex_token (dropWhile c_isspace ?u) = (re, ?u)" by (simp add: lex1_def)
    with not_eof have ne: "dropWhile c_isspace ?u \<noteq> []"
      by (auto simp del: dropWhile_eq_Nil_conv)
    have "length ?u < length (dropWhile c_isspace ?u)"
    proof (cases re)
      case (Inl e)
      with lt lex_token_error show ?thesis by (metis length_Cons lessI)
    next
      case (Inr tok)
      with lt lex_token_is_token [OF _ ne, of tok ?u] have "is_token (tok_text tok) tok" by simp
      then have "tok_type tok \<noteq> EndOfFile" by (simp add: is_token_def)
      with lt Inr show ?thesis by (intro lex_token_shorter [of _ tok]) simp_all
    qed
    with length_dropWhile_le [of c_isspace ?u] show False by simp
  qed
  with ref le show ?thesis by blast
qed

text \<open>
  After the end of the input every further call returns \<^verbatim>\<open>EndOfFile\<close> again and does not
  move.
\<close>
theorem Lexer_next_eof:
  assumes "Lexer_next l = (Inr tok, l')" "tok_type tok = EndOfFile"
  shows "Lexer_next l' = (Inr tok, l')"
proof -
  have p: "scan_while c_isspace (lx_input l) (lx_pos l) \<ge> length (lx_input l)"
    "l' = l\<lparr>lx_pos := scan_while c_isspace (lx_input l) (lx_pos l)\<rparr>" "tok = Token EndOfFile ''''"
    using assms
    by (auto simp: Lexer_next_def Let_def Result_value_def Result_error_def split: if_splits)
  then have "scan_while c_isspace (lx_input l') (lx_pos l') = lx_pos l'"
    by (subst scan_while.simps) simp
  with p show ?thesis by (simp add: Lexer_next_def Result_value_def)
qed

text \<open>
  Two corners of the number rules: a literal with a leading zero stops at the first digit
  that is not octal, so \<^verbatim>\<open>089\<close> is two number tokens; and the stages commented as decimal only
  also follow a hexadecimal prefix, so \<^verbatim>\<open>0x1.5\<close> is one.
\<close>
theorem tokenize_number_corners:
  "tokenize ''089'' = Inr [Token ConstantNumberLiteral ''0'', Token ConstantNumberLiteral ''89'']
   \<and> tokenize ''0x1.5'' = Inr [Token ConstantNumberLiteral ''0x1.5'']"
  by (simp add: tokenize_lex_all lex_all.simps lex1_def eaten_def rest_number_def
      is_digit_for_base_def is_suffix_char_def char_class_defs)

section \<open>Witnesses\<close>

lemma tokenize_text_witness:
  "concat (map tok_text [Token Keyword ''int'', Token Identifier ''a'', Token Symbol '';''])
     = filter (\<lambda>c. \<not> c_isspace c) ''int a;''"
  by (rule tokenize_text)
     (simp add: tokenize_lex_all lex_all.simps lex1_def is_ident_char_def char_class_defs
        word_token_def kKeywords_def kCSymbols_def)

lemma tokenize_layout_witness:
  "tokenize (layout [(Token Keyword ''int'', ''  ''), (Token Symbol '';'', '' '')])
     = Inr [Token Keyword ''int'', Token Symbol '';'']"
  using tokenize_layout [of "''int;''" "[(Token Keyword ''int'', ''  ''), (Token Symbol '';'', '' '')]"]
  by (simp add: tokenize_lex_all lex_all.simps lex1_def is_ident_char_def char_class_defs
        word_token_def kKeywords_def kCSymbols_def spaced_def)

lemma tokenize_decimal_witness:
  "tokenize (''12'' @ ''.5'' @ ''e-3'' @ ''f'')
     = Inr [Token ConstantNumberLiteral (''12'' @ ''.5'' @ ''e-3'' @ ''f'')]"
proof (rule tokenize_decimal)
  have "''-3'' = ''-'' @ ''3''" by simp
  then show "exponent_part ''e-3''"
    unfolding exponent_part_def digits_def
    by (intro disjI2 exI [of _ "CHR ''e''"] exI [of _ "''-''"] exI [of _ "''3''"])
       (simp add: char_class_defs)
qed (simp_all add: digits_def fraction_part_def suffix_part_def is_suffix_char_def char_class_defs)

lemma Lexer_next_refines_witness:
  "\<exists>l'. Lexer_next (Lexer '' x'') = (Inr (Token Identifier ''x''), l') \<and> lx_pos l' \<le> 2"
proof -
  obtain re l' where nxt: "Lexer_next (Lexer '' x'') = (re, l')" by fastforce
  from Lexer_next_refines [OF this] have "lex1 '' x'' = (re, drop (lx_pos l') '' x'')" "lx_pos l' \<le> 2"
    by (simp_all add: Lexer_def)
  with nxt show ?thesis
    by (simp add: lex1_def is_ident_char_def char_class_defs word_token_def kKeywords_def)
qed

lemma Lexer_next_eof_witness:
  "Lexer_next \<lparr>lx_input = ''a '', lx_pos = 2\<rparr>
     = (Inr (Token EndOfFile ''''), \<lparr>lx_input = ''a '', lx_pos = 2\<rparr>)"
  by (rule Lexer_next_eof [of "\<lparr>lx_input = ''a '', lx_pos = 1\<rparr>" "Token EndOfFile ''''"])
     (simp_all add: Lexer_next_def scan_while_takeWhile c_isspace_def Result_value_def)

end
