(* ===== verification/CF_Parser.thy ===== *)
theory CF_Parser
  imports CF_Lexer
begin

text \<open>
  \<^verbatim>\<open>src/c_frontend/lib/parser.{h,cpp}\<close>: the AST with its hand-written run-time type tests and
  the recursive-descent parser. A parser is its token vector and \<^verbatim>\<open>pos_\<close>; each \<^verbatim>\<open>Parse*\<close> method
  returns its \<^verbatim>\<open>ErrorOr\<close> and the parser it leaves, on the error paths too. The grammar the
  methods implement is stated apart (\<open>g_*\<close>), and the contract \<open>token_parser\<close> says that a
  method accepts exactly the phrases of its grammar rule.
\<close>

section \<open>The AST\<close>

datatype type_specifier = TypeSpecifier (type_name: string)

datatype ast_node =
    AstNode
  | TypeSpecifierNode type_specifier
  | VarDeclNode var_decl
  | AssignmentExprNode assignment_expr
  | FunctionDeclNode function_decl
  | TranslationUnitNode translation_unit
and var_decl = VarDecl (vd_type: type_specifier) (vd_name: string) (init_expr: "ast_node option")
and assignment_expr = AssignmentExpr (lhs: string) (rhs: "ast_node option")
and function_decl =
  FunctionDecl (return_type: type_specifier) (fn_name: string) (params: "var_decl list")
    (body: "ast_node list")
and translation_unit = TranslationUnit (decls: "ast_node list")

text \<open>The addresses \<^verbatim>\<open>&s_id\<close> of the classes, and the virtual \<^verbatim>\<open>IsA\<close>: the base compares with its
  own id, \<^verbatim>\<open>AstNodeHelper\<close> adds the derived class's.\<close>

datatype ast_class = C_AstNode | C_TypeSpecifier | C_VarDecl | C_AssignmentExpr | C_FunctionDecl
  | C_TranslationUnit

definition AstNode_IsA :: "ast_class \<Rightarrow> bool" where
  "AstNode_IsA class_id \<longleftrightarrow> class_id = C_AstNode"

definition AstNodeHelper_IsA :: "ast_class \<Rightarrow> (ast_class \<Rightarrow> bool) \<Rightarrow> ast_class \<Rightarrow> bool" where
  "AstNodeHelper_IsA derived base_IsA class_id \<longleftrightarrow> class_id = derived \<or> base_IsA class_id"

fun node_IsA :: "ast_node \<Rightarrow> ast_class \<Rightarrow> bool" where
  "node_IsA AstNode = AstNode_IsA"
| "node_IsA (TypeSpecifierNode _) = AstNodeHelper_IsA C_TypeSpecifier AstNode_IsA"
| "node_IsA (VarDeclNode _) = AstNodeHelper_IsA C_VarDecl AstNode_IsA"
| "node_IsA (AssignmentExprNode _) = AstNodeHelper_IsA C_AssignmentExpr AstNode_IsA"
| "node_IsA (FunctionDeclNode _) = AstNodeHelper_IsA C_FunctionDecl AstNode_IsA"
| "node_IsA (TranslationUnitNode _) = AstNodeHelper_IsA C_TranslationUnit AstNode_IsA"

text \<open>\<^verbatim>\<open>As<NodeT>()\<close>: the null pointer unless the test holds.\<close>

definition node_As :: "ast_class \<Rightarrow> ast_node \<Rightarrow> ast_node option" where
  "node_As c n = (if \<not> node_IsA n c then None else Some n)"

section \<open>The parser's state\<close>

record parser =
  ps_tokens :: "token list"
  ps_pos :: nat

definition Parser :: "token list \<Rightarrow> parser" where
  "Parser tokens = \<lparr>ps_tokens = tokens, ps_pos = 0\<rparr>"

text \<open>\<^verbatim>\<open>pos_ < tokens_.size() && P(tokens_[pos_])\<close>, \<^verbatim>\<open>tokens_[pos_]\<close> and \<^verbatim>\<open>++pos_\<close>.\<close>

definition at :: "(token \<Rightarrow> bool) \<Rightarrow> parser \<Rightarrow> bool" where
  "at P ps \<longleftrightarrow> ps_pos ps < length (ps_tokens ps) \<and> P (ps_tokens ps ! ps_pos ps)"

definition cur :: "parser \<Rightarrow> token" where
  "cur ps = ps_tokens ps ! ps_pos ps"

definition advance :: "parser \<Rightarrow> parser" where
  "advance ps = ps\<lparr>ps_pos := ps_pos ps + 1\<rparr>"

definition MakeParserError :: "string \<Rightarrow> 'a error_or" where
  "MakeParserError msg =
     Result_error (TCPP_MAKE_ERROR ''c_frontend/lib/parser.cpp'' 18 (ParserErrorDetails msg))"

definition IsTypeKeyword :: "token \<Rightarrow> bool" where
  "IsTypeKeyword t \<longleftrightarrow> tok_type t = Keyword \<and>
     (tok_text t = ''int'' \<or> tok_text t = ''float'' \<or> tok_text t = ''double'' \<or> tok_text t = ''long''
      \<or> tok_text t = ''short'' \<or> tok_text t = ''bool'' \<or> tok_text t = ''void'')"

definition IsIdentifier :: "token \<Rightarrow> bool" where
  "IsIdentifier t \<longleftrightarrow> tok_type t = Identifier"

definition IsConstant :: "token \<Rightarrow> bool" where
  "IsConstant t \<longleftrightarrow> tok_type t = ConstantNumberLiteral"

definition has_text :: "string \<Rightarrow> token \<Rightarrow> bool" where
  "has_text s t \<longleftrightarrow> tok_text t = s"

definition IsReturn :: "token \<Rightarrow> bool" where
  "IsReturn t \<longleftrightarrow> tok_type t = Keyword \<and> tok_text t = ''return''"

section \<open>The parsing methods\<close>

definition ParseExpr :: "parser \<Rightarrow> ast_node error_or \<times> parser" where
  "ParseExpr ps =
     (if at IsConstant ps then (Result_value AstNode, advance ps)
      else if at IsIdentifier ps then (Result_value AstNode, advance ps)
      else (MakeParserError ''Unsupported or missing expression'', ps))"

definition ParseAssignment :: "parser \<Rightarrow> assignment_expr error_or \<times> parser" where
  "ParseAssignment ps =
     (if \<not> at IsIdentifier ps then
        (MakeParserError ''Expected identifier on left-hand side of assignment'', ps)
      else
        let l = tok_text (cur ps); ps = advance ps in
        if \<not> at (has_text ''='') ps then (MakeParserError ''Expected '=' in assignment'', ps)
        else
          let ps = advance ps in
          case ParseExpr ps of
            (Inl e, ps) \<Rightarrow> (Result_error e, ps)
          | (Inr r, ps) \<Rightarrow>
              if \<not> at (has_text '';'') ps then
                (MakeParserError ''Expected ';' after assignment'', ps)
              else (Result_value (AssignmentExpr l (Some r)), advance ps))"

text \<open>The part of \<^verbatim>\<open>ParseVarDecl\<close> that reads the optional initialiser, and the rest.\<close>

definition ParseInit :: "parser \<Rightarrow> ast_node option error_or \<times> parser" where
  "ParseInit ps =
     (if at (has_text ''='') ps then
        case ParseExpr (advance ps) of
          (Inl e, ps) \<Rightarrow> (Result_error e, ps)
        | (Inr x, ps) \<Rightarrow> (Result_value (Some x), ps)
      else (Result_value None, ps))"

definition ParseVarDecl :: "parser \<Rightarrow> var_decl error_or \<times> parser" where
  "ParseVarDecl ps =
     (if \<not> at IsTypeKeyword ps then (MakeParserError ''Expected variable type'', ps)
      else
        let ty = TypeSpecifier (tok_text (cur ps)); ps = advance ps in
        if \<not> at IsIdentifier ps then (MakeParserError ''Expected variable name'', ps)
        else
          let nm = tok_text (cur ps); ps = advance ps in
          case ParseInit ps of
            (Inl e, ps) \<Rightarrow> (Result_error e, ps)
          | (Inr ini, ps) \<Rightarrow>
              if \<not> at (has_text '';'') ps then
                (MakeParserError ''Expected ';' after variable declaration'', ps)
              else (Result_value (VarDecl ty nm ini), advance ps))"

text \<open>One round of the loop over a function body.\<close>

definition ParseReturn :: "parser \<Rightarrow> ast_node error_or \<times> parser" where
  "ParseReturn ps =
     (case ParseExpr (advance ps) of
        (Inl e, ps) \<Rightarrow> (Result_error e, ps)
      | (Inr x, ps) \<Rightarrow>
          if \<not> at (has_text '';'') ps then (MakeParserError ''Expected ';' after return'', ps)
          else (Result_value (AssignmentExprNode (AssignmentExpr ''return'' (Some x))), advance ps))"

definition ParseStatement :: "parser \<Rightarrow> ast_node error_or \<times> parser" where
  "ParseStatement ps =
     (if IsTypeKeyword (cur ps) then
        case ParseVarDecl ps of
          (Inl e, ps) \<Rightarrow> (Result_error e, ps)
        | (Inr v, ps) \<Rightarrow> (Result_value (VarDeclNode v), ps)
      else if IsReturn (cur ps) then ParseReturn ps
      else if IsIdentifier (cur ps) then
        case ParseAssignment ps of
          (Inl e, ps) \<Rightarrow> (Result_error e, ps)
        | (Inr a, ps) \<Rightarrow> (Result_value (AssignmentExprNode a), ps)
      else (MakeParserError (''Unexpected token in function body: '' @ tok_text (cur ps)), ps))"


section \<open>The tokens that are left\<close>

definition rest :: "parser \<Rightarrow> token list" where
  "rest ps = drop (ps_pos ps) (ps_tokens ps)"

definition skip :: "nat \<Rightarrow> parser \<Rightarrow> parser" where
  "skip n ps = ps\<lparr>ps_pos := ps_pos ps + n\<rparr>"

lemma advance_skip: "advance ps = skip 1 ps"
  by (simp add: advance_def skip_def)

lemma skip_skip [simp]: "skip m (skip n ps) = skip (n + m) ps" "skip 0 ps = ps"
  by (simp_all add: skip_def add.assoc)

lemma rest_skip [simp]: "rest (skip n ps) = drop n (rest ps)"
  by (simp add: rest_def skip_def add.commute)

lemma rest_Parser [simp]: "rest (Parser ts) = ts"
  by (simp add: rest_def Parser_def)

lemma skip_tokens [simp]: "ps_tokens (skip n ps) = ps_tokens ps"
  by (simp add: skip_def)

lemma skip_eq_iff [simp]: "skip m ps = skip n ps \<longleftrightarrow> m = n"
  by (auto simp: skip_def dest: arg_cong [of _ _ ps_pos])

lemma at_iff: "at P ps \<longleftrightarrow> (\<exists>t r. rest ps = t # r \<and> P t)"
proof (cases "ps_pos ps < length (ps_tokens ps)")
  case True
  then have "rest ps = cur ps # drop (Suc (ps_pos ps)) (ps_tokens ps)"
    by (simp add: rest_def cur_def Cons_nth_drop_Suc)
  with True show ?thesis by (simp add: at_def cur_def)
qed (simp add: at_def rest_def)

lemma at_Cons: "rest ps = t # r \<Longrightarrow> at P ps \<longleftrightarrow> P t"
  by (simp add: at_iff)

lemma cur_Cons: "rest ps = t # r \<Longrightarrow> cur ps = t"
  by (metis cur_def rest_def hd_drop_conv_nth list.sel(1) drop_eq_Nil list.simps(3) not_le)

lemma at_Nil: "rest ps = [] \<Longrightarrow> \<not> at P ps"
  by (simp add: at_iff)

lemma atE:
  assumes "at P ps"
  obtains t r where "rest ps = t # r" "P t" "cur ps = t"
  using assms cur_Cons by (auto simp: at_iff)

lemmas at_simps = at_Cons at_Nil cur_Cons

section \<open>The contract of a parsing method\<close>

definition parser_error :: "error \<Rightarrow> bool" where
  "parser_error e \<longleftrightarrow> (\<exists>msg. MakeParserError msg = (Inl e :: unit error_or))"

lemma MakeParserError_Inl [simp]:
  "MakeParserError msg = Inl e \<longleftrightarrow>
     e = TCPP_MAKE_ERROR ''c_frontend/lib/parser.cpp'' 18 (ParserErrorDetails msg)"
  "MakeParserError msg \<noteq> Inr x"
  by (auto simp: MakeParserError_def Result_error_def)

lemma parser_errorI [simp]:
  "parser_error (TCPP_MAKE_ERROR ''c_frontend/lib/parser.cpp'' 18 (ParserErrorDetails msg))"
  by (auto simp: parser_error_def)

text \<open>
  \<open>parse\<close> returns a value exactly when a phrase of its grammar rule \<open>derives\<close> is a prefix of the
  tokens left, and then it consumes exactly that phrase; its errors are parser errors. \<open>ready\<close>
  is what the caller has checked before.
\<close>

locale token_parser =
  fixes parse :: "parser \<Rightarrow> 'a error_or \<times> parser"
    and derives :: "'a \<Rightarrow> token list \<Rightarrow> bool"
    and ready :: "parser \<Rightarrow> bool"
  assumes sound: "ready ps \<Longrightarrow> parse ps = (Inr x, ps') \<Longrightarrow>
      \<exists>n \<le> length (rest ps). derives x (take n (rest ps)) \<and> ps' = skip n ps"
    and complete: "derives x ts \<Longrightarrow> rest ps = ts @ r \<Longrightarrow> parse ps = (Inr x, skip (length ts) ps)"
    and fails: "ready ps \<Longrightarrow> parse ps = (Inl e, ps') \<Longrightarrow>
      parser_error e \<and> (\<exists>n \<le> length (rest ps). ps' = skip n ps)"
    and nonempty: "derives x ts \<Longrightarrow> ts \<noteq> []"
begin

lemma soundE:
  assumes "parse ps = (Inr x, ps')" "ready ps"
  obtains ts r where "rest ps = ts @ r" "derives x ts" "ps' = skip (length ts) ps"
proof -
  obtain n where n: "n \<le> length (rest ps)" "derives x (take n (rest ps))" "ps' = skip n ps"
    using sound [OF assms(2,1)] by blast
  then show ?thesis by (intro that [of "take n (rest ps)" "drop n (rest ps)"]) simp_all
qed

lemma failsE:
  assumes "parse ps = (Inl e, ps')" "ready ps"
  obtains n where "parser_error e" "n \<le> length (rest ps)" "ps' = skip n ps"
  using fails [OF assms(2,1)] by auto

lemma progress:
  assumes "parse ps = (Inr x, ps')" "ready ps"
  shows "length (rest ps') < length (rest ps)"
proof -
  obtain ts r where "rest ps = ts @ r" "derives x ts" "ps' = skip (length ts) ps"
    by (rule soundE [OF assms])
  with nonempty [of x ts] show ?thesis by simp
qed

lemma accepts_iff:
  assumes "ready ps"
  shows "(\<exists>ps'. parse ps = (Inr x, ps')) \<longleftrightarrow> (\<exists>ts r. rest ps = ts @ r \<and> derives x ts)"
proof
  assume "\<exists>ps'. parse ps = (Inr x, ps')"
  then obtain ps' where "parse ps = (Inr x, ps')" ..
  from this assms obtain ts r where "rest ps = ts @ r" "derives x ts" by (rule soundE)
  then show "\<exists>ts r. rest ps = ts @ r \<and> derives x ts" by (intro exI conjI)
next
  assume "\<exists>ts r. rest ps = ts @ r \<and> derives x ts"
  then obtain ts r where "rest ps = ts @ r" "derives x ts" by (elim exE conjE)
  from complete [OF this(2,1)] show "\<exists>ps'. parse ps = (Inr x, ps')" ..
qed

lemma rejects_iff:
  assumes "ready ps"
  shows "(\<exists>e ps'. parse ps = (Inl e, ps')) \<longleftrightarrow> \<not> (\<exists>x ts r. rest ps = ts @ r \<and> derives x ts)"
proof -
  have "(\<exists>e ps'. parse ps = (Inl e, ps')) \<longleftrightarrow> \<not> (\<exists>x ps'. parse ps = (Inr x, ps'))"
    by (cases "parse ps"; cases "fst (parse ps)") simp_all
  then show ?thesis using accepts_iff [OF assms] by simp
qed

lemma unambiguous:
  assumes "derives x ts" "derives y us" "ts @ r = us @ r'"
  shows "x = y \<and> ts = us \<and> r = r'"
proof -
  have "parse (Parser (ts @ r)) = (Inr x, skip (length ts) (Parser (ts @ r)))"
    by (rule complete [OF assms(1)]) simp
  moreover have "parse (Parser (ts @ r)) = (Inr y, skip (length us) (Parser (ts @ r)))"
    by (rule complete [OF assms(2)]) (simp add: assms(3))
  ultimately have "x = y" "length ts = length us" by simp_all
  with assms(3) show ?thesis by auto
qed

end

section \<open>The grammar, and the methods that implement it\<close>

inductive g_expr :: "ast_node \<Rightarrow> token list \<Rightarrow> bool" where
  g_constant: "IsConstant t \<Longrightarrow> g_expr AstNode [t]"
| g_identifier: "IsIdentifier t \<Longrightarrow> g_expr AstNode [t]"

inductive g_assignment :: "assignment_expr \<Rightarrow> token list \<Rightarrow> bool" where
  g_assign: "IsIdentifier v \<Longrightarrow> has_text ''='' eq \<Longrightarrow> g_expr x e \<Longrightarrow> has_text '';'' sc \<Longrightarrow>
    g_assignment (AssignmentExpr (tok_text v) (Some x)) (v # eq # e @ [sc])"

inductive g_vardecl :: "var_decl \<Rightarrow> token list \<Rightarrow> bool" where
  g_plain: "IsTypeKeyword ty \<Longrightarrow> IsIdentifier v \<Longrightarrow> has_text '';'' sc \<Longrightarrow>
    g_vardecl (VarDecl (TypeSpecifier (tok_text ty)) (tok_text v) None) [ty, v, sc]"
| g_init: "IsTypeKeyword ty \<Longrightarrow> IsIdentifier v \<Longrightarrow> has_text ''='' eq \<Longrightarrow> g_expr x e \<Longrightarrow>
    has_text '';'' sc \<Longrightarrow>
    g_vardecl (VarDecl (TypeSpecifier (tok_text ty)) (tok_text v) (Some x)) (ty # v # eq # e @ [sc])"

inductive g_return :: "ast_node \<Rightarrow> token list \<Rightarrow> bool" where
  g_ret: "IsReturn k \<Longrightarrow> g_expr x e \<Longrightarrow> has_text '';'' sc \<Longrightarrow>
    g_return (AssignmentExprNode (AssignmentExpr ''return'' (Some x))) (k # e @ [sc])"

inductive g_statement :: "ast_node \<Rightarrow> token list \<Rightarrow> bool" where
  gs_var: "g_vardecl v ts \<Longrightarrow> g_statement (VarDeclNode v) ts"
| gs_ret: "g_return s ts \<Longrightarrow> g_statement s ts"
| gs_assign: "g_assignment a ts \<Longrightarrow> g_statement (AssignmentExprNode a) ts"

inductive g_body :: "ast_node list \<Rightarrow> token list \<Rightarrow> bool" where
  g_body_Nil: "g_body [] []"
| g_body_Cons: "g_statement s (t # ts) \<Longrightarrow> tok_text t \<noteq> ''}'' \<Longrightarrow> g_body ss us \<Longrightarrow>
    g_body (s # ss) (t # ts @ us)"

inductive g_function :: "function_decl \<Rightarrow> token list \<Rightarrow> bool" where
  g_fun: "IsTypeKeyword ty \<Longrightarrow> IsIdentifier v \<Longrightarrow> has_text ''('' lp \<Longrightarrow> has_text '')'' rp \<Longrightarrow>
    has_text ''{'' lb \<Longrightarrow> g_body ss us \<Longrightarrow> has_text ''}'' rb \<Longrightarrow>
    g_function (FunctionDecl (TypeSpecifier (tok_text ty)) (tok_text v) [] ss)
      (ty # v # lp # rp # lb # us @ [rb])"

inductive g_unit :: "ast_node list \<Rightarrow> token list \<Rightarrow> bool" where
  g_unit_Nil: "g_unit [] []"
| g_unit_Cons: "g_function f ts \<Longrightarrow> g_unit fs us \<Longrightarrow> g_unit (FunctionDeclNode f # fs) (ts @ us)"

lemmas result_simps = Result_value_def Result_error_def

interpretation expr: token_parser ParseExpr g_expr "\<lambda>_. True"
proof (unfold_locales, goal_cases)
  case (1 ps x ps')
  then show ?case
    by (cases "rest ps")
       (auto simp: ParseExpr_def result_simps at_simps advance_skip
          intro: g_constant g_identifier split: if_splits)
next
  case (2 x ts ps r)
  then show ?case
    by (auto elim!: g_expr.cases simp: ParseExpr_def result_simps at_simps advance_skip)
next
  case (3 ps e ps')
  then show ?case
    by (auto simp: ParseExpr_def result_simps split: if_splits intro!: exI [of _ 0])
next
  case (4 x ts)
  then show ?case by (auto elim: g_expr.cases)
qed


interpretation assignment: token_parser ParseAssignment g_assignment "\<lambda>_. True"
proof (unfold_locales, goal_cases)
  case (1 ps x ps')
  from 1(2) show ?case
    unfolding ParseAssignment_def Let_def result_simps advance_skip
    by (auto split: if_splits prod.splits sum.splits elim!: atE expr.soundE intro: g_assign)
next
  case (2 x ts ps r)
  then show ?case
    by (cases rule: g_assignment.cases)
       (auto simp: ParseAssignment_def result_simps at_simps advance_skip
          expr.complete [of _ _ _ "_ # r"])
next
  case (3 ps e ps')
  from 3(2) show ?case
    by (auto simp: ParseAssignment_def result_simps Let_def advance_skip
        split: if_splits prod.splits sum.splits elim!: atE expr.soundE expr.failsE)
next
  case (4 x ts)
  then show ?case by (auto elim: g_assignment.cases)
qed


lemma keyword_exclusive:
  "IsTypeKeyword t \<Longrightarrow> \<not> IsReturn t" "IsTypeKeyword t \<Longrightarrow> \<not> IsIdentifier t"
  "IsReturn t \<Longrightarrow> \<not> IsIdentifier t" "IsIdentifier t \<Longrightarrow> \<not> IsTypeKeyword t"
  "IsIdentifier t \<Longrightarrow> \<not> IsReturn t" "IsReturn t \<Longrightarrow> \<not> IsTypeKeyword t"
  by (auto simp: IsTypeKeyword_def IsReturn_def IsIdentifier_def)

lemma has_text_exclusive: "has_text '';'' t \<Longrightarrow> \<not> has_text ''='' t"
  by (simp add: has_text_def)

interpretation vardecl: token_parser ParseVarDecl g_vardecl "\<lambda>_. True"
proof (unfold_locales, goal_cases)
  case (1 ps x ps')
  from 1(2) show ?case
    unfolding ParseVarDecl_def ParseInit_def Let_def result_simps advance_skip
    by (auto split: if_splits prod.splits sum.splits elim!: atE expr.soundE
        intro: g_plain g_init)
next
  case (2 x ts ps r)
  then show ?case
    by (cases rule: g_vardecl.cases)
       (auto simp: ParseVarDecl_def ParseInit_def result_simps at_simps advance_skip
          has_text_exclusive expr.complete [of _ _ _ "_ # r"])
next
  case (3 ps e ps')
  from 3(2) show ?case
    by (auto simp: ParseVarDecl_def ParseInit_def result_simps Let_def advance_skip
        split: if_splits prod.splits sum.splits elim!: atE expr.soundE expr.failsE)
next
  case (4 x ts)
  then show ?case by (auto elim: g_vardecl.cases)
qed

interpretation return: token_parser ParseReturn g_return "at IsReturn"
proof (unfold_locales, goal_cases)
  case (1 ps x ps')
  then show ?case
    unfolding ParseReturn_def result_simps advance_skip
    by (auto split: if_splits prod.splits sum.splits elim!: atE expr.soundE intro: g_ret)
next
  case (2 x ts ps r)
  then show ?case
    by (cases rule: g_return.cases)
       (auto simp: ParseReturn_def result_simps at_simps advance_skip
          expr.complete [of _ _ _ "_ # r"])
next
  case (3 ps e ps')
  then show ?case
    by (auto simp: ParseReturn_def result_simps advance_skip
        split: if_splits prod.splits sum.splits elim!: atE expr.soundE expr.failsE)
next
  case (4 x ts)
  then show ?case by (auto elim: g_return.cases)
qed

text \<open>Which statement rule applies is decided by the first token.\<close>

lemma g_first:
  "g_vardecl v ts \<Longrightarrow> \<exists>t r. ts = t # r \<and> IsTypeKeyword t"
  "g_return s ts \<Longrightarrow> \<exists>t r. ts = t # r \<and> IsReturn t"
  "g_assignment a ts \<Longrightarrow> \<exists>t r. ts = t # r \<and> IsIdentifier t"
  by (auto elim: g_vardecl.cases g_return.cases g_assignment.cases)

abbreviation some_token :: "token \<Rightarrow> bool" where
  "some_token \<equiv> (\<lambda>_. True)"

interpretation statement: token_parser ParseStatement g_statement "at some_token"
proof (unfold_locales, goal_cases)
  case (1 ps x ps')
  then obtain t r where ps: "rest ps = t # r" "cur ps = t" by (auto elim: atE)
  then consider (v) v where "ParseVarDecl ps = (Inr v, ps')" "x = VarDeclNode v"
    | (r) "at IsReturn ps" "ParseReturn ps = (Inr x, ps')"
    | (a) a where "ParseAssignment ps = (Inr a, ps')" "x = AssignmentExprNode a"
    using 1(2) unfolding ParseStatement_def result_simps
    by (auto simp: at_simps split: if_splits prod.splits sum.splits)
  then show ?case
  proof cases
    case v
    with vardecl.sound [OF _ v(1)] show ?thesis by (auto intro: g_statement.intros)
  next
    case r
    with return.sound [OF r] show ?thesis by (auto intro: g_statement.intros)
  next
    case a
    with assignment.sound [OF _ a(1)] show ?thesis by (auto intro: g_statement.intros)
  qed
next
  case (2 x ts ps r)
  note left = 2(2)
  from 2(1) show ?case
  proof (cases rule: g_statement.cases)
    case (gs_var v)
    with g_first(1) [OF gs_var(2)] vardecl.complete [OF gs_var(2) left] left show ?thesis
      by (auto simp: ParseStatement_def result_simps at_simps)
  next
    case gs_ret
    from g_first(2) [OF gs_ret] left obtain k u where "rest ps = k # u" "IsReturn k" by auto
    with return.complete [OF gs_ret left] keyword_exclusive(6) [of k] show ?thesis
      by (simp add: ParseStatement_def result_simps at_simps)
  next
    case (gs_assign a)
    from g_first(3) [OF gs_assign(2)] left obtain k u where "rest ps = k # u" "IsIdentifier k" by auto
    with assignment.complete [OF gs_assign(2) left] keyword_exclusive(4,5) [of k] gs_assign(1)
    show ?thesis by (simp add: ParseStatement_def result_simps at_simps)
  qed
next
  case (3 ps e ps')
  then obtain t r where ps: "rest ps = t # r" "cur ps = t" by (auto elim: atE)
  then consider (v) "ParseVarDecl ps = (Inl e, ps')"
    | (r) "at IsReturn ps" "ParseReturn ps = (Inl e, ps')"
    | (a) "ParseAssignment ps = (Inl e, ps')"
    | (other) "ps' = ps" "parser_error e"
    using 3(2) unfolding ParseStatement_def result_simps
    by (auto simp: at_simps split: if_splits prod.splits sum.splits)
  then show ?case
  proof cases
    case v then show ?thesis by (rule vardecl.fails [OF TrueI])
  next
    case r then show ?thesis by (rule return.fails)
  next
    case a then show ?thesis by (rule assignment.fails [OF TrueI])
  next
    case other then show ?thesis by (auto intro!: exI [of _ 0])
  qed
next
  case (4 x ts)
  then show ?case by (auto elim!: g_statement.cases dest: g_first)
qed


section \<open>The loops\<close>

function ParseBody :: "parser \<Rightarrow> ast_node list \<Rightarrow> ast_node list error_or \<times> parser" where
  "ParseBody ps acc =
     (if at (\<lambda>t. tok_text t \<noteq> ''}'') ps then
        case ParseStatement ps of
          (Inl e, ps') \<Rightarrow> (Result_error e, ps')
        | (Inr s, ps') \<Rightarrow> ParseBody ps' (acc @ [s])
      else (Result_value acc, ps))"
  by pat_completeness auto
termination
proof (relation "measure (\<lambda>(ps, acc). length (rest ps))", goal_cases)
  case (2 ps acc x ps' s)
  then have "at some_token ps" "ParseStatement ps = (Inr s, ps')" by (auto simp: at_iff)
  then show ?case using statement.progress [of ps s ps'] by simp
qed simp

definition ParseFunction :: "parser \<Rightarrow> function_decl error_or \<times> parser" where
  "ParseFunction ps =
     (if \<not> at IsTypeKeyword ps then (MakeParserError ''Expected function return type'', ps)
      else
        let ty = TypeSpecifier (tok_text (cur ps)); ps = advance ps in
        if \<not> at IsIdentifier ps then (MakeParserError ''Expected function name'', ps)
        else
          let nm = tok_text (cur ps); ps = advance ps in
          if \<not> at (has_text ''('') ps then (MakeParserError (''Expected '('' @ [CHR 0x27]), ps)
          else let ps = advance ps in
          if \<not> at (has_text '')'') ps then (MakeParserError (''Expected ')'' @ [CHR 0x27]), ps)
          else let ps = advance ps in
          if \<not> at (has_text ''{'') ps then (MakeParserError (''Expected '{'' @ [CHR 0x27]), ps)
          else let ps = advance ps in
          case ParseBody ps [] of
            (Inl e, ps) \<Rightarrow> (Result_error e, ps)
          | (Inr ss, ps) \<Rightarrow>
              if \<not> at (has_text ''}'') ps then
                (MakeParserError ''Expected '}' at end of function'', ps)
              else (Result_value (FunctionDecl ty nm [] ss), advance ps))"

declare ParseBody.simps [simp del]

lemma ParseBody_sound:
  assumes "ParseBody ps acc = (Inr ss, ps')"
  shows "\<exists>n \<le> length (rest ps). \<exists>ss'. ss = acc @ ss' \<and> g_body ss' (take n (rest ps)) \<and> ps' = skip n ps"
  using assms
proof (induction ps acc rule: ParseBody.induct)
  case (1 ps acc)
  show ?case
  proof (cases "at (\<lambda>t. tok_text t \<noteq> ''}'') ps")
    case False
    with 1(2) show ?thesis
      by (auto simp: ParseBody.simps [of ps] result_simps intro: g_body_Nil intro!: exI [of _ 0])
  next
    case True
    then obtain t r where ps: "rest ps = t # r" "tok_text t \<noteq> ''}''" by (auto elim: atE)
    from True 1(2) obtain s ps1 where s: "ParseStatement ps = (Inr s, ps1)"
      "ParseBody ps1 (acc @ [s]) = (Inr ss, ps')"
      by (auto simp: ParseBody.simps [of ps] result_simps split: prod.splits sum.splits)
    have "at some_token ps" using ps by (simp add: at_simps)
    from s(1) this obtain ts r' where ts: "rest ps = ts @ r'" "g_statement s ts" "ps1 = skip (length ts) ps"
      by (rule statement.soundE)
    with ps statement.nonempty [OF ts(2)] obtain ts' where ts': "ts = t # ts'" by (cases ts) auto
    from 1(1) [OF True s(1) [symmetric] refl s(2)] ts obtain n ss' where
      n: "n \<le> length r'" "ss = acc @ s # ss'" "g_body ss' (take n r')" "ps' = skip (length ts + n) ps"
      by auto
    have "g_body (s # ss') (ts @ take n r')"
      using g_body_Cons [of s t ts' ss' "take n r'"] ts(2) ts' ps(2) n(3) by simp
    with n ts(1) show ?thesis by (intro exI [of _ "length ts + n"]) auto
  qed
qed

lemma ParseBody_soundE:
  assumes "ParseBody ps [] = (Inr ss, ps')"
  obtains ts r where "rest ps = ts @ r" "g_body ss ts" "ps' = skip (length ts) ps"
proof -
  from ParseBody_sound [OF assms] obtain n where
    "n \<le> length (rest ps)" "g_body ss (take n (rest ps))" "ps' = skip n ps" by auto
  then show ?thesis by (intro that [of "take n (rest ps)" "drop n (rest ps)"]) simp_all
qed

lemma ParseBody_complete:
  "g_body ss ts \<Longrightarrow> rest ps = ts @ b # r \<Longrightarrow> tok_text b = ''}'' \<Longrightarrow>
     ParseBody ps acc = (Inr (acc @ ss), skip (length ts) ps)"
proof (induction ss ts arbitrary: ps acc rule: g_body.induct)
  case g_body_Nil
  then show ?case by (simp add: ParseBody.simps [of ps] at_simps result_simps)
next
  case (g_body_Cons s t ts ss us)
  have "ParseStatement ps = (Inr s, skip (length (t # ts)) ps)"
    by (rule statement.complete [OF g_body_Cons.hyps(1)]) (use g_body_Cons.prems in simp)
  moreover have "ParseBody (skip (length (t # ts)) ps) (acc @ [s])
      = (Inr ((acc @ [s]) @ ss), skip (length us) (skip (length (t # ts)) ps))"
    using g_body_Cons.prems by (intro g_body_Cons.IH) simp_all
  ultimately show ?case using g_body_Cons.hyps(2) g_body_Cons.prems(1)
    by (simp add: ParseBody.simps [of ps] at_simps)
qed

lemma ParseBody_fails:
  assumes "ParseBody ps acc = (Inl e, ps')"
  shows "parser_error e \<and> (\<exists>n \<le> length (rest ps). ps' = skip n ps)"
  using assms
proof (induction ps acc rule: ParseBody.induct)
  case (1 ps acc)
  then have at: "at (\<lambda>t. tok_text t \<noteq> ''}'') ps"
    by (auto simp: ParseBody.simps [of ps] result_simps split: if_splits)
  then have ready: "at some_token ps" by (auto simp: at_iff)
  from at 1(2) consider (now) "ParseStatement ps = (Inl e, ps')"
    | (later) s ps1 where "ParseStatement ps = (Inr s, ps1)" "ParseBody ps1 (acc @ [s]) = (Inl e, ps')"
    by (auto simp: ParseBody.simps [of ps] result_simps split: prod.splits sum.splits)
  then show ?case
  proof cases
    case now
    then show ?thesis by (rule statement.fails [OF ready])
  next
    case later
    obtain n where "n \<le> length (rest ps)" "ps1 = skip n ps"
      using statement.sound [OF ready later(1)] by blast
    moreover from 1(1) [OF at later(1) [symmetric] refl later(2)] this
    obtain m where "parser_error e" "m \<le> length (rest ps) - n" "ps' = skip (n + m) ps" by auto
    ultimately show ?thesis by (auto intro!: exI [of _ "n + m"])
  qed
qed

interpretation func: token_parser ParseFunction g_function "\<lambda>_. True"
proof (unfold_locales, goal_cases)
  case (1 ps x ps')
  from 1(2) show ?case
    unfolding ParseFunction_def Let_def result_simps advance_skip
    by (auto split: if_splits prod.splits sum.splits elim!: atE ParseBody_soundE
        intro: g_fun)
next
  case (2 x ts ps r)
  then show ?case
    by (cases rule: g_function.cases)
       (auto simp: ParseFunction_def result_simps at_simps advance_skip has_text_def
          ParseBody_complete [of _ _ _ _ r])
next
  case (3 ps e ps')
  from 3(2) show ?case
    unfolding ParseFunction_def Let_def result_simps advance_skip
    by (auto split: if_splits prod.splits sum.splits elim!: atE ParseBody_soundE
        dest!: ParseBody_fails)
next
  case (4 x ts)
  then show ?case by (auto elim: g_function.cases)
qed


function ParseDecls :: "parser \<Rightarrow> ast_node list \<Rightarrow> ast_node list error_or \<times> parser" where
  "ParseDecls ps acc =
     (if at (\<lambda>t. tok_type t \<noteq> EndOfFile) ps then
        case ParseFunction ps of
          (Inl e, ps') \<Rightarrow> (Result_error e, ps')
        | (Inr f, ps') \<Rightarrow> ParseDecls ps' (acc @ [FunctionDeclNode f])
      else (Result_value acc, ps))"
  by pat_completeness auto
termination
  by (relation "measure (\<lambda>(ps, acc). length (rest ps))")
     (auto dest: func.progress [OF sym])

declare ParseDecls.simps [simp del]

definition Parse :: "parser \<Rightarrow> ast_node error_or \<times> parser" where
  "Parse ps =
     (case ParseDecls ps [] of
        (Inl e, ps) \<Rightarrow> (Result_error e, ps)
      | (Inr fs, ps) \<Rightarrow> (Result_value (TranslationUnitNode (TranslationUnit fs)), ps))"

definition at_end :: "token list \<Rightarrow> bool" where
  "at_end r \<longleftrightarrow> r = [] \<or> tok_type (hd r) = EndOfFile"

lemma at_end_iff: "at_end (rest ps) \<longleftrightarrow> \<not> at (\<lambda>t. tok_type t \<noteq> EndOfFile) ps"
  by (cases "rest ps") (simp_all add: at_end_def at_simps)

lemma ParseDecls_sound:
  assumes "ParseDecls ps acc = (Inr fs, ps')"
  shows "\<exists>us fs'. rest ps = us @ rest ps' \<and> fs = acc @ fs' \<and> g_unit fs' us \<and> at_end (rest ps')"
  using assms
proof (induction ps acc rule: ParseDecls.induct)
  case (1 ps acc)
  show ?case
  proof (cases "at_end (rest ps)")
    case True
    with 1(2) show ?thesis
      by (auto simp: ParseDecls.simps [of ps] result_simps at_end_iff intro: g_unit_Nil)
  next
    case False
    then have at: "at (\<lambda>t. tok_type t \<noteq> EndOfFile) ps" by (simp add: at_end_iff)
    with 1(2) obtain f ps1 where f: "ParseFunction ps = (Inr f, ps1)"
      "ParseDecls ps1 (acc @ [FunctionDeclNode f]) = (Inr fs, ps')"
      by (auto simp: ParseDecls.simps [of ps] result_simps split: prod.splits sum.splits)
    obtain ts r where ts: "rest ps = ts @ r" "g_function f ts" "ps1 = skip (length ts) ps"
      using f(1) TrueI by (rule func.soundE)
    from 1(1) [OF at f(1) [symmetric] refl f(2)] obtain us fs' where
      "rest ps1 = us @ rest ps'" "fs = acc @ FunctionDeclNode f # fs'" "g_unit fs' us" "at_end (rest ps')"
      by auto
    with ts g_unit_Cons [OF ts(2)] show ?thesis
      by (intro exI [of _ "ts @ us"] exI [of _ "FunctionDeclNode f # fs'"]) simp
  qed
qed

lemma ParseDecls_complete:
  "g_unit fs ts \<Longrightarrow> rest ps = ts @ r \<Longrightarrow> at_end r \<Longrightarrow>
     ParseDecls ps acc = (Inr (acc @ fs), skip (length ts) ps)"
proof (induction fs ts arbitrary: ps acc rule: g_unit.induct)
  case g_unit_Nil
  then show ?case using at_end_iff [of ps] by (simp add: ParseDecls.simps [of ps] result_simps)
next
  case (g_unit_Cons f ts fs us)
  have f: "ParseFunction ps = (Inr f, skip (length ts) ps)"
    by (rule func.complete [OF g_unit_Cons.hyps(1)]) (use g_unit_Cons.prems in simp)
  have "ParseDecls (skip (length ts) ps) (acc @ [FunctionDeclNode f])
      = (Inr ((acc @ [FunctionDeclNode f]) @ fs), skip (length us) (skip (length ts) ps))"
    using g_unit_Cons.prems by (intro g_unit_Cons.IH) simp_all
  moreover have "at (\<lambda>t. tok_type t \<noteq> EndOfFile) ps"
    using g_unit_Cons.hyps(1) g_unit_Cons.prems(1)
    by (auto elim!: g_function.cases simp: at_simps IsTypeKeyword_def)
  ultimately show ?case using f by (simp add: ParseDecls.simps [of ps])
qed

lemma ParseDecls_fails:
  "ParseDecls ps acc = (Inl e, ps') \<Longrightarrow> parser_error e"
proof (induction ps acc rule: ParseDecls.induct)
  case (1 ps acc)
  then have at: "at (\<lambda>t. tok_type t \<noteq> EndOfFile) ps"
    by (auto simp: ParseDecls.simps [of ps] result_simps split: if_splits)
  from at 1(2) consider (now) "ParseFunction ps = (Inl e, ps')"
    | (later) f ps1 where "ParseFunction ps = (Inr f, ps1)"
      "ParseDecls ps1 (acc @ [FunctionDeclNode f]) = (Inl e, ps')"
    by (auto simp: ParseDecls.simps [of ps] result_simps split: prod.splits sum.splits)
  then show ?case
  proof cases
    case now
    then show ?thesis using func.fails [OF TrueI] by blast
  next
    case later
    from 1(1) [OF at later(1) [symmetric] refl later(2)] show ?thesis .
  qed
qed

lemma Parse_Inr_iff:
  "fst (Parse (Parser ts)) = Inr n \<longleftrightarrow>
     (\<exists>fs us r. n = TranslationUnitNode (TranslationUnit fs) \<and> ts = us @ r \<and> at_end r \<and> g_unit fs us)"
  (is "?l \<longleftrightarrow> ?r")
proof
  assume ?l
  then obtain fs ps' where "ParseDecls (Parser ts) [] = (Inr fs, ps')"
    "n = TranslationUnitNode (TranslationUnit fs)"
    by (auto simp: Parse_def result_simps split: prod.splits sum.splits)
  with ParseDecls_sound [of "Parser ts" "[]" fs ps'] show ?r by auto
next
  assume ?r
  then show ?l
    using ParseDecls_complete [where ps = "Parser ts" and acc = "[]"]
    by (auto simp: Parse_def result_simps)
qed

lemma Parse_Inl: "fst (Parse ps) = Inl e \<Longrightarrow> parser_error e"
  by (auto simp: Parse_def result_simps split: prod.splits sum.splits dest: ParseDecls_fails)

lemma Parse_cases:
  obtains (ok) fs where "fst (Parse ps) = Inr (TranslationUnitNode (TranslationUnit fs))"
  | (error) e where "fst (Parse ps) = Inl e" "parser_error e"
proof -
  obtain re ps' where d: "ParseDecls ps [] = (re, ps')" by fastforce
  then show ?thesis
    using ParseDecls_fails [of ps "[]"] ok error
    by (cases re) (simp_all add: Parse_def result_simps)
qed

section \<open>Printing\<close>

definition sym :: "char \<Rightarrow> token" where
  "sym c = Token Symbol [c]"

definition zero_literal :: token where
  "zero_literal = Token ConstantNumberLiteral ''0''"

text \<open>The AST keeps no expression (every expression is a bare \<^verbatim>\<open>AstNode\<close>), so any is printed as 0.\<close>

definition print_init :: "ast_node option \<Rightarrow> token list" where
  "print_init i = (case i of None \<Rightarrow> [] | Some _ \<Rightarrow> [sym CHR ''='', zero_literal])"

definition print_vardecl :: "var_decl \<Rightarrow> token list" where
  "print_vardecl v =
     Token Keyword (type_name (vd_type v)) # Token Identifier (vd_name v) # print_init (init_expr v)
     @ [sym CHR '';'']"

definition print_assignment :: "assignment_expr \<Rightarrow> token list" where
  "print_assignment a =
     (if lhs a = ''return'' then [Token Keyword ''return'', zero_literal, sym CHR '';'']
      else [Token Identifier (lhs a), sym CHR ''='', zero_literal, sym CHR '';''])"

fun print_stmt :: "ast_node \<Rightarrow> token list" where
  "print_stmt (VarDeclNode v) = print_vardecl v"
| "print_stmt (AssignmentExprNode a) = print_assignment a"
| "print_stmt _ = []"

definition print_function :: "function_decl \<Rightarrow> token list" where
  "print_function f =
     Token Keyword (type_name (return_type f)) # Token Identifier (fn_name f)
     # sym CHR ''('' # sym CHR '')'' # sym CHR ''{'' # concat (map print_stmt (body f)) @ [sym CHR ''}'']"

fun print_decl :: "ast_node \<Rightarrow> token list" where
  "print_decl (FunctionDeclNode f) = print_function f"
| "print_decl _ = []"

definition print_unit :: "ast_node list \<Rightarrow> token list" where
  "print_unit fs = concat (map print_decl fs)"

text \<open>The shape of the ASTs the parser builds from lexed tokens.\<close>

definition type_names :: "string list" where
  "type_names = [''int'', ''float'', ''double'', ''long'', ''short'', ''bool'', ''void'']"

definition wf_vardecl :: "var_decl \<Rightarrow> bool" where
  "wf_vardecl v \<longleftrightarrow> type_name (vd_type v) \<in> set type_names \<and> init_expr v \<in> {None, Some AstNode}"

fun wf_statement :: "ast_node \<Rightarrow> bool" where
  "wf_statement (VarDeclNode v) = wf_vardecl v"
| "wf_statement (AssignmentExprNode a) = (rhs a = Some AstNode \<and> lhs a \<noteq> ''}'')"
| "wf_statement _ = False"

definition wf_function :: "function_decl \<Rightarrow> bool" where
  "wf_function f \<longleftrightarrow> type_name (return_type f) \<in> set type_names \<and> params f = []
     \<and> (\<forall>s \<in> set (body f). wf_statement s)"

fun wf_decl :: "ast_node \<Rightarrow> bool" where
  "wf_decl (FunctionDeclNode f) = wf_function f"
| "wf_decl _ = False"

lemma IsTypeKeyword_iff: "IsTypeKeyword t \<longleftrightarrow> tok_type t = Keyword \<and> tok_text t \<in> set type_names"
  by (auto simp: IsTypeKeyword_def type_names_def)

lemma has_text_sym [simp]: "has_text s (sym c) \<longleftrightarrow> s = [c]"
  by (auto simp: has_text_def sym_def)

lemma g_zero: "g_expr AstNode [zero_literal]"
  by (rule g_constant) (simp add: zero_literal_def IsConstant_def)

lemma type_not_brace: "''}'' \<notin> set type_names"
  by (simp add: type_names_def)

lemma g_print_vardecl:
  assumes "wf_vardecl v" shows "g_vardecl v (print_vardecl v)"
proof -
  obtain ty nm i where v: "v = VarDecl (TypeSpecifier ty) nm i"
    by (metis var_decl.exhaust type_specifier.exhaust)
  have ty: "IsTypeKeyword (Token Keyword ty)" and nm: "IsIdentifier (Token Identifier nm)"
    using assms v by (simp_all add: wf_vardecl_def IsTypeKeyword_iff IsIdentifier_def)
  show ?thesis
    using g_plain [OF ty nm, of "sym CHR '';''"] g_init [OF ty nm _ g_zero, of "sym CHR ''=''" "sym CHR '';''"]
      assms v
    by (auto simp: print_vardecl_def print_init_def wf_vardecl_def)
qed

lemma g_print_stmt:
  assumes "wf_statement s"
  shows "\<exists>t ts. print_stmt s = t # ts \<and> tok_text t \<noteq> ''}'' \<and> g_statement s (t # ts)"
proof (cases s)
  case (VarDeclNode v)
  with assms g_print_vardecl [of v] show ?thesis
    by (auto simp: print_vardecl_def wf_vardecl_def type_names_def intro: gs_var)
next
  case (AssignmentExprNode a)
  have l: "a = AssignmentExpr (lhs a) (Some AstNode)" "lhs a \<noteq> ''}''"
    using assms AssignmentExprNode by (cases a; simp)+
  show ?thesis
  proof (cases "lhs a = ''return''")
    case True
    then have "g_return s (print_stmt s)"
      using g_ret [OF _ g_zero, of "Token Keyword ''return''" "sym CHR '';''"] l AssignmentExprNode
      by (simp add: print_assignment_def IsReturn_def)
    with True AssignmentExprNode show ?thesis by (auto simp: print_assignment_def intro: gs_ret)
  next
    case False
    then have "g_assignment a (print_stmt s)"
      using g_assign [OF _ _ g_zero, of "Token Identifier (lhs a)" "sym CHR ''=''" "sym CHR '';''"]
        l AssignmentExprNode
      by (simp add: print_assignment_def IsIdentifier_def)
    with False l AssignmentExprNode show ?thesis
      by (auto simp: print_assignment_def intro: gs_assign)
  qed
qed (use assms in simp_all)

lemma g_print_body:
  "\<forall>s \<in> set ss. wf_statement s \<Longrightarrow> g_body ss (concat (map print_stmt ss))"
proof (induction ss)
  case (Cons s ss)
  then obtain t ts where "print_stmt s = t # ts" "tok_text t \<noteq> ''}''" "g_statement s (t # ts)"
    using g_print_stmt [of s] by auto
  with Cons g_body_Cons [of s t ts ss] show ?case by simp
qed (simp add: g_body_Nil)

lemma g_print_function:
  assumes "wf_function f" shows "g_function f (print_function f)"
proof -
  obtain ty nm ss where f: "f = FunctionDecl (TypeSpecifier ty) nm [] ss"
    using assms by (cases f; cases "return_type f") (simp add: wf_function_def)
  with assms g_print_body [of ss]
  have "g_function (FunctionDecl (TypeSpecifier (tok_text (Token Keyword ty))) (tok_text (Token Identifier nm)) [] ss)
     (Token Keyword ty # Token Identifier nm # sym CHR ''('' # sym CHR '')'' # sym CHR ''{''
       # concat (map print_stmt ss) @ [sym CHR ''}''])"
    by (intro g_fun) (simp_all add: wf_function_def IsTypeKeyword_iff IsIdentifier_def)
  with f show ?thesis by (simp add: print_function_def)
qed

lemma g_print_unit: "\<forall>d \<in> set fs. wf_decl d \<Longrightarrow> g_unit fs (print_unit fs)"
proof (induction fs)
  case (Cons d fs)
  then obtain f where "d = FunctionDeclNode f" "wf_function f" by (cases d) auto
  with Cons g_unit_Cons [OF g_print_function [of f], of fs] show ?case by (simp add: print_unit_def)
qed (simp add: print_unit_def g_unit_Nil)


lemma g_expr_AstNode: "g_expr x e \<Longrightarrow> x = AstNode"
  by (auto elim: g_expr.cases)

lemma g_vardecl_wf: "g_vardecl v ts \<Longrightarrow> wf_vardecl v"
  by (auto elim!: g_vardecl.cases simp: wf_vardecl_def IsTypeKeyword_iff dest: g_expr_AstNode)

lemma g_statement_wf:
  "g_statement s (t # ts) \<Longrightarrow> tok_text t \<noteq> ''}'' \<Longrightarrow> wf_statement s"
  by (auto elim!: g_statement.cases g_return.cases g_assignment.cases
      dest: g_vardecl_wf g_expr_AstNode)

lemma g_body_wf: "g_body ss ts \<Longrightarrow> \<forall>s \<in> set ss. wf_statement s"
  by (induction rule: g_body.induct) (auto dest: g_statement_wf)

lemma g_unit_wf: "g_unit fs ts \<Longrightarrow> \<forall>d \<in> set fs. wf_decl d"
proof (induction rule: g_unit.induct)
  case (g_unit_Cons f ts fs us)
  then show ?case
    by (auto elim!: g_function.cases simp: wf_function_def IsTypeKeyword_iff dest: g_body_wf)
qed simp

lemma Parse_wf:
  "fst (Parse (Parser ts)) = Inr (TranslationUnitNode (TranslationUnit fs)) \<Longrightarrow>
     \<forall>d \<in> set fs. wf_decl d"
  by (auto simp: Parse_Inr_iff dest: g_unit_wf)

lemma Parse_print:
  "\<forall>d \<in> set fs. wf_decl d \<Longrightarrow>
     fst (Parse (Parser (print_unit fs))) = Inr (TranslationUnitNode (TranslationUnit fs))"
  using g_print_unit [of fs] by (auto simp: Parse_Inr_iff at_end_def)

section \<open>The properties of the parser\<close>

text \<open>
  C2. The parser is sound and complete for its grammar: it returns a tree exactly when the
  tokens up to the end (or to an \<^verbatim>\<open>EndOfFile\<close> token) are a sequence of function definitions of
  the grammar, and then the tree is the translation unit of these functions.
\<close>
theorem Parse_grammar:
  "fst (Parse (Parser ts)) = Inr n \<longleftrightarrow>
     (\<exists>fs us r. n = TranslationUnitNode (TranslationUnit fs) \<and> ts = us @ r
        \<and> (r = [] \<or> tok_type (hd r) = EndOfFile) \<and> g_unit fs us)"
  by (simp add: Parse_Inr_iff at_end_def)

text \<open>
  C21. Every other token sequence is an error of class \<^verbatim>\<open>ParserErrorDetails\<close>, and its source
  location is the helper's line, not the failing check's.
\<close>
theorem Parse_error:
  "(\<exists>e. fst (Parse (Parser ts)) = Inl e \<and> Error_IsA e C_ParserErrorDetails
        \<and> source_context e = \<lparr>file_name = ''c_frontend/lib/parser.cpp'', line = 18\<rparr>)
     \<longleftrightarrow> \<not> (\<exists>fs us r. ts = us @ r \<and> (r = [] \<or> tok_type (hd r) = EndOfFile) \<and> g_unit fs us)"
    (is "?err \<longleftrightarrow> \<not> ?phrase")
proof (cases "Parser ts" rule: Parse_cases)
  case (ok fs)
  then have ?phrase unfolding Parse_Inr_iff at_end_def by blast
  moreover have "\<not> ?err" using ok by simp
  ultimately show ?thesis by simp
next
  case (error e)
  have "\<not> ?phrase"
  proof
    assume ?phrase
    then obtain fs where "fst (Parse (Parser ts)) = Inr (TranslationUnitNode (TranslationUnit fs))"
      unfolding Parse_Inr_iff at_end_def by blast
    with error show False by simp
  qed
  moreover have ?err
    using error by (auto simp: parser_error_def Error_IsA_def IsA_defs TCPP_MAKE_ERROR_def)
  ultimately show ?thesis by simp
qed

text \<open>
  Print and parse are inverse on what the parser produces: the tree of any accepted token
  sequence, printed as tokens and parsed again, gives the same tree.
\<close>
theorem Parse_roundtrip:
  assumes "fst (Parse (Parser ts)) = Inr (TranslationUnitNode (TranslationUnit fs))"
  shows "fst (Parse (Parser (print_unit fs))) = Inr (TranslationUnitNode (TranslationUnit fs))"
  using Parse_print [OF Parse_wf [OF assms]] .

text \<open>
  C39. The tree of an accepted input is a translation unit under the run-time type test and its
  declarations are functions without parameters whose statements are variable declarations or
  assignments, so the later stages' type tests cannot fail on it.
\<close>
theorem Parse_shape:
  assumes "fst (Parse (Parser ts)) = Inr n"
  shows "node_IsA n C_TranslationUnit \<and>
    (\<exists>fs. n = TranslationUnitNode (TranslationUnit fs) \<and>
       (\<forall>d \<in> set fs. node_IsA d C_FunctionDecl \<and>
          (\<exists>f. d = FunctionDeclNode f \<and> params f = [] \<and>
             (\<forall>s \<in> set (body f). node_IsA s C_VarDecl \<or> node_IsA s C_AssignmentExpr))))"
proof -
  obtain fs where n: "n = TranslationUnitNode (TranslationUnit fs)"
    using assms by (auto simp: Parse_Inr_iff)
  have stmt: "node_IsA s C_VarDecl \<or> node_IsA s C_AssignmentExpr" if "wf_statement s" for s
    using that by (cases s) (simp_all add: AstNodeHelper_IsA_def)
  have "node_IsA d C_FunctionDecl \<and> (\<exists>f. d = FunctionDeclNode f \<and> params f = [] \<and>
      (\<forall>s \<in> set (body f). node_IsA s C_VarDecl \<or> node_IsA s C_AssignmentExpr))"
    if "d \<in> set fs" for d
  proof -
    from Parse_wf [OF assms [unfolded n]] that obtain f where
      f: "d = FunctionDeclNode f" "params f = []" "\<forall>s \<in> set (body f). wf_statement s"
      by (cases d) (auto simp: wf_function_def)
    with stmt show ?thesis by (simp add: AstNodeHelper_IsA_def)
  qed
  then show ?thesis by (simp add: n AstNodeHelper_IsA_def)
qed

section \<open>Witnesses\<close>

definition sample_tokens :: "token list" where
  "sample_tokens =
     [Token Keyword ''int'', Token Identifier ''main'', sym CHR ''('', sym CHR '')'', sym CHR ''{'',
      Token Keyword ''return'', Token ConstantNumberLiteral ''7'', sym CHR '';'', sym CHR ''}'']"

definition sample_unit :: "ast_node list" where
  "sample_unit = [FunctionDeclNode (FunctionDecl (TypeSpecifier ''int'') ''main'' []
     [AssignmentExprNode (AssignmentExpr ''return'' (Some AstNode))])]"

lemma sample_parses:
  "fst (Parse (Parser sample_tokens)) = Inr (TranslationUnitNode (TranslationUnit sample_unit))"
  by (simp add: sample_tokens_def sample_unit_def Parse_def ParseDecls.simps ParseFunction_def
      ParseBody.simps ParseStatement_def ParseReturn_def ParseExpr_def Parser_def at_def cur_def
      advance_def IsTypeKeyword_def IsIdentifier_def IsReturn_def IsConstant_def has_text_def sym_def
      result_simps)

lemma Parse_roundtrip_witness:
  "fst (Parse (Parser (print_unit sample_unit)))
     = Inr (TranslationUnitNode (TranslationUnit sample_unit))"
  by (rule Parse_roundtrip [OF sample_parses])

lemma Parse_shape_witness:
  "node_IsA (TranslationUnitNode (TranslationUnit sample_unit)) C_TranslationUnit"
  using Parse_shape [OF sample_parses] by (rule conjunct1)

end
