(* ===== verification/CF_Codegen.thy ===== *)
theory CF_Codegen
  imports CF_Parser
begin

text \<open>
  \<^verbatim>\<open>src/c_frontend/lib/codegen.{h,cpp}\<close>. LLVM is a library outside the repository: the model
  records the calls \<^verbatim>\<open>Codegen::generate\<close> makes on it, in order, and nothing about what LLVM does
  with them. A module is identified with the calls that built it; \<open>NewModule\<close> is the
  \<^verbatim>\<open>new llvm::Module\<close>, and a module is owned by the caller only through the returned
  \<^verbatim>\<open>UniqueRef\<close>.
\<close>

section \<open>The calls on LLVM\<close>

datatype llvm_call =
    NewModule string
  | NewIRBuilder
  | Type_getInt32Ty
  | FunctionType_get bool
  | Function_Create string
  | BasicBlock_Create string
  | SetInsertPoint
  | CreateRet int
  | VerifyFunction string

section \<open>Code generation\<close>

definition codegen_error :: "nat \<Rightarrow> string \<Rightarrow> error" where
  "codegen_error ln msg =
     TCPP_MAKE_ERROR ''c_frontend/lib/codegen.cpp'' ln (CodegenErrorDetails msg)"

text \<open>The loop over the statements: \<^verbatim>\<open>retVal\<close> after each of them.\<close>

definition codegen_statement :: "ast_node \<Rightarrow> int \<Rightarrow> int" where
  "codegen_statement stmt retVal =
     (if node_IsA stmt C_AssignmentExpr then
        case node_As C_AssignmentExpr stmt of
          Some (AssignmentExprNode ret) \<Rightarrow>
            if lhs ret = ''return'' \<and> rhs ret \<noteq> None then 0 else retVal
        | _ \<Rightarrow> retVal
      else retVal)"

text \<open>The result (a module, or an error) and the calls made. \<^verbatim>\<open>As<T>()\<close> after a passed \<^verbatim>\<open>IsA<T>()\<close>
  is the object itself.\<close>

definition generate :: "ast_node \<Rightarrow> llvm_call list error_or \<times> llvm_call list" where
  "generate root =
     (let calls = [NewModule ''c_frontend_module'', NewIRBuilder] in
      if \<not> node_IsA root C_TranslationUnit then
        (Result_error (codegen_error 25 ''Codegen: Not a translation unit''), calls)
      else
        case node_As C_TranslationUnit root of
          Some (TranslationUnitNode tu) \<Rightarrow>
            (case decls tu of
               [] \<Rightarrow>
                 (Result_error (codegen_error 28 ''Codegen: No declarations in translation unit''), calls)
             | funcNode # _ \<Rightarrow>
                 if \<not> node_IsA funcNode C_FunctionDecl then
                   (Result_error (codegen_error 31 ''Codegen: Not a function declaration''), calls)
                 else
                   case node_As C_FunctionDecl funcNode of
                     Some (FunctionDeclNode func) \<Rightarrow>
                       let calls = calls @ [Type_getInt32Ty, FunctionType_get False,
                             Function_Create (fn_name func), BasicBlock_Create ''entry'', SetInsertPoint];
                           retVal = fold codegen_statement (body func) 0;
                           calls = calls @ [CreateRet retVal, VerifyFunction (fn_name func)]
                       in (Result_value calls, calls)
                   | _ \<Rightarrow> (Result_error (codegen_error 31 ''Codegen: Not a function declaration''), calls))
        | _ \<Rightarrow> (Result_error (codegen_error 25 ''Codegen: Not a translation unit''), calls))"

section \<open>What is generated\<close>

lemma codegen_statement_0 [simp]: "codegen_statement stmt 0 = 0"
  by (simp add: codegen_statement_def split: option.split ast_node.split)

lemma fold_codegen_0 [simp]: "fold codegen_statement ss 0 = 0"
  by (induction ss) simp_all

definition module_for :: "string \<Rightarrow> llvm_call list" where
  "module_for name =
     [NewModule ''c_frontend_module'', NewIRBuilder, Type_getInt32Ty, FunctionType_get False,
      Function_Create name, BasicBlock_Create ''entry'', SetInsertPoint, CreateRet 0,
      VerifyFunction name]"

lemma generate_function:
  "generate (TranslationUnitNode (TranslationUnit (FunctionDeclNode f # ds)))
     = (Inr (module_for (fn_name f)), module_for (fn_name f))"
  by (simp add: generate_def node_As_def AstNodeHelper_IsA_def module_for_def Let_def Result_value_def)

lemma generate_empty:
  "generate (TranslationUnitNode (TranslationUnit []))
     = (Inl (codegen_error 28 ''Codegen: No declarations in translation unit''),
        [NewModule ''c_frontend_module'', NewIRBuilder])"
  by (simp add: generate_def node_As_def AstNodeHelper_IsA_def Let_def Result_error_def)

text \<open>
  On a translation unit that starts with a function, code generation always succeeds, and
  what it asks LLVM to build depends on that function's name only: an \<^verbatim>\<open>int()\<close> function of that
  name that returns 0. The declared return type, the statements (the return expression
  included) and the other functions have no effect.
\<close>
theorem generate_ignores_body:
  "generate (TranslationUnitNode (TranslationUnit
      (FunctionDeclNode (FunctionDecl ty nm ps ss) # ds))) = (Inr (module_for nm), module_for nm)"
  by (simp add: generate_function)

text \<open>
  Code generation fails exactly on trees that are not a translation unit starting with a
  function. The error is a \<^verbatim>\<open>CodegenErrorDetails\<close>; the module it has allocated by then is not
  returned (nor released: no call releases it).
\<close>
theorem generate_error:
  "(\<exists>e. generate n = (Inl e, [NewModule ''c_frontend_module'', NewIRBuilder])
        \<and> Error_IsA e C_CodegenErrorDetails)
     \<longleftrightarrow> \<not> (\<exists>f ds. n = TranslationUnitNode (TranslationUnit (FunctionDeclNode f # ds)))"
  (is "?l \<longleftrightarrow> \<not> ?r")
proof (cases ?r)
  case True
  then show ?thesis by (auto simp: generate_function)
next
  case False
  have err: "Error_IsA (codegen_error ln msg) C_CodegenErrorDetails" for ln msg
    by (simp add: codegen_error_def TCPP_MAKE_ERROR_def Error_IsA_def IsA_defs)
  have "?l"
  proof (cases n)
    case (TranslationUnitNode tu)
    then obtain ds where tu: "tu = TranslationUnit ds" by (cases tu) auto
    show ?thesis
    proof (cases ds)
      case Nil
      with TranslationUnitNode tu err show ?thesis by (simp add: generate_empty)
    next
      case (Cons d ds')
      with False TranslationUnitNode tu err show ?thesis
        by (cases d) (auto simp: generate_def node_As_def AstNodeHelper_IsA_def AstNode_IsA_def
            Let_def Result_error_def)
    qed
  qed (use err in \<open>auto simp: generate_def AstNodeHelper_IsA_def AstNode_IsA_def Let_def Result_error_def\<close>)
  with False show ?thesis by simp
qed

end
