(* ===== verification/CF_Driver.thy ===== *)
theory CF_Driver
  imports CF_Tokens CF_Codegen
begin

text \<open>
  \<^verbatim>\<open>src/c_frontend/main/main.cpp\<close>: the command line, the pipeline lexer, parser, code
  generator, and the three kinds of output. The file system, LLVM's target, \<^verbatim>\<open>std::system\<close> and
  \<^verbatim>\<open>strerror\<close> are fields of the record \<open>world\<close>; what the program does to the outside is the
  list of its \<open>event\<close>s, and its result is the exit status with that list. An AST pointer of the
  model is never null, so \<^verbatim>\<open>main\<close>'s null check has no branch here.
\<close>

section \<open>The outside world\<close>

datatype event =
    Cout string
  | Cerr string
  | Outs string
  | EmitAsm string "llvm_call list"
  | RunCommand string
  | RemoveFile string
  | WriteFile string string

record world =
  w_files :: "string \<Rightarrow> string option"
  w_ofstream_ok :: "string \<Rightarrow> bool"
  w_triple :: string
  w_lookupTarget :: "string \<Rightarrow> string option"
  w_open_error :: "string \<Rightarrow> string option"
  w_addPasses_fails :: bool
  w_system :: "string \<Rightarrow> int"
  w_print :: "llvm_call list \<Rightarrow> string"
  w_strerror :: "int \<Rightarrow> string"

definition nl :: string where
  "nl = [CHR 0x0A]"

text \<open>\<^verbatim>\<open>EmitAssembly\<close>: \<open>w_lookupTarget\<close> and \<open>w_open_error\<close> give the error text of a failed
  lookup or open, \<open>None\<close> when it works.\<close>

definition EmitAssembly :: "world \<Rightarrow> llvm_call list \<Rightarrow> string \<Rightarrow> bool \<times> event list" where
  "EmitAssembly w module filename =
     (case w_lookupTarget w (w_triple w) of
        Some err \<Rightarrow> (False, [Cerr (''LLVM Target error: '' @ err @ nl)])
      | None \<Rightarrow>
          case w_open_error w filename of
            Some msg \<Rightarrow> (False, [Cerr (''Could not open file: '' @ msg @ nl)])
          | None \<Rightarrow>
              if w_addPasses_fails w then
                (False, [Cerr (''TargetMachine can't emit a file of this type!'' @ nl)])
              else (True, [EmitAsm filename module]))"

section \<open>The command line\<close>

record options =
  input_file :: string
  output_file :: string
  emit_asm :: bool
  emit_exe :: bool

definition default_options :: options where
  "default_options = \<lparr>input_file = '''', output_file = '''', emit_asm = False, emit_exe = False\<rparr>"

definition usage :: "string \<Rightarrow> string" where
  "usage prog = ''Usage: '' @ prog @ '' <input.c> [-o <output>] [--emit-asm] [--emit-exe]'' @ nl"

type_synonym outcome = "nat \<times> event list"

fun parse_args :: "string \<Rightarrow> string list \<Rightarrow> options \<Rightarrow> outcome + options" where
  "parse_args prog [] opts = Inr opts"
| "parse_args prog (arg # args) opts =
     (if arg = ''-h'' \<or> arg = ''--help'' then Inl (0, [Cout (usage prog)])
      else if arg = ''-o'' \<or> arg = ''--output'' then
        (case args of
           f # args' \<Rightarrow> parse_args prog args' (opts\<lparr>output_file := f\<rparr>)
         | [] \<Rightarrow> Inl (1, [Cerr (''Missing argument for '' @ arg @ nl)]))
      else if arg = ''--emit-asm'' then parse_args prog args (opts\<lparr>emit_asm := True\<rparr>)
      else if arg = ''--emit-exe'' then parse_args prog args (opts\<lparr>emit_exe := True\<rparr>)
      else if input_file opts = '''' then parse_args prog args (opts\<lparr>input_file := arg\<rparr>)
      else Inl (1, [Cerr (''Unknown argument: '' @ arg @ nl)]))"

declare parse_args.simps(2) [simp del]

section \<open>The pipeline\<close>

definition stage_error :: "world \<Rightarrow> string \<Rightarrow> error \<Rightarrow> outcome" where
  "stage_error w stage err = (1, [Cerr (stage @ '' error: '' @ Error_to_string (w_strerror w) err @ nl)])"

definition compile :: "world \<Rightarrow> string \<Rightarrow> outcome + llvm_call list" where
  "compile w source =
     (case tokenize source of
        Inl err \<Rightarrow> Inl (stage_error w ''Lexer'' err)
      | Inr tokens \<Rightarrow>
          case fst (Parse (Parser tokens)) of
            Inl err \<Rightarrow> Inl (stage_error w ''Parser'' err)
          | Inr ast \<Rightarrow>
              if \<not> node_IsA ast C_TranslationUnit then
                Inl (1, [Cerr (''Parser did not produce a translation unit'' @ nl)])
              else
                case fst (generate ast) of
                  Inl err \<Rightarrow> Inl (stage_error w ''Codegen'' err)
                | Inr module \<Rightarrow> Inr module)"

section \<open>The outputs\<close>

definition output_exe :: "world \<Rightarrow> string \<Rightarrow> llvm_call list \<Rightarrow> outcome" where
  "output_exe w out module =
     (let asm_file = out @ ''.s'';
          (ok, evs) = EmitAssembly w module asm_file
      in if \<not> ok then (1, evs @ [Cerr (''Failed to emit assembly to '' @ asm_file @ nl)])
         else
           let cmd = ''clang '' @ asm_file @ '' -o '' @ out;
               ret = w_system w cmd;
               evs = evs @ [RunCommand cmd]
           in if ret \<noteq> 0 then (1, evs @ [Cerr (''Linking failed with code '' @ show_int ret @ nl)])
              else (0, evs @ [RemoveFile asm_file, Cout (''Executable written to '' @ out @ nl)]))"

definition output_asm :: "world \<Rightarrow> string \<Rightarrow> llvm_call list \<Rightarrow> outcome" where
  "output_asm w out module =
     (if out = '''' then (1, [Cerr (''Output file required for --emit-asm'' @ nl)])
      else
        let (ok, evs) = EmitAssembly w module out
        in if \<not> ok then (1, evs @ [Cerr (''Failed to emit assembly to '' @ out @ nl)])
           else (0, evs @ [Cout (''Assembly written to '' @ out @ nl)]))"

definition output_ir :: "world \<Rightarrow> string \<Rightarrow> llvm_call list \<Rightarrow> outcome" where
  "output_ir w out module =
     (if out \<noteq> '''' then
        if \<not> w_ofstream_ok w out then (1, [Cerr (''Failed to open output file: '' @ out @ nl)])
        else (0, [WriteFile out (w_print w module)])
      else (0, [Outs (w_print w module)]))"

definition main :: "world \<Rightarrow> string \<Rightarrow> string list \<Rightarrow> outcome" where
  "main w prog args =
     (case parse_args prog args default_options of
        Inl r \<Rightarrow> r
      | Inr opts \<Rightarrow>
          if input_file opts = '''' then (1, [Cerr (''Input file is required.'' @ nl @ usage prog)])
          else
            let out = (if emit_exe opts \<and> output_file opts = '''' then ''a.out'' else output_file opts)
            in case w_files w (input_file opts) of
                 None \<Rightarrow> (1, [Cerr (''Failed to open file: '' @ input_file opts @ nl)])
               | Some source \<Rightarrow>
                   case compile w source of
                     Inl r \<Rightarrow> r
                   | Inr module \<Rightarrow>
                       if emit_exe opts then output_exe w out module
                       else if emit_asm opts then output_asm w out module
                       else output_ir w out module)"

lemmas output_defs = output_exe_def output_asm_def output_ir_def EmitAssembly_def

section \<open>Exit status\<close>

definition clean :: "outcome \<Rightarrow> bool" where
  "clean r \<longleftrightarrow> (fst r = 0 \<or> fst r = 1) \<and> (fst r = 0 \<longleftrightarrow> (\<forall>m. Cerr m \<notin> set (snd r)))"

lemma clean_single [simp]: "clean (Suc 0, [Cerr m])" "clean (0, [Cout m])"
  by (auto simp: clean_def)

lemma clean_append [simp]:
  "clean (Suc 0, evs @ [Cerr m])" "clean (Suc 0, evs @ [e, Cerr m])"
  by (auto simp: clean_def)

lemma clean_parse_args: "parse_args prog args opts = Inl r \<Longrightarrow> clean r"
proof (induction prog args opts rule: parse_args.induct)
  case (2 prog arg args opts)
  consider (usage) "arg = ''-h'' \<or> arg = ''--help''"
    | (out) "\<not> (arg = ''-h'' \<or> arg = ''--help'')" "arg = ''-o'' \<or> arg = ''--output''"
    | (plain) "\<not> (arg = ''-h'' \<or> arg = ''--help'')" "\<not> (arg = ''-o'' \<or> arg = ''--output'')"
    by blast
  then show ?case
  proof cases
    case usage
    then have "parse_args prog (arg # args) opts = Inl (0, [Cout (usage prog)])"
      by (simp only: parse_args.simps simp_thms if_True)
    with 2(5) have "r = (0, [Cout (usage prog)])" by simp
    then show ?thesis by simp
  next
    case out
    then have "parse_args prog (arg # args) opts = (case args of
           f # args' \<Rightarrow> parse_args prog args' (opts\<lparr>output_file := f\<rparr>)
         | [] \<Rightarrow> Inl (1, [Cerr (''Missing argument for '' @ arg @ nl)]))"
      by (simp only: parse_args.simps if_True if_False)
    with 2(5) 2(1) [OF out] show ?thesis by (cases args) auto
  next
    case plain
    then show ?thesis
      using 2(2-5) by (simp only: parse_args.simps if_False)
        (simp split: if_split_asm; hypsubst; simp)
  qed
qed simp

lemma clean_stage_error: "clean (stage_error w stage e)"
  by (simp add: stage_error_def)

lemma clean_compile: "compile w source = Inl r \<Longrightarrow> clean r"
  by (auto simp: compile_def clean_stage_error split: sum.splits if_splits)

lemma EmitAssembly_ok:
  "EmitAssembly w m file = (True, evs) \<Longrightarrow> evs = [EmitAsm file m]"
  by (auto simp: EmitAssembly_def split: option.splits if_splits)

lemma clean_outputs: "clean (output_exe w out m)" "clean (output_asm w out m)" "clean (output_ir w out m)"
proof -
  show "clean (output_exe w out m)"
    by (cases "EmitAssembly w m (out @ ''.s'')"; cases "fst (EmitAssembly w m (out @ ''.s''))")
       (auto simp: output_exe_def Let_def clean_def dest: EmitAssembly_ok)
  show "clean (output_asm w out m)"
    by (cases "EmitAssembly w m out"; cases "fst (EmitAssembly w m out)")
       (auto simp: output_asm_def Let_def clean_def dest: EmitAssembly_ok)
  show "clean (output_ir w out m)"
    by (auto simp: output_ir_def clean_def)
qed

lemma clean_main: "clean (main w prog args)"
proof (cases "parse_args prog args default_options")
  case (Inl r)
  then show ?thesis by (simp add: main_def clean_parse_args)
next
  case (Inr opts)
  then show ?thesis
    by (auto simp add: main_def Let_def clean_outputs split: option.split sum.split
        dest: clean_compile)
qed


section \<open>Tokens as they are spelled\<close>

definition identifier_name :: "string \<Rightarrow> bool" where
  "identifier_name s \<longleftrightarrow>
     (case s of [] \<Rightarrow> False | c # cs \<Rightarrow> (c_isalpha c \<or> c = CHR ''_'') \<and> (\<forall>d \<in> set cs. is_ident_char d))
     \<and> s \<notin> set kKeywords"

text \<open>The texts a token of each type can have: a keyword, an identifier, a symbol of the alphabet, or a
  text that the number rule eats as a whole.\<close>

definition spelled :: "token \<Rightarrow> bool" where
  "spelled tok \<longleftrightarrow>
     (let s = tok_text tok in
      case tok_type tok of
        Keyword \<Rightarrow> s \<in> set kKeywords
      | Identifier \<Rightarrow> identifier_name s
      | ConstantNumberLiteral \<Rightarrow> starts_number s \<and> rest_number s = []
      | Symbol \<Rightarrow> s \<in> (\<lambda>c. [c]) ` set kCSymbols
      | _ \<Rightarrow> False)"

lemma keyword_is_word:
  assumes "s \<in> set kKeywords"
  shows "s \<noteq> [] \<and> c_isalpha (hd s) \<and> (\<forall>d \<in> set (tl s). is_ident_char d)"
proof -
  have "\<forall>s \<in> set kKeywords. s \<noteq> [] \<and> c_isalpha (hd s) \<and> (\<forall>d \<in> set (tl s). is_ident_char d)"
    by (simp add: kKeywords_def is_ident_char_def char_class_defs)
  with assms show ?thesis by blast
qed

lemma spelled_is_token: "spelled tok \<Longrightarrow> is_token (tok_text tok) tok"
proof -
  assume sp: "spelled tok"
  obtain k s where tok: "tok = Token k s" by (cases tok) (auto simp: Token_def)
  show ?thesis
  proof (cases k)
    case Keyword
    then show ?thesis
      using sp tok keyword_is_word [of s] word_is_token [of "hd s" "tl s"]
      by (simp add: word_token_def spelled_def Token_def)
  next
    case Identifier
    then show ?thesis
      using sp tok word_is_token [of "hd s" "tl s"]
      by (cases s) (auto simp: identifier_name_def word_token_def spelled_def Token_def)
  next
    case ConstantNumberLiteral
    then show ?thesis using sp tok number_is_token [of s "[]"] by (simp add: spelled_def Token_def)
  next
    case Symbol
    then show ?thesis using sp tok symbol_is_token by (auto simp: spelled_def Token_def)
  qed (use sp tok in \<open>simp_all add: spelled_def Token_def\<close>)
qed

lemma tokenize_spelled:
  assumes "\<forall>tok \<in> set (map fst tws). spelled tok" "spaced tws"
  shows "tokenize (layout tws) = Inr (map fst tws)"
proof -
  have "\<forall>tok \<in> set (map fst tws). is_token (tok_text tok) tok" using assms(1) spelled_is_token by blast
  with assms(2) show ?thesis by (simp only: tokenize_lex_all lex_all_layout)
qed

section \<open>What compile accepts\<close>

lemma compile_Inr_iff:
  "compile w source = Inr m \<longleftrightarrow>
     (\<exists>ts us r f fs. tokenize source = Inr ts \<and> ts = us @ r \<and> at_end r
        \<and> g_unit (FunctionDeclNode f # fs) us \<and> m = module_for (fn_name f))"
proof (cases "tokenize source")
  case (Inl e)
  then show ?thesis by (simp add: compile_def)
next
  case (Inr ts)
  show ?thesis
  proof (cases "Parser ts" rule: Parse_cases)
    case (ok fs)
    then obtain us r where ts: "ts = us @ r" "at_end r" "g_unit fs us"
      by (auto simp: Parse_Inr_iff)
    have same: "fs' = fs" if "ts = us' @ r'" "at_end r'" "g_unit fs' us'" for fs' us' r'
    proof -
      have "fst (Parse (Parser ts)) = Inr (TranslationUnitNode (TranslationUnit fs'))"
        using that unfolding Parse_Inr_iff by blast
      with ok show ?thesis by simp
    qed
    show ?thesis
    proof (cases fs)
      case Nil
      with ok Inr same show ?thesis
        by (auto simp: compile_def generate_empty AstNodeHelper_IsA_def)
    next
      case (Cons d ds)
      then obtain f where d: "d = FunctionDeclNode f"
        using g_unit_wf [OF ts(3)] by (cases d) auto
      have "m = module_for (fn_name f)"
        if "ts = us' @ r'" "at_end r'" "g_unit (FunctionDeclNode f' # fs') us'" "m = module_for (fn_name f')"
        for us' r' f' fs'
        using same [OF that(1-3)] that(4) Cons d by simp
      moreover have "compile w source = Inr (module_for (fn_name f))"
        using ok Inr Cons d by (simp add: compile_def generate_function AstNodeHelper_IsA_def)
      ultimately show ?thesis using ts Cons d Inr by auto
    qed
  next
    case (error e)
    then have no: "\<not> (\<exists>fs us r. ts = us @ r \<and> at_end r \<and> g_unit fs us)"
      using Parse_Inr_iff [of ts] by fastforce
    from error Inr have "compile w source = Inl (stage_error w ''Parser'' e)" by (simp add: compile_def)
    with no Inr show ?thesis by auto
  qed
qed


lemma compile_layout:
  assumes "g_unit (FunctionDeclNode d # fs) (map fst tws)" "\<forall>tok \<in> set (map fst tws). spelled tok" "spaced tws"
  shows "compile w (layout tws) = Inr (module_for (fn_name d))"
  unfolding compile_Inr_iff
  using assms(1) tokenize_spelled [OF assms(2,3)]
  by (intro exI [of _ "map fst tws"] exI [of _ "[]"] exI [of _ d] exI [of _ fs]) (simp add: at_end_def)

section \<open>The properties of the driver\<close>

definition option_like :: "string \<Rightarrow> bool" where
  "option_like s \<longleftrightarrow> s \<in> {''-h'', ''--help'', ''-o'', ''--output'', ''--emit-asm'', ''--emit-exe''}"

lemma parse_args_file:
  "\<not> option_like f \<Longrightarrow> f \<noteq> '''' \<Longrightarrow> input_file opts = '''' \<Longrightarrow>
     parse_args prog (f # args) opts = parse_args prog args (opts\<lparr>input_file := f\<rparr>)"
  by (simp add: option_like_def parse_args.simps(2))

lemma main_single_file:
  assumes "\<not> option_like f" "f \<noteq> ''''" "w_files w f = Some source"
  shows "main w prog [f] = (case compile w source of Inl r \<Rightarrow> r | Inr m \<Rightarrow> (0, [Outs (w_print w m)]))"
  using assms parse_args_file [of f default_options prog "[]"]
  by (cases "compile w source") (simp_all add: main_def default_options_def output_ir_def)

text \<open>
  The driver always returns, with status 0 or 1, and it returns 0 exactly when it has
  written nothing to \<^verbatim>\<open>std::cerr\<close>: every failure is reported, and nothing is reported on success.
\<close>
theorem main_exit_status:
  "(fst (main w prog args) = 0 \<or> fst (main w prog args) = 1)
   \<and> (fst (main w prog args) = 0 \<longleftrightarrow> (\<forall>m. Cerr m \<notin> set (snd (main w prog args))))"
  using clean_main [of w prog args] unfolding clean_def .

text \<open>
  C1. On a readable source file and no other option, the driver exits with 0 exactly when the
  source consists of characters of the alphabet and its tokens are one or more functions of the
  grammar; it then prints the module of the first one.
\<close>
theorem main_accepts:
  assumes "\<not> option_like f" "f \<noteq> ''''" "w_files w f = Some source"
  shows "main w prog [f] = (0, evs) \<longleftrightarrow>
    (\<exists>us r d fs. tokenize source = Inr (us @ r) \<and> at_end r \<and> g_unit (FunctionDeclNode d # fs) us
       \<and> evs = [Outs (w_print w (module_for (fn_name d)))])"
proof -
  have one: "main w prog [f] = (0, evs) \<longleftrightarrow> (\<exists>m. compile w source = Inr m \<and> evs = [Outs (w_print w m)])"
  proof (cases "compile w source")
    case (Inl r)
    then have "fst r \<noteq> 0"
      by (auto simp: compile_def stage_error_def split: sum.splits if_splits)
    with Inl show ?thesis by (cases r) (simp add: main_single_file [OF assms])
  next
    case (Inr m)
    then show ?thesis by (auto simp: main_single_file [OF assms])
  qed
  show ?thesis unfolding one compile_Inr_iff by blast
qed

text \<open>
  C18. End to end: any sequence of tokens that the grammar derives, with whatever keywords, identifiers
  and constants as the lexer spells them, written down with any white space after each token, is
  compiled, and the module is that of the first function.
\<close>
theorem main_compiles_printed:
  assumes "g_unit (FunctionDeclNode d # fs) (map fst tws)" "\<forall>tok \<in> set (map fst tws). spelled tok" "spaced tws"
    "\<not> option_like f" "f \<noteq> ''''" "w_files w f = Some (layout tws)"
  shows "main w prog [f] = (0, [Outs (w_print w (module_for (fn_name d)))])"
  by (simp add: main_single_file [OF assms(4-6)] compile_layout [OF assms(1-3)])

text \<open>
  A source with a character outside the alphabet makes the driver exit with 1 after the one
  message that names the lexer's error location and the first such character.
\<close>
theorem main_lexer_error:
  assumes "\<not> option_like f" "f \<noteq> ''''" "w_files w f = Some source"
    and "find (\<lambda>c. \<not> lexable c) source = Some c"
  shows "main w prog [f] = (1, [Cerr (''Lexer error: Error @c_frontend/lib/lexer.cpp:115, details: ''
    @ ''Invalid character in input: '' @ [CHR 0x27, c, CHR 0x27] @ nl)])"
proof -
  have "tokenize source = Inl (invalid_character c)"
    using lex_all_find [of source] assms(4) by (simp add: tokenize_lex_all)
  then show ?thesis
    by (simp add: main_single_file [OF assms(1-3)] compile_def stage_error_def Error_to_string_def
        invalid_character_def TCPP_MAKE_ERROR_def show_nat.simps digit_chars)
qed

text \<open>
  With \<^verbatim>\<open>--emit-exe\<close> a successful run writes the assembly beside the output, runs \<^verbatim>\<open>clang\<close> on
  it, removes it and reports the executable, in this order; \<^verbatim>\<open>--emit-asm\<close> changes nothing, and
  without \<^verbatim>\<open>-o\<close> the output is \<^verbatim>\<open>a.out\<close>. When linking fails the assembly file stays.
\<close>
theorem main_emit_exe:
  assumes "parse_args prog args default_options = Inr opts" "emit_exe opts" "input_file opts \<noteq> ''''"
    "w_files w (input_file opts) = Some source" "compile w source = Inr m"
    and out: "out = (if output_file opts = '''' then ''a.out'' else output_file opts)"
    and ok: "EmitAssembly w m (out @ ''.s'') = (True, evs)"
  shows "main w prog args =
    (let cmd = ''clang '' @ out @ ''.s'' @ '' -o '' @ out; ret = w_system w cmd
     in if ret = 0 then
          (0, [EmitAsm (out @ ''.s'') m, RunCommand cmd, RemoveFile (out @ ''.s''),
               Cout (''Executable written to '' @ out @ nl)])
        else (1, [EmitAsm (out @ ''.s'') m, RunCommand cmd,
                  Cerr (''Linking failed with code '' @ show_int ret @ nl)]))"
proof -
  have "main w prog args = output_exe w out m"
    using assms(1-5) out by (simp add: main_def)
  then show ?thesis
    using ok EmitAssembly_ok [OF ok] by (simp add: output_exe_def Let_def)
qed

definition render_options :: "options \<Rightarrow> string list" where
  "render_options opts =
     [input_file opts] @ (if output_file opts = '''' then [] else [''-o'', output_file opts])
     @ (if emit_asm opts then [''--emit-asm''] else []) @ (if emit_exe opts then [''--emit-exe''] else [])"

text \<open>
  Command lines and options: the input file, then \<^verbatim>\<open>-o\<close> with the output file if there is one,
  then the flags that are set, is read back as the same options.
\<close>
theorem parse_args_render:
  assumes "\<not> option_like (input_file opts)" "input_file opts \<noteq> ''''"
  shows "parse_args prog (render_options opts) default_options = Inr opts"
proof -
  let ?o = "default_options\<lparr>input_file := input_file opts\<rparr>"
  have "parse_args prog (render_options opts) default_options
      = parse_args prog (tl (render_options opts)) ?o"
    using parse_args_file [OF assms, of default_options prog "tl (render_options opts)"]
    by (simp add: render_options_def default_options_def)
  also have "\<dots> = Inr (?o\<lparr>output_file := output_file opts, emit_asm := emit_asm opts,
      emit_exe := emit_exe opts\<rparr>)"
    by (cases "output_file opts = ''''"; cases "emit_asm opts"; cases "emit_exe opts")
       (simp_all add: render_options_def parse_args.simps(2) default_options_def)
  finally show ?thesis by (simp add: default_options_def)
qed


section \<open>Witnesses\<close>

text \<open>\<^verbatim>\<open>int main() { int x = 0x1F; x = y; return 42; } void g() { }\<close>\<close>

definition sample_program :: "(token \<times> string) list" where
  "sample_program = map (\<lambda>tok. (tok, '' ''))
     [Token Keyword ''int'', Token Identifier ''main'', sym CHR ''('', sym CHR '')'', sym CHR ''{'',
      Token Keyword ''int'', Token Identifier ''x'', sym CHR ''='', Token ConstantNumberLiteral ''0x1F'', sym CHR '';'',
      Token Identifier ''x'', sym CHR ''='', Token Identifier ''y'', sym CHR '';'',
      Token Keyword ''return'', Token ConstantNumberLiteral ''42'', sym CHR '';'', sym CHR ''}'',
      Token Keyword ''void'', Token Identifier ''g'', sym CHR ''('', sym CHR '')'', sym CHR ''{'', sym CHR ''}'']"

definition sample_functions :: "function_decl \<times> ast_node list" where
  "sample_functions =
     (FunctionDecl (TypeSpecifier ''int'') ''main'' []
        [VarDeclNode (VarDecl (TypeSpecifier ''int'') ''x'' (Some AstNode)),
         AssignmentExprNode (AssignmentExpr ''x'' (Some AstNode)),
         AssignmentExprNode (AssignmentExpr ''return'' (Some AstNode))],
      [FunctionDeclNode (FunctionDecl (TypeSpecifier ''void'') ''g'' [] [])])"

definition sample_world :: world where
  "sample_world =
     \<lparr>w_files = (\<lambda>f. if f = ''a.c'' then Some (layout sample_program)
                   else if f = ''b.c'' then Some ''a @ b'' else None),
      w_ofstream_ok = (\<lambda>_. True), w_triple = ''aarch64'', w_lookupTarget = (\<lambda>_. None),
      w_open_error = (\<lambda>_. None), w_addPasses_fails = False, w_system = (\<lambda>_. 0),
      w_print = (\<lambda>_. ''ir''), w_strerror = (\<lambda>_. '''')\<rparr>"

lemma sample_program_ok:
  "g_unit (FunctionDeclNode (fst sample_functions) # snd sample_functions) (map fst sample_program)"
  "\<forall>tok \<in> set (map fst sample_program). spelled tok" "spaced sample_program"
proof -
  have "fst (Parse (Parser (map fst sample_program)))
      = Inr (TranslationUnitNode (TranslationUnit (FunctionDeclNode (fst sample_functions) # snd sample_functions)))"
    by (simp add: sample_program_def sample_functions_def Parse_def ParseDecls.simps ParseFunction_def ParseVarDecl_def
        ParseInit_def ParseAssignment_def ParseBody.simps ParseStatement_def ParseReturn_def ParseExpr_def Parser_def at_def
        cur_def advance_def IsTypeKeyword_def IsIdentifier_def IsReturn_def IsConstant_def has_text_def sym_def result_simps)
  then obtain us r where u: "map fst sample_program = us @ r" "at_end r"
    "g_unit (FunctionDeclNode (fst sample_functions) # snd sample_functions) us" unfolding Parse_Inr_iff by blast
  have "\<forall>t \<in> set (map fst sample_program). tok_type t \<noteq> EndOfFile" by (simp add: sample_program_def sym_def)
  with u(1,2) have "r = []" by (cases r) (auto simp: at_end_def)
  with u show "g_unit (FunctionDeclNode (fst sample_functions) # snd sample_functions) (map fst sample_program)" by simp
  show "\<forall>tok \<in> set (map fst sample_program). spelled tok"
    by (simp add: sample_program_def spelled_def sym_def kKeywords_def kCSymbols_def identifier_name_def is_ident_char_def
        char_class_defs rest_number_def is_digit_for_base_def is_suffix_char_def Let_def)
  show "spaced sample_program" by (auto simp: sample_program_def spaced_def c_isspace_def)
qed

lemma sample_compiles: "compile w (layout sample_program) = Inr (module_for ''main'')"
  using compile_layout [OF sample_program_ok, of w] by (simp add: sample_functions_def)

lemma main_accepts_witness:
  "main sample_world ''cc'' [''b.c''] = (0, []) \<longleftrightarrow>
    (\<exists>us r d fs. tokenize ''a @ b'' = Inr (us @ r) \<and> at_end r \<and> g_unit (FunctionDeclNode d # fs) us
       \<and> [] = [Outs (w_print sample_world (module_for (fn_name d)))])"
  by (rule main_accepts) (simp_all add: option_like_def sample_world_def)

lemma main_compiles_printed_witness:
  "main sample_world ''cc'' [''a.c''] = (0, [Outs (w_print sample_world (module_for ''main''))])"
  using main_compiles_printed [OF sample_program_ok, of "''a.c''" sample_world "''cc''"]
  by (simp add: option_like_def sample_world_def sample_functions_def)

lemma main_lexer_error_witness:
  "main sample_world ''cc'' [''b.c''] = (1, [Cerr (''Lexer error: Error @c_frontend/lib/lexer.cpp:115, details: ''
    @ ''Invalid character in input: '' @ [CHR 0x27, CHR ''@'', CHR 0x27] @ nl)])"
  by (rule main_lexer_error [where source = "''a @ b''"])
     (simp_all add: option_like_def sample_world_def lexable_def is_ident_char_def kCSymbols_def
        char_class_defs)

lemma main_emit_exe_witness:
  "fst (main sample_world ''cc'' [''a.c'', ''--emit-exe'']) = 0"
proof -
  let ?o = "default_options\<lparr>input_file := ''a.c'', emit_exe := True\<rparr>"
  have "main sample_world ''cc'' [''a.c'', ''--emit-exe''] =
    (let cmd = ''clang '' @ ''a.out'' @ ''.s'' @ '' -o '' @ ''a.out''; ret = w_system sample_world cmd
     in if ret = 0 then
          (0, [EmitAsm (''a.out'' @ ''.s'') (module_for ''main''), RunCommand cmd,
               RemoveFile (''a.out'' @ ''.s''), Cout (''Executable written to '' @ ''a.out'' @ nl)])
        else (1, [EmitAsm (''a.out'' @ ''.s'') (module_for ''main''), RunCommand cmd,
                  Cerr (''Linking failed with code '' @ show_int ret @ nl)]))"
  proof (rule main_emit_exe [where opts = ?o and source = "layout sample_program"])
    show "compile sample_world (layout sample_program) = Inr (module_for ''main'')"
      by (rule sample_compiles)
  qed (simp_all add: parse_args.simps(2) default_options_def sample_world_def EmitAssembly_def)
  then show ?thesis by (simp add: sample_world_def Let_def)
qed

lemma parse_args_render_witness:
  "parse_args ''cc'' (render_options \<lparr>input_file = ''a.c'', output_file = ''x'', emit_asm = True, emit_exe = False\<rparr>)
     default_options = Inr \<lparr>input_file = ''a.c'', output_file = ''x'', emit_asm = True, emit_exe = False\<rparr>"
  by (rule parse_args_render) (simp_all add: option_like_def)

end
