(* ===== verification/Core_SmallFunction.thy ===== *)
theory Core_SmallFunction
  imports Machine
begin

text \<open>
  \<^verbatim>\<open>src/core/small_type_erased_base.h\<close> and \<^verbatim>\<open>small_function.h\<close>. The objects live in a store from
  addresses to their fields, since the assignment operators are about two objects that may be
  the same. The buffer \<^verbatim>\<open>data_\<close> is raw memory or holds a live target: the type it was
  constructed with (a number) and its value, \<open>None\<close> after it has been moved from. The function
  pointers \<^verbatim>\<open>policy_\<close> and \<^verbatim>\<open>caller_\<close> are null or stand for the instantiation at one type.
  Reading a target that is not there is \<open>Undefined\<close>.
\<close>

section \<open>Objects and store\<close>

datatype 'v slot = Raw | Live nat "'v option"

record 'v fn =
  data :: "'v slot"
  policy :: "nat option"
  caller :: "nat option"

record 'v store =
  objs :: "nat \<Rightarrow> 'v fn option"
  called :: "'v list"

definition empty_fn :: "'v fn" where
  "empty_fn = \<lparr>data = Raw, policy = None, caller = None\<rparr>"

definition get_obj :: "nat \<Rightarrow> 'v store \<Rightarrow> fault + 'v fn" where
  "get_obj a s =
     (case objs s a of Some x \<Rightarrow> Inr x | None \<Rightarrow> Inl (Undefined ''object outside its lifetime''))"

definition put :: "nat \<Rightarrow> 'v fn \<Rightarrow> 'v store \<Rightarrow> 'v store" where
  "put a x s = s\<lparr>objs := (objs s)(a \<mapsto> x)\<rparr>"

definition read_slot :: "nat \<Rightarrow> 'v slot \<Rightarrow> fault + 'v option" where
  "read_slot t sl =
     (case sl of
        Live t' v \<Rightarrow> if t = t' then Inr v else Inl (Undefined ''object of another type'')
      | Raw \<Rightarrow> Inl (Undefined ''no object in the buffer''))"

section \<open>The policy function of a target type\<close>

text \<open>\<^verbatim>\<open>__Policy::Apply(dest, move_src, copy_src)\<close>; the arguments are addresses of the objects
  whose buffers are passed.\<close>

definition policy_apply :: "nat \<Rightarrow> nat \<Rightarrow> nat option \<Rightarrow> nat option \<Rightarrow> 'v store \<Rightarrow> fault + 'v store" where
  "policy_apply t dest move_src copy_src s =
     bind_res (get_obj dest s) (\<lambda>d.
       case move_src of
         Some m \<Rightarrow>
           bind_res (get_obj m s) (\<lambda>r.
           bind_res (read_slot t (data r)) (\<lambda>v.
             let s = put m (r\<lparr>data := Live t None\<rparr>) s;
                 d = (if m = dest then r else d)
             in Inr (put dest (d\<lparr>data := Live t v\<rparr>) s)))
       | None \<Rightarrow>
           (case copy_src of
              Some c \<Rightarrow>
                bind_res (get_obj c s) (\<lambda>r.
                bind_res (read_slot t (data r)) (\<lambda>v. Inr (put dest (d\<lparr>data := Live t v\<rparr>) s)))
            | None \<Rightarrow>
                bind_res (read_slot t (data d)) (\<lambda>_. Inr (put dest (d\<lparr>data := Raw\<rparr>) s))))"

section \<open>SmallTypeErasedBase\<close>

definition destruct :: "nat \<Rightarrow> 'v store \<Rightarrow> fault + 'v store" where
  "destruct a s =
     bind_res (get_obj a s) (\<lambda>x.
       case policy x of
         None \<Rightarrow> Inr s
       | Some t \<Rightarrow>
           bind_res (policy_apply t a None None s) (\<lambda>s.
           bind_res (get_obj a s) (\<lambda>x. Inr (put a (x\<lparr>policy := None\<rparr>) s))))"

definition has_value :: "'v fn \<Rightarrow> bool" where
  "has_value x \<longleftrightarrow> policy x \<noteq> None"

text \<open>The constructors work on storage \<open>a\<close> that holds no object yet.\<close>

definition base_copy_ctor :: "nat \<Rightarrow> nat \<Rightarrow> 'v store \<Rightarrow> fault + 'v store" where
  "base_copy_ctor a r s =
     bind_res (get_obj r s) (\<lambda>y.
       let s = put a (empty_fn\<lparr>policy := policy y\<rparr>) s in
       case policy y of None \<Rightarrow> Inr s | Some t \<Rightarrow> policy_apply t a None (Some r) s)"

definition base_move_ctor :: "nat \<Rightarrow> nat \<Rightarrow> 'v store \<Rightarrow> fault + 'v store" where
  "base_move_ctor a r s =
     bind_res (get_obj r s) (\<lambda>y.
       let s = put a (empty_fn\<lparr>policy := policy y\<rparr>) s in
       case policy y of None \<Rightarrow> Inr s | Some t \<Rightarrow> policy_apply t a (Some r) None s)"

definition base_target_ctor :: "nat \<Rightarrow> nat \<Rightarrow> 'v \<Rightarrow> 'v store \<Rightarrow> 'v store" where
  "base_target_ctor a t v s = put a (empty_fn\<lparr>data := Live t (Some v), policy := Some t\<rparr>) s"

text \<open>The copy assignment passes its own buffer as the copy source, as the code does.\<close>

definition base_copy_assign :: "nat \<Rightarrow> nat \<Rightarrow> 'v store \<Rightarrow> fault + 'v store" where
  "base_copy_assign a r s =
     bind_res (destruct a s) (\<lambda>s.
     bind_res (get_obj r s) (\<lambda>y.
     bind_res (get_obj a s) (\<lambda>x.
       let s = put a (x\<lparr>policy := policy y\<rparr>) s in
       case policy y of None \<Rightarrow> Inr s | Some t \<Rightarrow> policy_apply t a None (Some a) s)))"

definition base_move_assign :: "nat \<Rightarrow> nat \<Rightarrow> 'v store \<Rightarrow> fault + 'v store" where
  "base_move_assign a r s =
     bind_res (destruct a s) (\<lambda>s.
     bind_res (get_obj r s) (\<lambda>y.
     bind_res (get_obj a s) (\<lambda>x.
       let s = put a (x\<lparr>policy := policy y\<rparr>) s in
       case policy y of None \<Rightarrow> Inr s | Some t \<Rightarrow> policy_apply t a (Some r) None s)))"

text \<open>The destructor, and \<^verbatim>\<open>operator=(F&&)\<close> by way of a temporary at address \<open>tmp\<close>. A target type is
  accepted when it fits the buffer.\<close>

definition base_destroy :: "nat \<Rightarrow> 'v store \<Rightarrow> fault + 'v store" where
  "base_destroy a s = bind_res (destruct a s) (\<lambda>s. Inr (s\<lparr>objs := (objs s)(a := None)\<rparr>))"

definition base_assign_target :: "nat \<Rightarrow> nat \<Rightarrow> nat \<Rightarrow> 'v \<Rightarrow> 'v store \<Rightarrow> fault + 'v store" where
  "base_assign_target a tmp t v s =
     bind_res (base_move_assign a tmp (base_target_ctor tmp t v s)) (base_destroy tmp)"

definition GetMaxObjectSize :: "nat \<Rightarrow> nat" where
  "GetMaxObjectSize kMaxObjectSize = kMaxObjectSize"

definition CanStore :: "nat \<Rightarrow> nat \<Rightarrow> bool" where
  "CanStore kMaxObjectSize size_of_F \<longleftrightarrow> size_of_F \<le> kMaxObjectSize"

section \<open>SmallFunction\<close>

definition set_caller :: "nat \<Rightarrow> nat option \<Rightarrow> 'v store \<Rightarrow> fault + 'v store" where
  "set_caller a c s = bind_res (get_obj a s) (\<lambda>x. Inr (put a (x\<lparr>caller := c\<rparr>) s))"

definition copy_caller :: "nat \<Rightarrow> nat \<Rightarrow> 'v store \<Rightarrow> fault + 'v store" where
  "copy_caller a r s = bind_res (get_obj r s) (\<lambda>y. set_caller a (caller y) s)"

definition sf_default :: "nat \<Rightarrow> 'v store \<Rightarrow> fault + 'v store" where
  "sf_default a s = Inr (put a empty_fn s)"

definition sf_target_ctor :: "nat \<Rightarrow> nat \<Rightarrow> 'v \<Rightarrow> 'v store \<Rightarrow> fault + 'v store" where
  "sf_target_ctor a t v s = set_caller a (Some t) (base_target_ctor a t v s)"

definition sf_copy_ctor :: "nat \<Rightarrow> nat \<Rightarrow> 'v store \<Rightarrow> fault + 'v store" where
  "sf_copy_ctor a r s = bind_res (base_copy_ctor a r s) (copy_caller a r)"

definition sf_move_ctor :: "nat \<Rightarrow> nat \<Rightarrow> 'v store \<Rightarrow> fault + 'v store" where
  "sf_move_ctor a r s =
     bind_res (base_move_ctor a r s) (\<lambda>s. bind_res (copy_caller a r s) (set_caller r None))"

definition sf_copy_assign :: "nat \<Rightarrow> nat \<Rightarrow> 'v store \<Rightarrow> fault + 'v store" where
  "sf_copy_assign a r s = bind_res (base_copy_assign a r s) (copy_caller a r)"

definition sf_move_assign :: "nat \<Rightarrow> nat \<Rightarrow> 'v store \<Rightarrow> fault + 'v store" where
  "sf_move_assign a r s =
     bind_res (base_move_assign a r s) (\<lambda>s. bind_res (copy_caller a r s) (set_caller r None))"

definition sf_destroy :: "nat \<Rightarrow> 'v store \<Rightarrow> fault + 'v store" where
  "sf_destroy a s =
     bind_res (set_caller a None s) (\<lambda>s.
     bind_res (destruct a s) (\<lambda>s. Inr (s\<lparr>objs := (objs s)(a := None)\<rparr>)))"

text \<open>\<^verbatim>\<open>operator=(F&&)\<close>: a temporary at address \<open>tmp\<close> is built, moved from and destroyed.\<close>

definition sf_assign_target :: "nat \<Rightarrow> nat \<Rightarrow> nat \<Rightarrow> 'v \<Rightarrow> 'v store \<Rightarrow> fault + 'v store" where
  "sf_assign_target a tmp t v s =
     bind_res (sf_target_ctor tmp t v s) (\<lambda>s.
     bind_res (sf_move_assign a tmp s) (sf_destroy tmp))"

definition HasTarget :: "'v fn \<Rightarrow> bool" where
  "HasTarget x \<longleftrightarrow> caller x \<noteq> None"

text \<open>A call runs the target: the model logs its value.\<close>

definition sf_call :: "nat \<Rightarrow> 'v store \<Rightarrow> fault + 'v store" where
  "sf_call a s =
     bind_res (get_obj a s) (\<lambda>x.
       case caller x of
         None \<Rightarrow> Inl (Undefined ''call through a null pointer'')
       | Some t \<Rightarrow>
           bind_res (read_slot t (data x)) (\<lambda>v.
             case v of None \<Rightarrow> Inl (Undefined ''call of a moved-from target'')
             | Some v \<Rightarrow> Inr (s\<lparr>called := called s @ [v]\<rparr>)))"

datatype 'v sf_op =
    Default nat
  | FromTarget nat nat 'v
  | CopyCtor nat nat
  | MoveCtor nat nat
  | CopyAssign nat nat
  | MoveAssign nat nat
  | AssignTarget nat nat nat 'v
  | Destroy nat
  | Call nat

fun sf_step :: "'v sf_op \<Rightarrow> 'v store \<Rightarrow> fault + 'v store" where
  "sf_step (Default a) = sf_default a"
| "sf_step (FromTarget a t v) = sf_target_ctor a t v"
| "sf_step (CopyCtor a r) = sf_copy_ctor a r"
| "sf_step (MoveCtor a r) = sf_move_ctor a r"
| "sf_step (CopyAssign a r) = sf_copy_assign a r"
| "sf_step (MoveAssign a r) = sf_move_assign a r"
| "sf_step (AssignTarget a tmp t v) = sf_assign_target a tmp t v"
| "sf_step (Destroy a) = sf_destroy a"
| "sf_step (Call a) = sf_call a"

section \<open>The contract\<close>

text \<open>An object is well formed when its pointers agree with its buffer.\<close>

fun wf_fn :: "'v fn \<Rightarrow> bool" where
  "wf_fn x = (case policy x of
      None \<Rightarrow> data x = Raw \<and> caller x = None
    | Some t \<Rightarrow> (case data x of
          Raw \<Rightarrow> False
        | Live t' v \<Rightarrow> t' = t \<and> (case caller x of None \<Rightarrow> True | Some c \<Rightarrow> c = t \<and> v \<noteq> None)))"

definition sf_inv :: "'v store \<Rightarrow> bool" where
  "sf_inv s \<longleftrightarrow> (\<forall>a x. objs s a = Some x \<longrightarrow> wf_fn x)"

text \<open>What a client has to respect: lifetimes, no call without a target, and no copy assignment
  from an object that holds something.\<close>

fun sf_pre :: "'v sf_op \<Rightarrow> 'v store \<Rightarrow> bool" where
  "sf_pre (Default a) s = (objs s a = None)"
| "sf_pre (FromTarget a t v) s = (objs s a = None)"
| "sf_pre (CopyCtor a r) s = (objs s a = None \<and> objs s r \<noteq> None)"
| "sf_pre (MoveCtor a r) s = (objs s a = None \<and> objs s r \<noteq> None)"
| "sf_pre (CopyAssign a r) s =
     (objs s a \<noteq> None \<and> (\<exists>y. objs s r = Some y \<and> \<not> has_value y))"
| "sf_pre (MoveAssign a r) s = (objs s a \<noteq> None \<and> objs s r \<noteq> None)"
| "sf_pre (AssignTarget a tmp t v) s = (objs s a \<noteq> None \<and> objs s tmp = None)"
| "sf_pre (Destroy a) s = (objs s a \<noteq> None)"
| "sf_pre (Call a) s = (\<exists>x. objs s a = Some x \<and> HasTarget x)"

text \<open>The abstraction: each object has a callable target or none; a move empties its source, and
  the copy assignment, where it is defined at all, empties its destination.\<close>

definition target :: "'v fn \<Rightarrow> 'v option" where
  "target x = (case caller x of None \<Rightarrow> None | Some _ \<Rightarrow> (case data x of Raw \<Rightarrow> None | Live _ v \<Rightarrow> v))"

type_synonym 'v afns = "(nat \<Rightarrow> 'v option option) \<times> 'v list"

definition sf_abs :: "'v store \<Rightarrow> 'v afns" where
  "sf_abs s = (\<lambda>a. map_option target (objs s a), called s)"

fun sf_astep :: "'v sf_op \<Rightarrow> 'v afns \<Rightarrow> 'v afns" where
  "sf_astep (Default a) (m, l) = (m(a \<mapsto> None), l)"
| "sf_astep (FromTarget a t v) (m, l) = (m(a \<mapsto> Some v), l)"
| "sf_astep (CopyCtor a r) (m, l) = (m(a := m r), l)"
| "sf_astep (MoveCtor a r) (m, l) = (m(a := m r, r \<mapsto> None), l)"
| "sf_astep (CopyAssign a r) (m, l) = (m(a \<mapsto> None), l)"
| "sf_astep (MoveAssign a r) (m, l) = (m(a := m r, r \<mapsto> None), l)"
| "sf_astep (AssignTarget a tmp t v) (m, l) = (m(a \<mapsto> Some v), l)"
| "sf_astep (Destroy a) (m, l) = (m(a := None), l)"
| "sf_astep (Call a) (m, l) = (m, l @ [the (the (m a))])"


section \<open>Every operation, computed\<close>

lemma get_obj_eq [simp]: "objs s a = Some x \<Longrightarrow> get_obj a s = Inr x"
  by (simp add: get_obj_def)

declare put_def [simp] Let_def [simp]

lemma read_slot_simps [simp]:
  "read_slot t (Live t v) = Inr v" "read_slot t Raw = Inl (Undefined ''no object in the buffer'')"
  by (simp_all add: read_slot_def)

definition emptied :: "'v fn \<Rightarrow> 'v fn" where
  "emptied y = y\<lparr>data := (case data y of Raw \<Rightarrow> Raw | Live t _ \<Rightarrow> Live t None), caller := None\<rparr>"

lemma wf_fn_cases:
  assumes "wf_fn x"
  obtains (empty) "x = empty_fn"
  | (moved) t v where "x = \<lparr>data = Live t v, policy = Some t, caller = None\<rparr>"
  | (full) t v where "x = \<lparr>data = Live t (Some v), policy = Some t, caller = Some t\<rparr>"
proof -
  obtain d p c where x: "x = \<lparr>data = d, policy = p, caller = c\<rparr>" by (cases x)
  show ?thesis
  proof (cases p)
    case None
    with assms x show ?thesis by (intro empty) (simp add: empty_fn_def)
  next
    case (Some t)
    with assms x obtain v where d: "d = Live t v" by (cases d) simp_all
    show ?thesis
    proof (cases c)
      case None
      with x Some d show ?thesis by (intro moved) simp
    next
      case (Some c')
      with assms x \<open>p = Some t\<close> d obtain w where "c' = t" "v = Some w" by auto
      with x Some \<open>p = Some t\<close> d show ?thesis by (intro full) simp
    qed
  qed
qed

lemma fn_overwritten [simp]:
  fixes x :: "'v fn"
  shows "x\<lparr>data := d, policy := p, caller := c\<rparr> = \<lparr>data = d, policy = p, caller = c\<rparr>"
    "x\<lparr>policy := p, data := d, caller := c\<rparr> = \<lparr>data = d, policy = p, caller = c\<rparr>"
  by (cases x; simp)+

lemma wf_parts:
  "wf_fn empty_fn" "target empty_fn = None" "wf_fn x \<Longrightarrow> wf_fn (emptied x)" "target (emptied x) = None"
proof -
  show "wf_fn empty_fn" "target empty_fn = None" "target (emptied x) = None"
    by (simp_all add: empty_fn_def target_def emptied_def)
  assume "wf_fn x"
  then show "wf_fn (emptied x)"
    by (cases rule: wf_fn_cases) (simp_all add: emptied_def empty_fn_def)
qed

lemma objs_idem: "objs s a = Some x \<Longrightarrow> (objs s)(a \<mapsto> x) = objs s"
  by (simp add: fun_upd_idem)

lemma destruct_eq:
  assumes "objs s a = Some x" "wf_fn x"
  shows "destruct a s = Inr (s\<lparr>objs := (objs s)(a \<mapsto> x\<lparr>data := Raw, policy := None\<rparr>)\<rparr>)"
  using assms(2)
proof (cases rule: wf_fn_cases)
  case empty
  with assms(1) objs_idem [OF assms(1)] show ?thesis by (simp add: destruct_def empty_fn_def)
qed (simp_all add: destruct_def policy_apply_def assms(1))

lemma move_assign_eq:
  assumes "objs s a = Some x" "wf_fn x" "objs s r = Some y" "wf_fn y" "a \<noteq> r"
  shows "sf_move_assign a r s = Inr (s\<lparr>objs := (objs s)(a \<mapsto> y, r \<mapsto> emptied y)\<rparr>)"
  using assms(4)
  by (cases rule: wf_fn_cases)
     (simp_all add: sf_move_assign_def base_move_assign_def destruct_eq [OF assms(1,2)] assms(3,5)
        assms(5) [symmetric] copy_caller_def set_caller_def policy_apply_def empty_fn_def emptied_def
        fun_upd_twist [OF assms(5)])

lemma base_assign_target_eq:
  assumes "objs s a = Some x" "wf_fn x" "objs s tmp = None"
  shows "base_assign_target a tmp t v s
    = Inr (s\<lparr>objs := (objs s)(a \<mapsto> \<lparr>data = Live t (Some v), policy = Some t, caller = caller x\<rparr>, tmp := None)\<rparr>)"
proof -
  have ne: "a \<noteq> tmp" using assms by auto
  let ?s = "base_target_ctor tmp t v s"
  have a: "objs ?s a = Some x" using assms(1) ne by (simp add: base_target_ctor_def)
  show ?thesis
    using ne
    by (cases x, simp add: base_assign_target_def base_move_assign_def destruct_eq [OF a assms(2)])
       (simp add: base_target_ctor_def empty_fn_def policy_apply_def base_destroy_def destruct_def fun_upd_twist [OF ne])
qed

lemma move_assign_self:
  assumes "objs s a = Some x" "wf_fn x"
  shows "sf_move_assign a a s = Inr (s\<lparr>objs := (objs s)(a \<mapsto> empty_fn)\<rparr>)"
  by (simp add: sf_move_assign_def base_move_assign_def destruct_eq [OF assms] copy_caller_def
      set_caller_def empty_fn_def)

lemma move_ctor_eq:
  assumes "objs s a = None" "objs s r = Some y" "wf_fn y"
  shows "sf_move_ctor a r s = Inr (s\<lparr>objs := (objs s)(a \<mapsto> y, r \<mapsto> emptied y)\<rparr>)"
proof -
  have ne: "a \<noteq> r" using assms(1,2) by auto
  from assms(3) show ?thesis
    by (cases rule: wf_fn_cases)
       (simp_all add: sf_move_ctor_def base_move_ctor_def assms(2) ne ne [symmetric] copy_caller_def
          set_caller_def policy_apply_def empty_fn_def emptied_def fun_upd_twist [OF ne])
qed

lemma copy_ctor_eq:
  assumes "objs s a = None" "objs s r = Some y" "wf_fn y"
  shows "sf_copy_ctor a r s = Inr (s\<lparr>objs := (objs s)(a \<mapsto> y)\<rparr>)"
proof -
  have ne: "a \<noteq> r" using assms(1,2) by auto
  from assms(3) show ?thesis
    by (cases rule: wf_fn_cases)
       (simp_all add: sf_copy_ctor_def base_copy_ctor_def assms(2) ne ne [symmetric] copy_caller_def
          set_caller_def policy_apply_def empty_fn_def)
qed

lemma copy_assign_empty:
  assumes "objs s a = Some x" "wf_fn x" "objs s r = Some y" "wf_fn y" "\<not> has_value y"
  shows "sf_copy_assign a r s = Inr (s\<lparr>objs := (objs s)(a \<mapsto> empty_fn)\<rparr>)"
proof -
  have y: "y = empty_fn" using assms(4,5) by (cases rule: wf_fn_cases) (simp_all add: has_value_def)
  show ?thesis
  proof (cases "a = r")
    case True
    with y assms(1,3) have "x = empty_fn" by simp
    with True show ?thesis
      using destruct_eq [OF assms(1,2)]
      by (simp add: sf_copy_assign_def base_copy_assign_def copy_caller_def set_caller_def empty_fn_def)
  next
    case False
    with y show ?thesis
      by (simp add: sf_copy_assign_def base_copy_assign_def destruct_eq [OF assms(1,2)] assms(3)
          copy_caller_def set_caller_def empty_fn_def)
  qed
qed

lemma copy_assign_self:
  assumes "objs s a = Some x" "wf_fn x"
  shows "sf_copy_assign a a s
    = Inr (s\<lparr>objs := (objs s)(a \<mapsto> \<lparr>data = Raw, policy = None, caller = caller x\<rparr>)\<rparr>)"
  using destruct_eq [OF assms]
  by (simp add: sf_copy_assign_def base_copy_assign_def copy_caller_def set_caller_def)

lemma copy_assign_undefined:
  assumes "objs s a = Some x" "wf_fn x" "objs s r = Some y" "wf_fn y" "a \<noteq> r" "has_value y"
  shows "sf_copy_assign a r s = Inl (Undefined ''no object in the buffer'')"
  using assms(4)
  by (cases rule: wf_fn_cases)
     (use assms(6) in \<open>simp_all add: sf_copy_assign_def base_copy_assign_def destruct_eq [OF assms(1,2)]
        assms(3,5) assms(5) [symmetric] policy_apply_def has_value_def empty_fn_def\<close>)

lemma target_ctor_eq:
  "sf_target_ctor a t v s
     = Inr (s\<lparr>objs := (objs s)(a \<mapsto> \<lparr>data = Live t (Some v), policy = Some t, caller = Some t\<rparr>)\<rparr>)"
  by (simp add: sf_target_ctor_def base_target_ctor_def set_caller_def empty_fn_def)

lemma destroy_eq:
  assumes "objs s a = Some x" "wf_fn x"
  shows "sf_destroy a s = Inr (s\<lparr>objs := (objs s)(a := None)\<rparr>)"
proof -
  let ?s = "s\<lparr>objs := (objs s)(a \<mapsto> x\<lparr>caller := None\<rparr>)\<rparr>"
  have "wf_fn (x\<lparr>caller := None\<rparr>)" using assms(2) by (auto split: option.splits slot.splits)
  from destruct_eq [of ?s, OF _ this] assms(1) show ?thesis
    by (simp add: sf_destroy_def set_caller_def)
qed

lemma assign_target_eq:
  assumes "objs s a = Some x" "wf_fn x" "objs s tmp = None"
  shows "sf_assign_target a tmp t v s
     = Inr (s\<lparr>objs := (objs s)(a \<mapsto> \<lparr>data = Live t (Some v), policy = Some t, caller = Some t\<rparr>, tmp := None)\<rparr>)"
proof -
  have ne: "a \<noteq> tmp" using assms(1,3) by auto
  let ?y = "\<lparr>data = Live t (Some v), policy = Some t, caller = Some t\<rparr>"
  let ?s1 = "s\<lparr>objs := (objs s)(tmp \<mapsto> ?y)\<rparr>"
  let ?s2 = "s\<lparr>objs := (objs s)(a \<mapsto> ?y, tmp \<mapsto> emptied ?y)\<rparr>"
  have "sf_move_assign a tmp ?s1 = Inr (?s1\<lparr>objs := (objs ?s1)(a \<mapsto> ?y, tmp \<mapsto> emptied ?y)\<rparr>)"
    by (rule move_assign_eq [OF _ assms(2)]) (simp_all add: ne assms(1))
  then have m: "sf_move_assign a tmp ?s1 = Inr ?s2"
    by (simp add: fun_upd_twist [OF ne])
  have "sf_destroy tmp ?s2 = Inr (?s2\<lparr>objs := (objs ?s2)(tmp := None)\<rparr>)"
    by (rule destroy_eq [of _ _ "emptied ?y"]) (simp_all add: emptied_def)
  with m show ?thesis by (simp add: sf_assign_target_def target_ctor_eq)
qed


section \<open>Whole programs\<close>

lemma sf_inv_upd:
  "sf_inv s \<Longrightarrow> wf_fn x \<Longrightarrow> sf_inv (s\<lparr>objs := (objs s)(a \<mapsto> x)\<rparr>)"
  "sf_inv s \<Longrightarrow> wf_fn x \<Longrightarrow> wf_fn y \<Longrightarrow> sf_inv (s\<lparr>objs := (objs s)(a \<mapsto> x, b \<mapsto> y)\<rparr>)"
  "sf_inv s \<Longrightarrow> sf_inv (s\<lparr>objs := (objs s)(a := None)\<rparr>)"
  "sf_inv s \<Longrightarrow> wf_fn x \<Longrightarrow> sf_inv (s\<lparr>objs := (objs s)(a \<mapsto> x, b := None)\<rparr>)"
  unfolding sf_inv_def by (simp_all del: wf_fn.simps)

lemma sf_inv_get: "sf_inv s \<Longrightarrow> objs s a = Some x \<Longrightarrow> wf_fn x"
  by (simp add: sf_inv_def del: wf_fn.simps)

lemma abs_upd:
  "sf_abs (s\<lparr>objs := (objs s)(a \<mapsto> x)\<rparr>) = ((fst (sf_abs s))(a \<mapsto> target x), called s)"
  "sf_abs (s\<lparr>objs := (objs s)(a \<mapsto> x, b \<mapsto> y)\<rparr>)
     = ((fst (sf_abs s))(a \<mapsto> target x, b \<mapsto> target y), called s)"
  "sf_abs (s\<lparr>objs := (objs s)(a := None)\<rparr>) = ((fst (sf_abs s))(a := None), called s)"
  "sf_abs (s\<lparr>objs := (objs s)(a \<mapsto> x, b := None)\<rparr>)
     = ((fst (sf_abs s))(a \<mapsto> target x, b := None), called s)"
  by (auto simp: sf_abs_def)

lemma sf_abs_split: "sf_abs s = (fst (sf_abs s), called s)"
  by (simp add: sf_abs_def)

lemma fst_abs: "fst (sf_abs s) a = map_option target (objs s a)"
  by (simp add: sf_abs_def)

lemma wf_full: "wf_fn \<lparr>data = Live t (Some v), policy = Some t, caller = Some t\<rparr>"
  "target \<lparr>data = Live t (Some v), policy = Some t, caller = Some t\<rparr> = Some v"
  by (simp_all add: target_def)

lemma call_eq:
  assumes "objs s a = Some x" "wf_fn x" "HasTarget x"
  shows "\<exists>v. target x = Some v \<and> sf_call a s = Inr (s\<lparr>called := called s @ [v]\<rparr>)"
  using assms(2)
  by (cases rule: wf_fn_cases)
     (use assms(1,3) in \<open>simp_all add: sf_call_def HasTarget_def target_def empty_fn_def\<close>)

lemma sf_step_ok:
  assumes "sf_inv s" "sf_pre op s"
  shows "\<exists>s'. sf_step op s = Inr s' \<and> sf_inv s' \<and> sf_abs s' = sf_astep op (sf_abs s)"
proof -
  note wf = sf_inv_get [OF assms(1)] and inv = sf_inv_upd [OF assms(1)]
  show ?thesis
  proof (cases op)
    case (Default a)
    then show ?thesis using inv(1) [OF wf_parts(1)] abs_upd(1) [of s a empty_fn]
      by (subst (2) sf_abs_split) (simp add: sf_default_def wf_parts(2) del: wf_fn.simps)
  next
    case (FromTarget a t v)
    then show ?thesis using inv(1) [OF wf_full(1)]
      by (subst (2) sf_abs_split) (simp add: target_ctor_eq abs_upd wf_full(2) del: wf_fn.simps)
  next
    case (CopyCtor a r)
    with assms(2) obtain y where y: "objs s a = None" "objs s r = Some y" by auto
    show ?thesis using CopyCtor inv(1) [OF wf [OF y(2)]] copy_ctor_eq [OF y wf [OF y(2)]] y(2)
      by (subst (2) sf_abs_split) (simp add: abs_upd fst_abs del: wf_fn.simps)
  next
    case (MoveCtor a r)
    with assms(2) obtain y where y: "objs s a = None" "objs s r = Some y" by auto
    show ?thesis
      using MoveCtor inv(2) [OF wf [OF y(2)] wf_parts(3) [OF wf [OF y(2)]]]
        move_ctor_eq [OF y wf [OF y(2)]] y(2)
      by (subst (2) sf_abs_split) (simp add: abs_upd fst_abs wf_parts(4) del: wf_fn.simps)
  next
    case (CopyAssign a r)
    with assms(2) obtain x y where xy: "objs s a = Some x" "objs s r = Some y" "\<not> has_value y" by auto
    show ?thesis
      using CopyAssign inv(1) [OF wf_parts(1)] copy_assign_empty [OF xy(1) wf [OF xy(1)] xy(2) wf [OF xy(2)] xy(3)]
      by (subst (2) sf_abs_split) (simp add: abs_upd wf_parts(2) del: wf_fn.simps)
  next
    case (MoveAssign a r)
    with assms(2) obtain x y where xy: "objs s a = Some x" "objs s r = Some y" by auto
    show ?thesis
    proof (cases "a = r")
      case True
      with MoveAssign inv(1) [OF wf_parts(1)] move_assign_self [OF xy(1) wf [OF xy(1)]] show ?thesis
        by (subst (2) sf_abs_split) (simp add: abs_upd wf_parts(2) del: wf_fn.simps)
    next
      case False
      with MoveAssign inv(2) [OF wf [OF xy(2)] wf_parts(3) [OF wf [OF xy(2)]]]
        move_assign_eq [OF xy(1) wf [OF xy(1)] xy(2) wf [OF xy(2)] False] xy(2)
      show ?thesis
        by (subst (2) sf_abs_split) (simp add: abs_upd fst_abs wf_parts(4) del: wf_fn.simps)
    qed
  next
    case (AssignTarget a tmp t v)
    with assms(2) obtain x where x: "objs s a = Some x" "objs s tmp = None" by auto
    then have "a \<noteq> tmp" "((fst (sf_abs s))(a \<mapsto> Some v, tmp := None)) = (fst (sf_abs s))(a \<mapsto> Some v)"
      by (auto simp: fst_abs intro!: fun_upd_idem)
    with AssignTarget inv(4) [OF wf_full(1)] assign_target_eq [OF x(1) wf [OF x(1)] x(2)] show ?thesis
      by (subst (2) sf_abs_split) (simp add: abs_upd wf_full(2) del: wf_fn.simps)
  next
    case (Destroy a)
    with assms(2) obtain x where x: "objs s a = Some x" by auto
    with Destroy inv(3) destroy_eq [OF x wf [OF x]] show ?thesis
      by (subst (2) sf_abs_split) (simp add: abs_upd)
  next
    case (Call a)
    with assms(2) obtain x where x: "objs s a = Some x" "HasTarget x" by auto
    from call_eq [OF x(1) wf [OF x(1)] x(2)] obtain v where
      v: "target x = Some v" "sf_call a s = Inr (s\<lparr>called := called s @ [v]\<rparr>)" by auto
    with Call assms(1) x(1) show ?thesis
      by (simp add: sf_abs_def sf_inv_def del: wf_fn.simps)
  qed
qed

interpretation small_function: refined_machine sf_step sf_pre sf_inv sf_abs sf_astep
proof (unfold_locales, goal_cases)
  case (1 s x) then show ?case using sf_step_ok by blast
next
  case (2 s x s') then show ?case using sf_step_ok [of s x] by auto
qed


section \<open>The properties of SmallFunction\<close>

text \<open>
  C6. Any sequence of operations that respects lifetimes, calls only objects with a target and
  copy-assigns only from empty objects runs without undefined behaviour, keeps every object's
  pointers consistent with its buffer, and behaves as the abstract store of callable targets:
  copies share the target's value, moves (self-move included) empty the source, calls run the
  stored target.
\<close>
theorem small_function_refines:
  assumes "sf_inv s" "admissible sf_pre sf_step ops s"
  shows "\<exists>s'. run_ops sf_step ops s = Inr s' \<and> sf_inv s'
    \<and> sf_abs s' = fold sf_astep ops (sf_abs s)"
  using assms by (rule small_function.run_refines)

text \<open>
  The copy assignment is undefined behaviour whenever it has something to copy: it passes its
  own buffer, which it has just destroyed, as the copy source. On self-assignment it instead
  destroys the target and keeps the call pointer, so that the next call is undefined.
\<close>
theorem copy_assign_broken:
  assumes "sf_inv s" "objs s a = Some x" "objs s r = Some y" "HasTarget y"
  shows "if a = r
    then (\<exists>s' z. sf_copy_assign a r s = Inr s' \<and> objs s' a = Some z \<and> HasTarget z
            \<and> (\<exists>why. sf_call a s' = Inl (Undefined why)))
    else (\<exists>why. sf_copy_assign a r s = Inl (Undefined why))"
proof (cases "a = r")
  case True
  then have "x = y" using assms(2,3) by simp
  then obtain c where c: "caller x = Some c" using assms(4) by (auto simp: HasTarget_def)
  show ?thesis
    using True copy_assign_self [OF assms(2) sf_inv_get [OF assms(1,2)]] c
    by (auto simp: HasTarget_def sf_call_def)
next
  case False
  have "has_value y"
    using sf_inv_get [OF assms(1,3)] assms(4)
    by (cases rule: wf_fn_cases) (simp_all add: HasTarget_def has_value_def empty_fn_def)
  from copy_assign_undefined [OF assms(2) sf_inv_get [OF assms(1,2)] assms(3)
      sf_inv_get [OF assms(1,3)] False this] False
  show ?thesis by simp
qed

section \<open>Witnesses\<close>

definition no_objects :: "'v store" where
  "no_objects = \<lparr>objs = (\<lambda>_. None), called = []\<rparr>"

lemma no_objects_inv: "sf_inv no_objects"
  by (simp add: sf_inv_def no_objects_def)

definition sf_program :: "nat sf_op list" where
  "sf_program = [FromTarget 0 7 41, MoveCtor 1 0, CopyCtor 2 1, Call 1, Call 2, AssignTarget 0 9 8 5,
     MoveAssign 1 0, Call 1, Destroy 2, Destroy 1, Destroy 0]"

lemma small_function_refines_witness:
  "\<exists>s'. run_ops sf_step sf_program no_objects = Inr s' \<and> sf_inv s'
    \<and> sf_abs s' = fold sf_astep sf_program (sf_abs no_objects)"
proof (rule small_function_refines [OF no_objects_inv])
  note eqs = sf_program_def no_objects_def sf_target_ctor_def base_target_ctor_def set_caller_def
    get_obj_def empty_fn_def sf_move_ctor_def base_move_ctor_def copy_caller_def policy_apply_def
    sf_copy_ctor_def base_copy_ctor_def sf_call_def sf_assign_target_def sf_move_assign_def
    base_move_assign_def destruct_def sf_destroy_def HasTarget_def
  show "admissible sf_pre sf_step sf_program no_objects"
    by (simp add: eqs)
qed

lemma copy_assign_broken_witness:
  "\<exists>why. sf_copy_assign 0 (Suc 0)
     \<lparr>objs = [0 \<mapsto> empty_fn, Suc 0 \<mapsto> \<lparr>data = Live 3 (Some (8 :: nat)), policy = Some 3, caller = Some 3\<rparr>],
      called = []\<rparr> = Inl (Undefined why)"
proof -
  let ?s = "\<lparr>objs = [0 \<mapsto> empty_fn, Suc 0 \<mapsto> \<lparr>data = Live 3 (Some (8 :: nat)), policy = Some 3, caller = Some 3\<rparr>],
      called = []\<rparr>"
  have "sf_inv ?s" by (simp add: sf_inv_def empty_fn_def)
  from copy_assign_broken [OF this, of 0 empty_fn "Suc 0"] show ?thesis by (simp add: HasTarget_def)
qed

end
