(* ===== verification/Core_UniqueRef.thy ===== *)
theory Core_UniqueRef
  imports Machine
begin

text \<open>
  \<^verbatim>\<open>src/core/unique_ref.h\<close> and the scope guard of \<^verbatim>\<open>src/core_cpp20/at_scope_exit.h\<close>. A \<^verbatim>\<open>UniqueRef\<close>
  object has an address and its field \<^verbatim>\<open>ptr_\<close>; the owned objects are heap cells, live until
  they are deleted. \<open>held\<close> marks the objects that \<^verbatim>\<open>release\<close> has handed out and that the caller is
  responsible for: it deletes them (\<^verbatim>\<open>delete &raw\<close>, as in the \<^verbatim>\<open>Release\<close> test) or gives them to
  another reference. The asserts of the accessors end the program (\<open>Terminated\<close>); a null
  \<^verbatim>\<open>*tmp\<close> and a second deletion are \<open>Undefined\<close>.
\<close>

section \<open>State\<close>

record 'v uheap =
  refs :: "nat \<Rightarrow> nat option option"
  cells :: "nat \<Rightarrow> 'v option"
  held :: "nat \<Rightarrow> bool"

definition get_ref :: "nat \<Rightarrow> 'v uheap \<Rightarrow> fault + nat option" where
  "get_ref u h =
     (case refs h u of Some p \<Rightarrow> Inr p | None \<Rightarrow> Inl (Undefined ''object outside its lifetime''))"

definition set_ref :: "nat \<Rightarrow> nat option \<Rightarrow> 'v uheap \<Rightarrow> 'v uheap" where
  "set_ref u p h = h\<lparr>refs := (refs h)(u \<mapsto> p)\<rparr>"

text \<open>\<^verbatim>\<open>delete ptr\<close>: nothing on null, undefined on a cell that is not live.\<close>

definition delete_ptr :: "nat option \<Rightarrow> 'v uheap \<Rightarrow> fault + 'v uheap" where
  "delete_ptr p h =
     (case p of
        None \<Rightarrow> Inr h
      | Some c \<Rightarrow>
          if cells h c = None then Inl (Undefined ''delete of a dead object'')
          else Inr (h\<lparr>cells := (cells h)(c := None)\<rparr>))"

section \<open>Operations\<close>

definition ur_from :: "nat \<Rightarrow> nat \<Rightarrow> 'v uheap \<Rightarrow> fault + 'v uheap" where
  "ur_from u c h = Inr (set_ref u (Some c) h)"

definition ur_move_ctor :: "nat \<Rightarrow> nat \<Rightarrow> 'v uheap \<Rightarrow> fault + 'v uheap" where
  "ur_move_ctor u r h =
     bind_res (get_ref r h) (\<lambda>p. Inr (set_ref r None (set_ref u p h)))"

definition ur_release :: "nat \<Rightarrow> 'v uheap \<Rightarrow> fault + (nat \<times> 'v uheap)" where
  "ur_release u h =
     bind_res (get_ref u h) (\<lambda>tmp.
       let h = set_ref u None h in
       case tmp of None \<Rightarrow> Inl (Undefined ''dereference of null'') | Some c \<Rightarrow> Inr (c, h))"

text \<open>The converting move constructor takes what \<^verbatim>\<open>release\<close> returns.\<close>

definition ur_convert_ctor :: "nat \<Rightarrow> nat \<Rightarrow> 'v uheap \<Rightarrow> fault + 'v uheap" where
  "ur_convert_ctor u r h = bind_res (ur_release r h) (\<lambda>(c, h). Inr (set_ref u (Some c) h))"

definition ur_move_assign :: "nat \<Rightarrow> nat \<Rightarrow> 'v uheap \<Rightarrow> fault + 'v uheap" where
  "ur_move_assign u r h =
     (if u \<noteq> r then
        bind_res (get_ref u h) (\<lambda>p.
        bind_res (delete_ptr p h) (\<lambda>h.
        bind_res (get_ref r h) (\<lambda>q. Inr (set_ref r None (set_ref u q h)))))
      else Inr h)"

definition ur_get :: "nat \<Rightarrow> 'v uheap \<Rightarrow> fault + nat" where
  "ur_get u h =
     bind_res (get_ref u h) (\<lambda>p.
       case p of None \<Rightarrow> Inl (Terminated ''Assertion ptr_ failed'') | Some c \<Rightarrow> Inr c)"

definition ur_destroy :: "nat \<Rightarrow> 'v uheap \<Rightarrow> fault + 'v uheap" where
  "ur_destroy u h =
     bind_res (get_ref u h) (\<lambda>p.
     bind_res (delete_ptr p h) (\<lambda>h. Inr (h\<lparr>refs := (refs h)(u := None)\<rparr>)))"

datatype 'v ur_op =
    New nat nat 'v
  | URMoveCtor nat nat
  | URConvertCtor nat nat
  | URMoveAssign nat nat
  | URReadThrough nat
  | URRelease nat
  | URAdopt nat nat
  | URDeleteRaw nat
  | URDestroy nat

text \<open>\<open>New u c v\<close> is the client's \<^verbatim>\<open>UniqueRef u(*new T(v))\<close>. The client keeps what
  \<^verbatim>\<open>release\<close> returns until \<open>URAdopt u c\<close>, \<^verbatim>\<open>UniqueRef u(raw)\<close>, or \<open>URDeleteRaw c\<close>,
  \<^verbatim>\<open>delete &raw\<close>.\<close>

fun ur_step :: "'v ur_op \<Rightarrow> 'v uheap \<Rightarrow> fault + 'v uheap" where
  "ur_step (New u c v) h = ur_from u c (h\<lparr>cells := (cells h)(c \<mapsto> v)\<rparr>)"
| "ur_step (URMoveCtor u r) h = ur_move_ctor u r h"
| "ur_step (URConvertCtor u r) h = ur_convert_ctor u r h"
| "ur_step (URMoveAssign u r) h = ur_move_assign u r h"
| "ur_step (URReadThrough u) h = bind_res (ur_get u h) (\<lambda>c.
     if cells h c = None then Inl (Undefined ''read of a dead object'') else Inr h)"
| "ur_step (URRelease u) h =
     bind_res (ur_release u h) (\<lambda>(c, h). Inr (h\<lparr>held := (held h)(c := True)\<rparr>))"
| "ur_step (URAdopt u c) h = ur_from u c (h\<lparr>held := (held h)(c := False)\<rparr>)"
| "ur_step (URDeleteRaw c) h = delete_ptr (Some c) (h\<lparr>held := (held h)(c := False)\<rparr>)"
| "ur_step (URDestroy u) h = ur_destroy u h"

section \<open>Ownership\<close>

text \<open>Owners of cells in general: every live cell has exactly one owner, and owners own live cells
  only. An owner without a cell is \<open>Some None\<close>, one that does not exist \<open>None\<close>.\<close>

definition unique_owner :: "('w \<Rightarrow> nat option option) \<Rightarrow> (nat \<Rightarrow> 'v option) \<Rightarrow> bool" where
  "unique_owner own cs \<longleftrightarrow>
     (\<forall>u c. own u = Some (Some c) \<longrightarrow> cs c \<noteq> None)
     \<and> (\<forall>c. cs c \<noteq> None \<longrightarrow> (\<exists>u. own u = Some (Some c)))
     \<and> (\<forall>u u' c. own u = Some (Some c) \<longrightarrow> own u' = Some (Some c) \<longrightarrow> u = u')"

lemma owner_parts:
  assumes "unique_owner own cs"
  shows "own u = Some (Some c) \<Longrightarrow> \<exists>v. cs c = Some v"
    and "cs c = Some v \<Longrightarrow> \<exists>u. own u = Some (Some c)"
    and "own u = Some (Some c) \<Longrightarrow> own u' = Some (Some c) \<Longrightarrow> u = u'"
  using assms by (auto simp: unique_owner_def)

lemma owner_I:
  assumes "\<And>u c. own u = Some (Some c) \<Longrightarrow> \<exists>v. cs c = Some v"
    and "\<And>c v. cs c = Some v \<Longrightarrow> \<exists>u. own u = Some (Some c)"
    and "\<And>u u' c. own u = Some (Some c) \<Longrightarrow> own u' = Some (Some c) \<Longrightarrow> u = u'"
  shows "unique_owner own cs"
  unfolding unique_owner_def
proof (intro conjI allI impI)
  fix u c assume "own u = Some (Some c)" then show "cs c \<noteq> None" using assms(1) by blast
next
  fix c assume "cs c \<noteq> None" then show "\<exists>u. own u = Some (Some c)" using assms(2) by blast
next
  fix u u' c assume "own u = Some (Some c)" "own u' = Some (Some c)"
  then show "u = u'" by (rule assms(3))
qed

text \<open>The cell of one owner passes to another that has none.\<close>

lemma owner_transfer:
  assumes "unique_owner own cs" "own r = Some q" "u \<noteq> r" "own u \<in> {None, Some None}"
  shows "unique_owner (own(u \<mapsto> q, r \<mapsto> None)) cs"
proof (rule owner_I)
  let ?m = "own(u \<mapsto> q, r \<mapsto> None)"
  fix w c assume "?m w = Some (Some c)"
  then have "own w = Some (Some c) \<or> own r = Some (Some c)"
    using assms(2) by (auto split: if_splits)
  then show "\<exists>v. cs c = Some v" using owner_parts(1) [OF assms(1)] by auto
next
  let ?m = "own(u \<mapsto> q, r \<mapsto> None)"
  fix c v assume "cs c = Some v"
  then obtain w where w: "own w = Some (Some c)" using owner_parts(2) [OF assms(1)] by auto
  show "\<exists>w. ?m w = Some (Some c)"
  proof (cases "w = r")
    case True
    with assms(2,3) w show ?thesis by (intro exI [of _ u]) simp
  next
    case False
    with w assms(4) show ?thesis by (intro exI [of _ w]) auto
  qed
next
  let ?m = "own(u \<mapsto> q, r \<mapsto> None)"
  fix w w' c assume "?m w = Some (Some c)" "?m w' = Some (Some c)"
  then show "w = w'" using owner_parts(3) [OF assms(1)] assms(2) by (auto split: if_splits)
qed

text \<open>An owner without a cell may come and go.\<close>

lemma owner_empty:
  assumes "unique_owner own cs" "own u \<in> {None, Some None}" "p' \<in> {None, Some None}"
  shows "unique_owner (own(u := p')) cs"
proof (rule owner_I)
  fix w c assume "(own(u := p')) w = Some (Some c)"
  with assms(3) have "own w = Some (Some c)" by (auto split: if_splits)
  then show "\<exists>v. cs c = Some v" by (rule owner_parts(1) [OF assms(1)])
next
  fix c v assume "cs c = Some v"
  then obtain w where w: "own w = Some (Some c)" using owner_parts(2) [OF assms(1)] by auto
  with assms(2) have "w \<noteq> u" by auto
  with w show "\<exists>w. (own(u := p')) w = Some (Some c)" by (intro exI [of _ w]) simp
next
  fix w w' c assume "(own(u := p')) w = Some (Some c)" "(own(u := p')) w' = Some (Some c)"
  with assms(3) show "w = w'" using owner_parts(3) [OF assms(1)] by (auto split: if_splits)
qed

lemma owner_delete:
  assumes "unique_owner own cs" "own u = Some (Some c)" "p' \<in> {None, Some None}"
  shows "unique_owner (own(u := p')) (cs(c := None))"
proof (rule owner_I)
  fix w d assume "(own(u := p')) w = Some (Some d)"
  with assms(3) have w: "own w = Some (Some d)" "w \<noteq> u" by (auto split: if_splits)
  then have "d \<noteq> c" using owner_parts(3) [OF assms(1)] assms(2) by blast
  with owner_parts(1) [OF assms(1) w(1)] show "\<exists>v. (cs(c := None)) d = Some v" by simp
next
  fix d v' assume "(cs(c := None)) d = Some v'"
  then have d: "cs d = Some v'" "d \<noteq> c" by (auto split: if_splits)
  then obtain w where w: "own w = Some (Some d)" using owner_parts(2) [OF assms(1)] by auto
  with assms(2) d(2) have "w \<noteq> u" by auto
  with w show "\<exists>w. (own(u := p')) w = Some (Some d)" by (intro exI [of _ w]) simp
next
  fix w w' d assume "(own(u := p')) w = Some (Some d)" "(own(u := p')) w' = Some (Some d)"
  with assms(3) show "w = w'" using owner_parts(3) [OF assms(1)] by (auto split: if_splits)
qed

lemma owner_new:
  assumes "unique_owner own cs" "own u \<in> {None, Some None}" "cs c = None"
  shows "unique_owner (own(u \<mapsto> Some c)) (cs(c \<mapsto> v))"
proof (rule owner_I)
  fix w d assume "(own(u \<mapsto> Some c)) w = Some (Some d)"
  then show "\<exists>x. (cs(c \<mapsto> v)) d = Some x"
    using owner_parts(1) [OF assms(1)] by (auto split: if_splits)
next
  fix d x assume "(cs(c \<mapsto> v)) d = Some x"
  then consider "d = c" | "cs d = Some x" "d \<noteq> c" by (auto split: if_splits)
  then show "\<exists>w. (own(u \<mapsto> Some c)) w = Some (Some d)"
  proof cases
    case 2
    then obtain w where "own w = Some (Some d)" using owner_parts(2) [OF assms(1)] by auto
    with assms(2) show ?thesis by (intro exI [of _ w]) auto
  qed auto
next
  fix w w' d
  assume w: "(own(u \<mapsto> Some c)) w = Some (Some d)" "(own(u \<mapsto> Some c)) w' = Some (Some d)"
  have "own x \<noteq> Some (Some c)" for x using owner_parts(1) [OF assms(1), of x c] assms(3) by auto
  with w show "w = w'" using owner_parts(3) [OF assms(1)] by (auto split: if_splits)
qed

text \<open>The owners here are the references (\<open>Inl\<close>) and the caller's raw pointers (\<open>Inr\<close>).\<close>

definition owners :: "'v uheap \<Rightarrow> nat + nat \<Rightarrow> nat option option" where
  "owners h = case_sum (refs h) (\<lambda>c. if held h c then Some (Some c) else None)"

definition ur_inv :: "'v uheap \<Rightarrow> bool" where
  "ur_inv h \<longleftrightarrow> unique_owner (owners h) (cells h)"

lemma owners_upd [simp]:
  "owners (h\<lparr>refs := (refs h)(u := x)\<rparr>) = (owners h)(Inl u := x)"
  "owners (h\<lparr>held := (held h)(c := b)\<rparr>) = (owners h)(Inr c := if b then Some (Some c) else None)"
  "owners (h\<lparr>cells := k\<rparr>) = owners h"
  "owners (set_ref u p h) = (owners h)(Inl u \<mapsto> p)"
  by (auto simp: owners_def set_ref_def fun_eq_iff split: sum.split)

lemma owners_sel: "owners h (Inl u) = refs h u" "held h c \<Longrightarrow> owners h (Inr c) = Some (Some c)"
  "\<not> held h c \<Longrightarrow> owners h (Inr c) = None"
  by (simp_all add: owners_def)

lemma set_ref_cells [simp]: "cells (set_ref u p h) = cells h" "held (set_ref u p h) = held h"
  by (simp_all add: set_ref_def)

fun ur_pre :: "'v ur_op \<Rightarrow> 'v uheap \<Rightarrow> bool" where
  "ur_pre (New u c v) h = (refs h u = None \<and> cells h c = None)"
| "ur_pre (URMoveCtor u r) h = (refs h u = None \<and> refs h r \<noteq> None)"
| "ur_pre (URConvertCtor u r) h = (refs h u = None \<and> (\<exists>c. refs h r = Some (Some c)))"
| "ur_pre (URMoveAssign u r) h = (refs h u \<noteq> None \<and> refs h r \<noteq> None)"
| "ur_pre (URReadThrough u) h = (\<exists>c. refs h u = Some (Some c))"
| "ur_pre (URRelease u) h = (\<exists>c. refs h u = Some (Some c))"
| "ur_pre (URAdopt u c) h = (refs h u = None \<and> held h c)"
| "ur_pre (URDeleteRaw c) h = held h c"
| "ur_pre (URDestroy u) h = (refs h u \<noteq> None)"

lemmas ur_defs = ur_from_def ur_move_ctor_def ur_release_def ur_convert_ctor_def ur_move_assign_def
  ur_get_def ur_destroy_def get_ref_def set_ref_def delete_ptr_def

lemma ur_inv_delete:
  assumes "ur_inv h" "refs h u = Some p" "p' \<in> {None, Some None}"
  shows "\<exists>h'. delete_ptr p h = Inr h' \<and> refs h' = refs h \<and> ur_inv (h'\<lparr>refs := (refs h)(u := p')\<rparr>)"
proof (cases p)
  case None
  from owner_empty [OF assms(1) [unfolded ur_inv_def], of "Inl u" p'] assms None show ?thesis
    by (simp add: delete_ptr_def ur_inv_def owners_sel)
next
  case (Some c)
  with assms(2) have own: "owners h (Inl u) = Some (Some c)" by (simp add: owners_sel)
  from owner_parts(1) [OF assms(1) [unfolded ur_inv_def] own] obtain v where "cells h c = Some v" ..
  moreover have "ur_inv (h\<lparr>cells := (cells h)(c := None), refs := (refs h)(u := p')\<rparr>)"
    using owner_delete [OF assms(1) [unfolded ur_inv_def] own assms(3)] owners_upd(1) [of "h\<lparr>cells := (cells h)(c := None)\<rparr>" u p']
    by (simp add: ur_inv_def)
  ultimately show ?thesis using Some by (simp add: delete_ptr_def)
qed

lemma ur_inv_transfer:
  assumes "ur_inv h" "refs h r = Some q" "u \<noteq> r" "refs h u \<in> {None, Some None}"
  shows "ur_inv (set_ref r None (set_ref u q h))"
  using owner_transfer [OF assms(1) [unfolded ur_inv_def], of "Inl r" q "Inl u"] assms(2-4)
  by (simp add: ur_inv_def owners_sel)

lemma ur_move_assign_ok:
  assumes "ur_inv h" "refs h u = Some p" "refs h r = Some q"
  shows "\<exists>h'. ur_move_assign u r h = Inr h' \<and> ur_inv h'"
proof (cases "u = r")
  case True
  with assms(1) show ?thesis by (simp add: ur_move_assign_def)
next
  case False
  obtain h1 where h1: "delete_ptr p h = Inr h1" "refs h1 = refs h"
    "ur_inv (h1\<lparr>refs := (refs h)(u \<mapsto> None)\<rparr>)"
    using ur_inv_delete [OF assms(1,2), of "Some None"] by auto
  have "ur_inv (set_ref r None (set_ref u q (h1\<lparr>refs := (refs h)(u \<mapsto> None)\<rparr>)))"
    by (rule ur_inv_transfer [OF h1(3)]) (use False assms(3) in simp_all)
  then have "ur_inv (set_ref r None (set_ref u q h1))" by (simp add: set_ref_def h1(2))
  with False assms h1 show ?thesis by (simp add: ur_move_assign_def get_ref_def)
qed

text \<open>What leaves a reference through \<^verbatim>\<open>release\<close> is the caller's, and comes back the same way.\<close>

lemma ur_release_ok:
  assumes "ur_inv h" "refs h u = Some (Some c)"
  shows "\<exists>h'. ur_step (URRelease u) h = Inr h' \<and> ur_inv h' \<and> held h' c"
proof -
  note iv = assms(1) [unfolded ur_inv_def]
  have own: "owners h (Inl u) = Some (Some c)" using assms(2) by (simp add: owners_sel)
  have "\<not> held h c" using owner_parts(3) [OF iv own, of "Inr c"] by (auto simp: owners_def)
  with owner_transfer [OF iv own, of "Inr c"]
  have *: "unique_owner ((owners h)(Inr c \<mapsto> Some c, Inl u \<mapsto> None)) (cells h)" by (simp add: owners_sel)
  have "owners ((set_ref u None h)\<lparr>held := (held h)(c := True)\<rparr>) = (owners h)(Inr c \<mapsto> Some c, Inl u \<mapsto> None)"
    using owners_upd(2) [of "set_ref u None h" c True] by (simp add: fun_upd_twist)
  with * have "ur_inv ((set_ref u None h)\<lparr>held := (held h)(c := True)\<rparr>)" by (simp add: ur_inv_def)
  with assms(2) show ?thesis by (simp add: ur_release_def get_ref_def)
qed

lemma ur_adopt_ok:
  assumes "ur_inv h" "refs h u = None" "held h c"
  shows "ur_inv (set_ref u (Some c) (h\<lparr>held := (held h)(c := False)\<rparr>))"
proof -
  note iv = assms(1) [unfolded ur_inv_def]
  have own: "owners h (Inr c) = Some (Some c)" using assms(3) by (simp add: owners_sel)
  have "unique_owner ((owners h)(Inl u \<mapsto> Some c, Inr c \<mapsto> None)) (cells h)"
    using owner_transfer [OF iv own, of "Inl u"] assms(2) by (simp add: owners_sel)
  from owner_empty [OF this, of "Inr c" None] show ?thesis
    by (simp add: ur_inv_def fun_upd_twist)
qed

section \<open>Whole programs\<close>

lemma ur_step_ok:
  assumes "ur_inv h" "ur_pre op h"
  shows "\<exists>h'. ur_step op h = Inr h' \<and> ur_inv h'"
proof (cases op)
  case (New u c v)
  with assms owner_new [OF assms(1) [unfolded ur_inv_def], of "Inl u" c v] show ?thesis
    by (simp add: ur_from_def ur_inv_def owners_sel)
next
  case (URMoveCtor u r)
  with assms obtain q where q: "refs h r = Some q" "refs h u = None" by auto
  then have "u \<noteq> r" by auto
  with URMoveCtor q ur_inv_transfer [OF assms(1) q(1)] show ?thesis
    by (simp add: ur_move_ctor_def get_ref_def)
next
  case (URConvertCtor u r)
  with assms obtain c where c: "refs h r = Some (Some c)" "refs h u = None" by auto
  then have ne: "u \<noteq> r" by auto
  with URConvertCtor c ur_inv_transfer [OF assms(1) c(1) ne] show ?thesis
    by (simp add: ur_convert_ctor_def ur_release_def get_ref_def set_ref_def fun_upd_twist [OF ne])
next
  case (URMoveAssign u r)
  with assms obtain p q where "refs h u = Some p" "refs h r = Some q" by auto
  with URMoveAssign ur_move_assign_ok [OF assms(1) this] show ?thesis by auto
next
  case (URReadThrough u)
  with assms(2) obtain c where c: "refs h u = Some (Some c)" by auto
  with URReadThrough owner_parts(1) [OF assms(1) [unfolded ur_inv_def], of "Inl u" c] assms(1) show ?thesis
    by (auto simp: ur_get_def get_ref_def owners_sel)
next
  case (URRelease u)
  with assms ur_release_ok show ?thesis by fastforce
next
  case (URAdopt u c)
  with assms show ?thesis by (simp add: ur_from_def ur_adopt_ok)
next
  case (URDeleteRaw c)
  with assms have own: "owners h (Inr c) = Some (Some c)" by (simp add: owners_sel)
  note iv = assms(1) [unfolded ur_inv_def]
  from owner_parts(1) [OF iv own] owner_delete [OF iv own, of None] URDeleteRaw
    owners_upd(2) [of "h\<lparr>cells := (cells h)(c := None)\<rparr>" c False]
  show ?thesis by (auto simp: delete_ptr_def ur_inv_def)
next
  case (URDestroy u)
  with assms(2) obtain p where p: "refs h u = Some p" by auto
  with URDestroy ur_inv_delete [OF assms(1) p, of None] show ?thesis
    by (auto simp: ur_destroy_def get_ref_def)
qed

interpretation unique_ref: safe_machine ur_step ur_pre ur_inv
  by unfold_locales (rule ur_step_ok)

lemma ur_inv_owner:
  assumes "ur_inv h"
  shows "held h c \<Longrightarrow> cells h c \<noteq> None \<and> (\<forall>u. refs h u \<noteq> Some (Some c))"
    "cells h c \<noteq> None \<Longrightarrow> \<not> held h c \<Longrightarrow> \<exists>!u. refs h u = Some (Some c)"
proof -
  note iv = assms [unfolded ur_inv_def]
  show "held h c \<Longrightarrow> cells h c \<noteq> None \<and> (\<forall>u. refs h u \<noteq> Some (Some c))"
    using owner_parts(1) [OF iv, of "Inr c" c] owner_parts(3) [OF iv, of "Inr c" c "Inl u" for u]
    by (auto simp: owners_sel)
  assume c: "cells h c \<noteq> None" "\<not> held h c"
  from c(1) owner_parts(2) [OF iv] obtain w where w: "owners h w = Some (Some c)" by blast
  with c(2) obtain u where u: "refs h u = Some (Some c)" by (cases w) (auto simp: owners_def split: if_splits)
  moreover have "u' = u" if "refs h u' = Some (Some c)" for u'
    using owner_parts(3) [OF iv, of "Inl u'" c "Inl u"] that u by (simp add: owners_sel)
  ultimately show "\<exists>!u. refs h u = Some (Some c)" by blast
qed

lemma ur_all_destroyed:
  "ur_inv h \<Longrightarrow> (\<forall>u. refs h u = None) \<Longrightarrow> cells h c \<noteq> None \<longleftrightarrow> held h c"
  using ur_inv_owner [of h c] by auto

section \<open>The scope guard\<close>

text \<open>\<^verbatim>\<open>~AtScopeExit\<close>: run the callable; an exception is swallowed, and \<^verbatim>\<open>TCPP_ABORT\<close> of
  \<^verbatim>\<open>core/macros.h\<close> prints and does not abort.\<close>

datatype guard_event = RanGuard string | Printed string

definition scope_exit :: "string \<Rightarrow> bool \<Rightarrow> guard_event list" where
  "scope_exit f throws =
     (if throws then [RanGuard f, Printed ''caught something in the destructor...'']
      else [RanGuard f])"

section \<open>The properties of UniqueRef\<close>

text \<open>
  C15. Any sequence of operations (\<^verbatim>\<open>release\<close> included) that respects lifetimes and does not read
  through or release an emptied reference, and whose caller deletes or hands back only objects it
  has got from \<^verbatim>\<open>release\<close>, runs without undefined behaviour or a failed assert. After every
  such sequence each live object is owned by exactly one reference, or by the caller who has released it, never by
  both; so when all references are destroyed, the live objects are exactly those the caller has released and not yet
  deleted or handed back: nothing else is leaked and nothing was deleted twice.
\<close>
theorem unique_ref_ownership:
  assumes "ur_inv h" "admissible ur_pre ur_step ops h"
  shows "\<exists>h'. run_ops ur_step ops h = Inr h' \<and> ur_inv h'
    \<and> (\<forall>c. cells h' c \<noteq> None \<and> \<not> held h' c \<longrightarrow> (\<exists>!u. refs h' u = Some (Some c)))
    \<and> (\<forall>c. held h' c \<longrightarrow> cells h' c \<noteq> None \<and> (\<forall>u. refs h' u \<noteq> Some (Some c)))
    \<and> ((\<forall>u. refs h' u = None) \<longrightarrow> (\<forall>c. cells h' c \<noteq> None \<longleftrightarrow> held h' c))"
proof -
  obtain h' where h': "run_ops ur_step ops h = Inr h'" "ur_inv h'"
    using unique_ref.run_safe [OF assms] by blast
  show ?thesis
    using h' ur_inv_owner [OF h'(2)] ur_all_destroyed [OF h'(2)] by (intro exI [of _ h']) presburger
qed

text \<open>
  \<^verbatim>\<open>release\<close> of an emptied reference is undefined behaviour (it dereferences the null pointer
  it returns as a reference), while every accessor on it fails its assert; a move-assignment to
  itself changes nothing.
\<close>
theorem unique_ref_emptied:
  assumes "refs h u = Some None"
  shows "ur_release u h = Inl (Undefined ''dereference of null'')
    \<and> ur_get u h = Inl (Terminated ''Assertion ptr_ failed'') \<and> ur_move_assign u u h = Inr h
    \<and> (\<exists>h'. ur_destroy u h = Inr h' \<and> cells h' = cells h)"
  using assms
  by (simp add: ur_release_def ur_get_def ur_move_assign_def ur_destroy_def get_ref_def delete_ptr_def)

lemma unique_ref_ownership_witness:
  "\<exists>h'. run_ops ur_step [New 0 5 True, URMoveCtor 1 0, URReadThrough 1, URMoveAssign 0 1, URRelease 0, URAdopt 2 5,
      URRelease 2, URDeleteRaw 5, URDestroy 2, URDestroy 1, URDestroy 0]
      \<lparr>refs = (\<lambda>_. None), cells = (\<lambda>_. None), held = (\<lambda>_. False)\<rparr> = Inr h' \<and> ur_inv h'
    \<and> (\<forall>c. held h' c \<longrightarrow> cells h' c \<noteq> None)"
proof -
  let ?ops = "[New 0 5 True, URMoveCtor 1 0, URReadThrough 1, URMoveAssign 0 1, URRelease 0, URAdopt 2 5,
      URRelease 2, URDeleteRaw 5, URDestroy 2, URDestroy 1, URDestroy 0]"
  let ?h = "\<lparr>refs = (\<lambda>_. None), cells = (\<lambda>_. None :: bool option), held = (\<lambda>_. False)\<rparr>"
  have "ur_inv ?h" by (simp add: ur_inv_def unique_owner_def owners_def split: sum.split)
  moreover have "admissible ur_pre ur_step ?ops ?h" by (simp add: ur_defs)
  ultimately show ?thesis using unique_ref_ownership [of ?h ?ops] by blast
qed

lemma unique_ref_emptied_witness:
  "ur_release 0 \<lparr>refs = [0 \<mapsto> None], cells = (\<lambda>_. None :: nat option), held = (\<lambda>_. False)\<rparr>
     = Inl (Undefined ''dereference of null'')"
  using unique_ref_emptied [of "\<lparr>refs = [0 \<mapsto> None], cells = (\<lambda>_. None :: nat option), held = (\<lambda>_. False)\<rparr>" 0] by simp

end
