(* ===== verification/Aio_Context.thy ===== *)
theory Aio_Context
  imports Machine
begin

text \<open>
  \<^verbatim>\<open>src/minaio/v2/context.h\<close> and \<^verbatim>\<open>details/context.ipp\<close>: the operation queue and its \<^verbatim>\<open>Poll\<close>.
  The queued callables are client code: \<open>program\<close> gives the calls on the context each of them
  makes, in order. The reactor is the class template's parameter: \<open>reactor_poll\<close> gives its next
  state and the calls its handlers make. An exception leaves \<^verbatim>\<open>Poll\<close> through the scope guard.
\<close>

section \<open>State and operations\<close>

datatype 'a action =
    Enqueue 'a
  | Stop
  | NestedPoll
  | Throw string

datatype 'a ctx_op = User 'a | PollReactor

record ('a, 'r) ctx =
  ops :: "'a ctx_op list"
  reactor :: 'r
  poll_in_progress :: bool
  stop_requested :: bool
  history :: "'a ctx_op list"
  nested :: "nat list"

definition new_context :: "'r \<Rightarrow> ('a, 'r) ctx" where
  "new_context r = \<lparr>ops = [], reactor = r, poll_in_progress = False, stop_requested = False,
     history = [], nested = []\<rparr>"

definition ctx_Enqueue :: "'a \<Rightarrow> ('a, 'r) ctx \<Rightarrow> ('a, 'r) ctx" where
  "ctx_Enqueue a c = c\<lparr>ops := ops c @ [User a]\<rparr>"

definition ctx_Stop :: "('a, 'r) ctx \<Rightarrow> ('a, 'r) ctx" where
  "ctx_Stop c = c\<lparr>stop_requested := True\<rparr>"

definition IsStopped :: "('a, 'r) ctx \<Rightarrow> bool" where
  "IsStopped c \<longleftrightarrow> length (ops c) = 0 \<and> stop_requested c"

definition pop_op :: "('a, 'r) ctx \<Rightarrow> ('a, 'r) ctx" where
  "pop_op c = c\<lparr>ops := tl (ops c)\<rparr>"

text \<open>The calls a running operation makes. A nested \<^verbatim>\<open>Poll\<close> finds the flag set and returns 0.\<close>

fun run_actions :: "'a action list \<Rightarrow> ('a, 'r) ctx \<Rightarrow> fault + ('a, 'r) ctx" where
  "run_actions [] c = Inr c"
| "run_actions (Enqueue a # as) c = run_actions as (ctx_Enqueue a c)"
| "run_actions (Stop # as) c = run_actions as (ctx_Stop c)"
| "run_actions (NestedPoll # as) c =
     (if poll_in_progress c then run_actions as (c\<lparr>nested := nested c @ [0]\<rparr>)
      else Inl (Undefined ''operation run outside Poll''))"
| "run_actions (Throw what # as) c = Inl (Thrown what)"

definition run_op ::
    "('a \<Rightarrow> 'a action list) \<Rightarrow> ('r \<Rightarrow> 'r \<times> 'a action list) \<Rightarrow> 'a ctx_op \<Rightarrow> ('a, 'r) ctx
       \<Rightarrow> fault + ('a, 'r) ctx" where
  "run_op program reactor_poll op c =
     (let c = c\<lparr>history := history c @ [op]\<rparr> in
      case op of
        User a \<Rightarrow> run_actions (program a) c
      | PollReactor \<Rightarrow>
          let (r, as) = reactor_poll (reactor c) in run_actions as (c\<lparr>reactor := r\<rparr>))"

text \<open>\<^verbatim>\<open>Poll\<close>: the count returned is a \<^verbatim>\<open>uint32_t\<close>, the loop counts in \<^verbatim>\<open>size_t\<close>.\<close>

definition ctx_Poll ::
    "('a \<Rightarrow> 'a action list) \<Rightarrow> ('r \<Rightarrow> 'r \<times> 'a action list) \<Rightarrow> ('a, 'r) ctx
       \<Rightarrow> (fault + 32 word \<times> ('a, 'r) ctx)" where
  "ctx_Poll program reactor_poll c =
     (if poll_in_progress c then Inr (0, c)
      else
        let c = c\<lparr>poll_in_progress := True\<rparr>;
            c = c\<lparr>ops := ops c @ [PollReactor]\<rparr>;
            n = length (ops c)
        in bind_res (drain (run_op program reactor_poll) ops pop_op n c)
             (\<lambda>c. Inr (of_nat n, c\<lparr>poll_in_progress := False\<rparr>)))"

text \<open>The loop \<^verbatim>\<open>while (!ctx.IsStopped()) ctx.Poll();\<close>, which may not end.\<close>

partial_function (option) run_until_stopped ::
    "('a \<Rightarrow> 'a action list) \<Rightarrow> ('r \<Rightarrow> 'r \<times> 'a action list) \<Rightarrow> ('a, 'r) ctx
       \<Rightarrow> (fault + ('a, 'r) ctx) option" where
  "run_until_stopped program reactor_poll c =
     (if IsStopped c then Some (Inr c)
      else
        case ctx_Poll program reactor_poll c of
          Inl f \<Rightarrow> Some (Inl f)
        | Inr (n, c') \<Rightarrow> run_until_stopped program reactor_poll c')"

lemma ctx_Poll_drain:
  "\<not> poll_in_progress c \<Longrightarrow> ctx_Poll program rp c =
     bind_res (drain (run_op program rp) ops pop_op (length (ops c @ [PollReactor]))
        (c\<lparr>poll_in_progress := True, ops := ops c @ [PollReactor]\<rparr>))
       (\<lambda>d. Inr (of_nat (Suc (length (ops c))), d\<lparr>poll_in_progress := False\<rparr>))"
  by (simp add: ctx_Poll_def Let_def)

section \<open>Operations only append to the queue\<close>

lemma run_actions_appends:
  "run_actions as c = Inr c' \<Longrightarrow>
     (\<exists>new. ops c' = ops c @ map User new) \<and> history c' = history c
     \<and> poll_in_progress c' = poll_in_progress c \<and> (stop_requested c \<longrightarrow> stop_requested c')
     \<and> reactor c' = reactor c"
proof (induction as c rule: run_actions.induct)
  case (2 a as c)
  then obtain new where "ops c' = ops (ctx_Enqueue a c) @ map User new" by auto
  with 2 show ?case by (auto simp: ctx_Enqueue_def intro!: exI [of _ "a # new"])
next
  case (3 as c)
  then show ?case by (simp add: ctx_Stop_def)
qed (auto split: if_splits)

lemma run_op_appends:
  "run_op program rp op c = Inr c' \<Longrightarrow>
     (\<exists>new. ops c' = ops c @ map User new) \<and> history c' = history c @ [op]
     \<and> poll_in_progress c' = poll_in_progress c"
  by (auto simp: run_op_def Let_def split: ctx_op.splits prod.splits dest!: run_actions_appends)

definition polling :: "('a, 'r) ctx \<Rightarrow> bool" where
  "polling c \<longleftrightarrow> poll_in_progress c"

interpretation context_queue: run_queue "run_op program rp" ops pop_op history polling for program rp
proof (unfold_locales, goal_cases)
  case (1 s op s')
  from run_op_appends [OF 1(2)] 1(1) show ?case by (auto simp: polling_def)
qed (simp_all add: pop_op_def polling_def)

text \<open>An operation that does not throw always completes while \<^verbatim>\<open>Poll\<close> runs.\<close>

definition no_throw :: "'a action list \<Rightarrow> bool" where
  "no_throw as \<longleftrightarrow> (\<forall>what. Throw what \<notin> set as)"

lemma run_actions_defined:
  "no_throw as \<Longrightarrow> poll_in_progress c \<Longrightarrow> \<exists>c'. run_actions as c = Inr c'"
  by (induction as c rule: run_actions.induct)
     (auto simp: no_throw_def ctx_Enqueue_def ctx_Stop_def)

lemma run_op_defined:
  assumes "\<And>a. no_throw (program a)" "\<And>r. no_throw (snd (rp r))" "polling c"
  shows "\<exists>c'. run_op program rp op c = Inr c'"
proof (cases op)
  case (User a)
  with assms(3) show ?thesis
    by (auto simp: run_op_def polling_def intro!: run_actions_defined [OF assms(1)])
next
  case PollReactor
  obtain r as where ra: "rp (reactor c) = (r, as)" by fastforce
  with assms(2) [of "reactor c"] have "no_throw as" by simp
  with assms(3) PollReactor ra show ?thesis
    by (auto simp: run_op_def polling_def intro!: run_actions_defined)
qed

text \<open>Whatever is still queued when \<^verbatim>\<open>Poll\<close> returns is a client operation.\<close>

lemma drain_users:
  "drain (run_op program rp) ops pop_op (length p) c = Inr c' \<Longrightarrow> ops c = p @ map User q \<Longrightarrow>
     \<exists>new. ops c' = map User new"
proof (induction p arbitrary: c q)
  case Nil
  then show ?case by auto
next
  case (Cons op p)
  then obtain t where t: "run_op program rp op (pop_op c) = Inr t"
    "drain (run_op program rp) ops pop_op (length p) t = Inr c'"
    by (auto simp: bind_res_Inr_iff drain.simps(2))
  from run_op_appends [OF t(1)] Cons.prems(2) obtain new where "ops t = p @ map User (q @ new)"
    by (auto simp: pop_op_def)
  from Cons.IH [OF t(2) this] show ?case .
qed

lemma poll_leaves_users:
  assumes "ctx_Poll program rp c = Inr (n, c')" "\<not> poll_in_progress c"
  shows "\<exists>new. ops c' = map User new"
proof -
  let ?c = "c\<lparr>poll_in_progress := True, ops := ops c @ [PollReactor]\<rparr>"
  obtain d where d: "drain (run_op program rp) ops pop_op (length (ops c @ [PollReactor])) ?c = Inr d"
    "ops c' = ops d"
    using assms(1) unfolding ctx_Poll_drain [OF assms(2)] by (auto simp: bind_res_Inr_iff simp del: length_append)
  from drain_users [OF d(1), of "[]"] d(2) show ?thesis by simp
qed


section \<open>Chains of operations that end\<close>

text \<open>A client whose operations enqueue only operations of smaller rank.\<close>

definition ranked :: "('a \<Rightarrow> nat) \<Rightarrow> ('a \<Rightarrow> 'a action list) \<Rightarrow> bool" where
  "ranked rank program \<longleftrightarrow> (\<forall>a b. Enqueue b \<in> set (program a) \<longrightarrow> rank b < rank a)"

definition quiet :: "('r \<Rightarrow> 'r \<times> 'a action list) \<Rightarrow> bool" where
  "quiet rp \<longleftrightarrow> (\<forall>r a. Enqueue a \<notin> set (snd (rp r)))"

definition rank_below :: "('a \<Rightarrow> nat) \<Rightarrow> nat \<Rightarrow> 'a ctx_op list \<Rightarrow> bool" where
  "rank_below rank k q \<longleftrightarrow> (\<forall>a. User a \<in> set q \<longrightarrow> rank a < k)"

lemma rank_below_append [simp]:
  "rank_below rank k (p @ q) \<longleftrightarrow> rank_below rank k p \<and> rank_below rank k q"
  by (auto simp: rank_below_def)

lemma run_actions_new:
  "run_actions as c = Inr c' \<Longrightarrow> \<exists>new. ops c' = ops c @ map User new \<and> (\<forall>b \<in> set new. Enqueue b \<in> set as)"
proof (induction as c rule: run_actions.induct)
  case (2 a as c)
  then obtain new where "ops c' = ops (ctx_Enqueue a c) @ map User new" "\<forall>b \<in> set new. Enqueue b \<in> set as"
    by auto
  then show ?case by (intro exI [of _ "a # new"]) (simp add: ctx_Enqueue_def)
next
  case (3 as c)
  then show ?case by (fastforce simp: ctx_Stop_def)
next
  case (4 as c)
  then show ?case by (fastforce split: if_splits)
qed simp_all

lemma run_op_rank:
  assumes "ranked rank program" "quiet rp" "run_op program rp op c = Inr c'"
    "rank_below rank (Suc k) [op]" "rank_below rank k q" "ops c = p @ q"
  shows "\<exists>q'. ops c' = p @ q' \<and> rank_below rank k q'"
proof (cases op)
  case (User a)
  with assms(3) obtain new where
    "ops c' = ops c @ map User new" "\<forall>b \<in> set new. Enqueue b \<in> set (program a)"
    using run_actions_new by (fastforce simp: run_op_def)
  with assms User show ?thesis
    by (intro exI [of _ "q @ map User new"]) (fastforce simp: ranked_def rank_below_def)
next
  case PollReactor
  obtain r as where ra: "rp (reactor c) = (r, as)" by fastforce
  with assms(3) PollReactor obtain new where
    "ops c' = ops c @ map User new" "\<forall>b \<in> set new. Enqueue b \<in> set as"
    using run_actions_new by (fastforce simp: run_op_def)
  moreover have "\<forall>b. Enqueue b \<notin> set as" using assms(2) ra by (metis quiet_def snd_conv)
  ultimately have "ops c' = ops c" by (cases new) auto
  with assms show ?thesis by auto
qed

lemma drain_rank:
  assumes "ranked rank program" "quiet rp"
  shows "drain (run_op program rp) ops pop_op (length p) c = Inr c' \<Longrightarrow> ops c = p @ q \<Longrightarrow>
    rank_below rank (Suc k) p \<Longrightarrow> rank_below rank k q \<Longrightarrow> rank_below rank k (ops c')"
proof (induction p arbitrary: c q)
  case Nil
  then show ?case by simp
next
  case (Cons op p)
  then obtain t where t: "run_op program rp op (pop_op c) = Inr t"
    "drain (run_op program rp) ops pop_op (length p) t = Inr c'"
    by (auto simp: bind_res_Inr_iff drain.simps(2))
  have "rank_below rank (Suc k) [op]" "rank_below rank (Suc k) p"
    using Cons.prems(3) by (auto simp: rank_below_def)
  moreover have "ops (pop_op c) = p @ q" using Cons.prems(2) by (simp add: pop_op_def)
  ultimately obtain q' where "ops t = p @ q'" "rank_below rank k q'"
    using run_op_rank [OF assms t(1), of k q p] Cons.prems(4) by blast
  with Cons.IH [OF t(2)] \<open>rank_below rank (Suc k) p\<close> show ?case by blast
qed

lemma run_actions_stop: "run_actions as c = Inr c' \<Longrightarrow> stop_requested c \<Longrightarrow> stop_requested c'"
  using run_actions_appends by blast

lemma drain_stop:
  "drain (run_op program rp) ops pop_op n c = Inr c' \<Longrightarrow> stop_requested c \<Longrightarrow> stop_requested c'"
proof (induction n arbitrary: c)
  case (Suc n)
  then obtain op t where "run_op program rp op (pop_op c) = Inr t"
    "drain (run_op program rp) ops pop_op n t = Inr c'"
    by (auto simp: bind_res_Inr_iff drain.simps(2) split: list.splits)
  moreover from this Suc.prems(2) have "stop_requested t"
    by (auto simp: run_op_def pop_op_def Let_def split: ctx_op.splits prod.splits dest!: run_actions_stop)
  ultimately show ?case using Suc.IH by blast
qed simp

lemma ctx_Poll_eq:
  assumes "\<not> poll_in_progress c" "\<And>a. no_throw (program a)" "\<And>r. no_throw (snd (rp r))"
  shows "\<exists>c'. ctx_Poll program rp c = Inr (of_nat (Suc (length (ops c))), c')
    \<and> history c' = history c @ ops c @ [PollReactor]
    \<and> \<not> poll_in_progress c' \<and> (stop_requested c \<longrightarrow> stop_requested c')
    \<and> (\<forall>rank k. ranked rank program \<longrightarrow> quiet rp \<longrightarrow> rank_below rank (Suc k) (ops c) \<longrightarrow> rank_below rank k (ops c'))"
proof -
  let ?c = "c\<lparr>poll_in_progress := True, ops := ops c @ [PollReactor]\<rparr>"
  let ?n = "length (ops c @ [PollReactor])"
  have pol: "polling ?c" by (simp add: polling_def)
  obtain d where d: "drain (run_op program rp) ops pop_op ?n ?c = Inr d"
    using context_queue.drain_defined [OF pol, of ?n, where program = program and rp = rp]
      run_op_defined [OF assms(2,3)] by auto
  from context_queue.drain_runs [OF pol _ d]
  have "history d = history c @ ops c @ [PollReactor]" by simp
  moreover have "rank_below rank k (ops d)"
    if "ranked rank program" "quiet rp" "rank_below rank (Suc k) (ops c)" for rank k
    by (rule drain_rank [OF that(1,2) d, of "[]"]) (use that(3) in \<open>simp_all add: rank_below_def\<close>)
  moreover have "stop_requested c \<longrightarrow> stop_requested d" using drain_stop [OF d] by simp
  ultimately show ?thesis unfolding ctx_Poll_drain [OF assms(1)] d
    by (intro exI [of _ "d\<lparr>poll_in_progress := False\<rparr>"]) simp
qed

text \<open>Once \<^verbatim>\<open>Stop\<close> has been called, the loop ends when the chains of operations do.\<close>

lemma run_until_stopped_ends:
  assumes "ranked rank program" "quiet rp" "\<And>a. no_throw (program a)" "\<And>r. no_throw (snd (rp r))"
  shows "\<not> poll_in_progress c \<Longrightarrow> stop_requested c \<Longrightarrow> rank_below rank k (ops c) \<Longrightarrow>
    PollReactor \<notin> set (ops c) \<Longrightarrow>
    \<exists>c'. run_until_stopped program rp c = Some (Inr c') \<and> IsStopped c'"
proof (induction k arbitrary: c)
  case 0
  then have "ops c = []"
    by (cases "ops c"; cases "hd (ops c)") (auto simp: rank_below_def)
  with 0 have "IsStopped c" by (simp add: IsStopped_def)
  then show ?case by (subst run_until_stopped.simps) simp
next
  case (Suc k)
  show ?case
  proof (cases "IsStopped c")
    case True
    then show ?thesis by (subst run_until_stopped.simps) simp
  next
    case False
    obtain c' where c': "ctx_Poll program rp c = Inr (of_nat (Suc (length (ops c))), c')"
      "\<not> poll_in_progress c'" "stop_requested c'" "rank_below rank k (ops c')"
      using ctx_Poll_eq [where program = program and rp = rp, OF Suc.prems(1) assms(3,4)]
        Suc.prems(2,3) assms(1,2) by blast
    have "PollReactor \<notin> set (ops c')"
      using poll_leaves_users [OF c'(1) Suc.prems(1)] by auto
    from Suc.IH [OF c'(2,3,4) this] False c'(1) show ?thesis
      by (subst run_until_stopped.simps) simp
  qed
qed

section \<open>The properties of the context\<close>

text \<open>
  C17. \<^verbatim>\<open>Poll\<close> outside a poll runs exactly the operations queued before it, in order, and then
  polls the reactor; what these enqueue waits for the next \<^verbatim>\<open>Poll\<close>. It returns the number of
  operations run and leaves the reentrancy flag clear. Called from a running operation it does
  nothing and returns 0.
\<close>
theorem ctx_Poll_snapshot:
  assumes "\<And>a. no_throw (program a)" "\<And>r. no_throw (snd (rp r))"
  shows "if poll_in_progress c then ctx_Poll program rp c = Inr (0, c)
    else \<exists>c' new. ctx_Poll program rp c = Inr (of_nat (Suc (length (ops c))), c')
      \<and> history c' = history c @ ops c @ [PollReactor] \<and> ops c' = map User new
      \<and> \<not> poll_in_progress c'"
proof (cases "poll_in_progress c")
  case True
  then show ?thesis by (simp add: ctx_Poll_def)
next
  case False
  with ctx_Poll_eq [where program = program and rp = rp, OF False assms] poll_leaves_users
  show ?thesis by (simp only: if_False) blast
qed

text \<open>
  C16. When \<^verbatim>\<open>Stop\<close> has been called and every operation enqueues only operations of smaller
  rank, the loop \<^verbatim>\<open>while (!ctx.IsStopped()) ctx.Poll()\<close> ends, with the queue drained.
\<close>
theorem run_until_stopped_drains:
  assumes "ranked rank program" "quiet rp" "\<And>a. no_throw (program a)" "\<And>r. no_throw (snd (rp r))"
    and "\<not> poll_in_progress c" "stop_requested c" "PollReactor \<notin> set (ops c)"
  shows "\<exists>c'. run_until_stopped program rp c = Some (Inr c') \<and> IsStopped c' \<and> ops c' = []"
proof -
  have "rank_below rank (Suc (Max (insert 0 (rank ` {a. User a \<in> set (ops c)})))) (ops c)"
  proof -
    have "finite {a. User a \<in> set (ops c)}"
      by (rule finite_subset [of _ "(\<lambda>p. case p of User a \<Rightarrow> a) ` set (ops c)"])
         (force simp: image_iff split: ctx_op.split)+
    then show ?thesis by (auto simp: rank_below_def less_Suc_eq_le)
  qed
  from run_until_stopped_ends [where program = program and rp = rp, OF assms(1-4) assms(5,6) this assms(7)]
  show ?thesis by (auto simp: IsStopped_def)
qed

section \<open>Witnesses\<close>

text \<open>The client of the unit test: an operation that enqueues itself ten times, then stops.\<close>

definition chain :: "nat \<Rightarrow> nat action list" where
  "chain n = (if n = 0 then [Stop] else [NestedPoll, Enqueue (n - 1)])"

definition idle :: "unit \<Rightarrow> unit \<times> nat action list" where
  "idle r = (r, [])"

lemma ctx_Poll_snapshot_witness:
  "\<exists>c' new. ctx_Poll chain idle (ctx_Enqueue 9 (new_context ())) = Inr (of_nat 2, c')
      \<and> history c' = [User 9, PollReactor] \<and> ops c' = map User new \<and> \<not> poll_in_progress c'"
  using ctx_Poll_snapshot [of chain idle "ctx_Enqueue 9 (new_context ())"]
  by (simp add: chain_def idle_def no_throw_def ctx_Enqueue_def new_context_def)

lemma run_until_stopped_drains_witness:
  "\<exists>c'. run_until_stopped chain idle (ctx_Stop (ctx_Enqueue 9 (new_context ()))) = Some (Inr c')
     \<and> IsStopped c' \<and> ops c' = []"
  by (rule run_until_stopped_drains [where rank = id])
     (auto simp: chain_def idle_def no_throw_def ctx_Enqueue_def ctx_Stop_def new_context_def
        ranked_def quiet_def)

end
