(* ===== verification/Aio_Reactor.thy ===== *)
theory Aio_Reactor
  imports Machine
begin

unbundle bit_operations_syntax

text \<open>
  \<^verbatim>\<open>src/minaio/v2/reactor.{h,cpp}\<close>: the registered descriptors, their handlers, and one \<^verbatim>\<open>Poll\<close>.
  Handlers are client code: \<open>program h ev\<close> is the list of calls on the reactor that handler \<open>h\<close>
  makes for the event mask \<open>ev\<close>. The system call \<^verbatim>\<open>poll\<close> is a parameter that returns its result
  and the \<^verbatim>\<open>revents\<close> it stores. \<open>fd_handlers\<close> maps to \<open>Some None\<close> where \<^verbatim>\<open>operator[]\<close> has
  inserted an empty \<^verbatim>\<open>std::function\<close>; calling that throws inside a \<^verbatim>\<open>noexcept\<close> function.
  \<^verbatim>\<open>Poll\<close> calls the \<^verbatim>\<open>std::function\<close> where it lies in the map: a handler that removes its own
  descriptor, or registers it again, destroys the function that is being executed, which is
  undefined behaviour.
\<close>

section \<open>Event masks\<close>

type_synonym event_mask = "8 word"

definition kNone :: event_mask where "kNone = 0"
definition kRead :: event_mask where "kRead = push_bit 0 1"
definition kWrite :: event_mask where "kWrite = push_bit 1 1"
definition kClose :: event_mask where "kClose = push_bit 2 1"

definition IsReadEvent :: "event_mask \<Rightarrow> bool" where "IsReadEvent m \<longleftrightarrow> m AND kRead \<noteq> 0"
definition IsWriteEvent :: "event_mask \<Rightarrow> bool" where "IsWriteEvent m \<longleftrightarrow> m AND kWrite \<noteq> 0"
definition IsCloseEvent :: "event_mask \<Rightarrow> bool" where "IsCloseEvent m \<longleftrightarrow> m AND kClose \<noteq> 0"

text \<open>The bits of \<^verbatim>\<open><poll.h>\<close> on Linux.\<close>

definition POLLIN :: "16 word" where "POLLIN = 0x1"
definition POLLOUT :: "16 word" where "POLLOUT = 0x4"
definition POLLERR :: "16 word" where "POLLERR = 0x8"
definition POLLHUP :: "16 word" where "POLLHUP = 0x10"
definition POLLNVAL :: "16 word" where "POLLNVAL = 0x20"

definition event_of :: "16 word \<Rightarrow> event_mask" where
  "event_of revents =
     (let event = 0;
          event = (if revents AND POLLIN \<noteq> 0 then event OR kRead else event);
          event = (if revents AND POLLOUT \<noteq> 0 then event OR kWrite else event)
      in if revents AND (POLLHUP OR POLLERR OR POLLNVAL) \<noteq> 0 then event OR kClose else event)"

section \<open>State and operations\<close>

record pollfd =
  pfd_fd :: int
  pfd_events :: "16 word"
  pfd_revents :: "16 word"

record 'h reactor =
  fd_data :: "pollfd list"
  fd_handlers :: "int \<Rightarrow> 'h option option"
  dispatched :: "(int \<times> event_mask) list"

definition new_reactor :: "'h reactor" where
  "new_reactor = \<lparr>fd_data = [], fd_handlers = (\<lambda>_. None), dispatched = []\<rparr>"

definition Add :: "int \<Rightarrow> 'h \<Rightarrow> event_mask \<Rightarrow> 'h reactor \<Rightarrow> 'h reactor" where
  "Add fd h flag r =
     (let pfd = \<lparr>pfd_fd = fd, pfd_events = 0 OR ucast flag, pfd_revents = 0\<rparr>
      in r\<lparr>fd_data := fd_data r @ [pfd], fd_handlers := (fd_handlers r)(fd \<mapsto> Some h)\<rparr>)"

definition Remove :: "int \<Rightarrow> 'h reactor \<Rightarrow> 'h reactor" where
  "Remove fd r =
     r\<lparr>fd_data := filter (\<lambda>pfd. fd \<noteq> pfd_fd pfd) (fd_data r),
       fd_handlers := (fd_handlers r)(fd := None)\<rparr>"

datatype 'h raction = RAdd int 'h event_mask | RRemove int

text \<open>A call made by the handler of descriptor \<open>cur\<close> while it runs: \<^verbatim>\<open>erase\<close> of its own entry and
  assignment to it destroy the running function.\<close>

fun run_raction :: "int \<Rightarrow> 'h raction \<Rightarrow> 'h reactor \<Rightarrow> fault + 'h reactor" where
  "run_raction cur (RAdd fd h flag) r =
     (if fd = cur then Inl (Undefined ''std::function destroyed while it runs'')
      else Inr (Add fd h flag r))"
| "run_raction cur (RRemove fd) r =
     (if fd = cur then Inl (Undefined ''std::function destroyed while it runs'')
      else Inr (Remove fd r))"

text \<open>One round of the loop of \<^verbatim>\<open>Poll\<close> at index \<open>i\<close>: mask, \<^verbatim>\<open>operator[]\<close>, call.\<close>

definition dispatch_step ::
    "('h \<Rightarrow> event_mask \<Rightarrow> 'h raction list) \<Rightarrow> nat \<Rightarrow> 'h reactor \<Rightarrow> fault + 'h reactor" where
  "dispatch_step program i r =
     (let pfd = fd_data r ! i;
          event = event_of (pfd_revents pfd);
          fd = pfd_fd pfd
      in case fd_handlers r fd of
           Some (Some h) \<Rightarrow>
             run_ops (run_raction fd) (program h event) (r\<lparr>dispatched := dispatched r @ [(fd, event)]\<rparr>)
         | _ \<Rightarrow> Inl (Terminated ''bad_function_call''))"

partial_function (option) dispatch_loop ::
    "('h \<Rightarrow> event_mask \<Rightarrow> 'h raction list) \<Rightarrow> nat \<Rightarrow> 'h reactor \<Rightarrow> (fault + 'h reactor) option" where
  "dispatch_loop program i r =
     (if i < length (fd_data r) then
        case dispatch_step program i r of
          Inl f \<Rightarrow> Some (Inl f)
        | Inr r' \<Rightarrow>
            dispatch_loop program (if length (fd_data r) = length (fd_data r') then i + 1 else i) r'
      else Some (Inr r))"

definition set_revents :: "16 word list \<Rightarrow> pollfd list \<Rightarrow> pollfd list" where
  "set_revents rs ps = map2 (\<lambda>p x. p\<lparr>pfd_revents := x\<rparr>) ps rs"

text \<open>A failed \<^verbatim>\<open>poll\<close> is only printed (\<^verbatim>\<open>TCPP_ABORT_IF\<close>), and the loop runs on the old
  \<^verbatim>\<open>revents\<close>.\<close>

definition reactor_Poll ::
    "(pollfd list \<Rightarrow> int \<times> 16 word list) \<Rightarrow> ('h \<Rightarrow> event_mask \<Rightarrow> 'h raction list) \<Rightarrow> 'h reactor
       \<Rightarrow> (fault + 'h reactor) option" where
  "reactor_Poll kpoll program r =
     (let (re, rs) = kpoll (fd_data r);
          r = (if re < 0 then r else r\<lparr>fd_data := set_revents rs (fd_data r)\<rparr>)
      in if re = 0 then Some (Inr r) else dispatch_loop program 0 r)"

section \<open>Invariant\<close>

text \<open>Every registered descriptor has a proper handler.\<close>

definition reactor_ok :: "'h reactor \<Rightarrow> bool" where
  "reactor_ok r \<longleftrightarrow> (\<forall>p \<in> set (fd_data r). \<exists>h. fd_handlers r (pfd_fd p) = Some (Some h))"

lemma Add_ok: "reactor_ok r \<Longrightarrow> reactor_ok (Add fd h flag r)"
  by (auto simp: reactor_ok_def Add_def Let_def)

lemma Remove_ok: "reactor_ok r \<Longrightarrow> reactor_ok (Remove fd r)"
  by (auto simp: reactor_ok_def Remove_def)

fun raction_fd :: "'h raction \<Rightarrow> int" where
  "raction_fd (RAdd fd h flag) = fd"
| "raction_fd (RRemove fd) = fd"

text \<open>A handler that leaves its own descriptor alone does no harm.\<close>

interpretation reactor_client: safe_machine "run_raction cur" "\<lambda>a _. raction_fd a \<noteq> cur" reactor_ok
  for cur
proof (unfold_locales, goal_cases)
  case (1 r a)
  then show ?case by (cases a) (simp_all add: Add_ok Remove_ok)
qed

definition own_fd :: "int \<Rightarrow> 'h raction list \<Rightarrow> bool" where
  "own_fd fd as \<longleftrightarrow> fd \<in> raction_fd ` set as"

lemma ractions_admissible:
  "\<not> own_fd cur as \<Longrightarrow> admissible (\<lambda>a _. raction_fd a \<noteq> cur) (run_raction cur) as r"
  by (induction as arbitrary: r) (auto simp: own_fd_def split: sum.split)

lemmas ractions_run = reactor_client.run_safe [OF _ ractions_admissible]

lemma ractions_own_fd:
  "own_fd cur as \<Longrightarrow> run_ops (run_raction cur) as r = Inl (Undefined ''std::function destroyed while it runs'')"
proof (induction as arbitrary: r)
  case (Cons a as)
  then show ?case by (cases a) (auto simp: own_fd_def)
qed (simp add: own_fd_def)

lemma dispatched_ok: "reactor_ok (r\<lparr>dispatched := d\<rparr>) = reactor_ok r"
  by (simp add: reactor_ok_def)

section \<open>Termination\<close>

definition no_add :: "('h \<Rightarrow> event_mask \<Rightarrow> 'h raction list) \<Rightarrow> bool" where
  "no_add program \<longleftrightarrow> (\<forall>h ev fd h' flag. RAdd fd h' flag \<notin> set (program h ev))"

text \<open>Registered handlers do not touch their own descriptor.\<close>

definition spares_own_fd :: "('h \<Rightarrow> event_mask \<Rightarrow> 'h raction list) \<Rightarrow> 'h reactor \<Rightarrow> bool" where
  "spares_own_fd program r \<longleftrightarrow>
     (\<forall>fd h ev. fd_handlers r fd = Some (Some h) \<longrightarrow> \<not> own_fd fd (program h ev))"

text \<open>Removing handlers only shrinks the registrations.\<close>

lemma ractions_shrink:
  "(\<forall>fd h flag. RAdd fd h flag \<notin> set as) \<Longrightarrow> run_ops (run_raction cur) as r = Inr r' \<Longrightarrow>
     length (fd_data r') \<le> length (fd_data r) \<and> fd_handlers r' \<subseteq>\<^sub>m fd_handlers r
     \<and> dispatched r' = dispatched r \<and> set (map pfd_fd (fd_data r')) \<subseteq> set (map pfd_fd (fd_data r))"
proof (induction as arbitrary: r)
  case (Cons a as)
  then obtain fd where a: "a = RRemove fd" by (cases a) fastforce+
  with Cons.prems(2) have run: "run_ops (run_raction cur) as (Remove fd r) = Inr r'" by (auto split: if_splits)
  have no: "\<forall>fd h flag. RAdd fd h flag \<notin> set as" using Cons.prems(1) by auto
  have "length (fd_data (Remove fd r)) \<le> length (fd_data r)" "fd_handlers (Remove fd r) \<subseteq>\<^sub>m fd_handlers r"
    "set (map pfd_fd (fd_data (Remove fd r))) \<subseteq> set (map pfd_fd (fd_data r))"
    by (auto simp: Remove_def map_le_def)
  moreover have "dispatched (Remove fd r) = dispatched r" by (simp add: Remove_def)
  ultimately show ?case using Cons.IH [OF no run] map_le_trans le_trans subset_trans by metis
qed auto

lemma dispatch_step_ok:
  assumes "reactor_ok r" "i < length (fd_data r)" "no_add program" "spares_own_fd program r"
  shows "\<exists>r'. dispatch_step program i r = Inr r' \<and> reactor_ok r' \<and> spares_own_fd program r'
    \<and> length (fd_data r') \<le> length (fd_data r) \<and> fd_handlers r' \<subseteq>\<^sub>m fd_handlers r
    \<and> set (map pfd_fd (fd_data r')) \<subseteq> set (map pfd_fd (fd_data r))
    \<and> dispatched r' = dispatched r @ [(pfd_fd (fd_data r ! i), event_of (pfd_revents (fd_data r ! i)))]"
proof -
  let ?fd = "pfd_fd (fd_data r ! i)" and ?ev = "event_of (pfd_revents (fd_data r ! i))"
  let ?r = "r\<lparr>dispatched := dispatched r @ [(?fd, ?ev)]\<rparr>"
  obtain h where h: "fd_handlers r ?fd = Some (Some h)"
    using bspec [OF assms(1) [unfolded reactor_ok_def] nth_mem [OF assms(2)]] by blast
  with assms(4) have "\<not> own_fd ?fd (program h ?ev)" by (simp add: spares_own_fd_def)
  from ractions_run [OF _ this, of ?r] assms(1) obtain r' where
    r': "run_ops (run_raction ?fd) (program h ?ev) ?r = Inr r'" "reactor_ok r'"
    by (auto simp: dispatched_ok)
  have "\<forall>fd h' flag. RAdd fd h' flag \<notin> set (program h ?ev)" using assms(3) by (simp add: no_add_def)
  from ractions_shrink [OF this r'(1)] have s: "length (fd_data r') \<le> length (fd_data r)"
    "fd_handlers r' \<subseteq>\<^sub>m fd_handlers r" "dispatched r' = dispatched ?r"
    "set (map pfd_fd (fd_data r')) \<subseteq> set (map pfd_fd (fd_data r))"
    by simp_all
  have "spares_own_fd program r'"
    unfolding spares_own_fd_def
  proof (intro allI impI)
    fix fd h ev
    assume "fd_handlers r' fd = Some (Some h)"
    with s(2) have "fd_handlers r fd = Some (Some h)" by (metis domI map_le_def)
    with assms(4) show "\<not> own_fd fd (program h ev)" by (simp add: spares_own_fd_def)
  qed
  moreover have "dispatch_step program i r = Inr r'" using h r'(1) by (simp add: dispatch_step_def Let_def)
  ultimately show ?thesis using r'(2) s by simp
qed

lemma dispatch_loop_terminates:
  assumes "no_add program"
  shows "reactor_ok r \<Longrightarrow> spares_own_fd program r \<Longrightarrow>
    \<exists>r' new. dispatch_loop program i r = Some (Inr r') \<and> reactor_ok r' \<and> fd_handlers r' \<subseteq>\<^sub>m fd_handlers r
      \<and> set (map pfd_fd (fd_data r')) \<subseteq> set (map pfd_fd (fd_data r))
      \<and> dispatched r' = dispatched r @ new \<and> set (map fst new) \<subseteq> set (map pfd_fd (fd_data r))
      \<and> length new \<le> length (fd_data r) - i"
proof (induction "length (fd_data r) - i" arbitrary: i r rule: less_induct)
  case less
  show ?case
  proof (cases "i < length (fd_data r)")
    case False
    with less.prems show ?thesis by (subst dispatch_loop.simps) auto
  next
    case True
    let ?p = "fd_data r ! i"
    let ?new = "(pfd_fd ?p, event_of (pfd_revents ?p))"
    from dispatch_step_ok [OF less.prems(1) True assms less.prems(2)] obtain r1 where
      r1: "dispatch_step program i r = Inr r1" "reactor_ok r1" "spares_own_fd program r1"
      "length (fd_data r1) \<le> length (fd_data r)" "fd_handlers r1 \<subseteq>\<^sub>m fd_handlers r"
      "set (map pfd_fd (fd_data r1)) \<subseteq> set (map pfd_fd (fd_data r))" "dispatched r1 = dispatched r @ [?new]"
      by blast
    let ?i = "if length (fd_data r) = length (fd_data r1) then i + 1 else i"
    have dec: "length (fd_data r1) - ?i < length (fd_data r) - i" using True r1(4) by auto
    from less.hyps [OF dec r1(2,3)] obtain r' new where
      r': "dispatch_loop program ?i r1 = Some (Inr r')" "reactor_ok r'" "fd_handlers r' \<subseteq>\<^sub>m fd_handlers r1"
      "set (map pfd_fd (fd_data r')) \<subseteq> set (map pfd_fd (fd_data r1))"
      "dispatched r' = dispatched r1 @ new" "set (map fst new) \<subseteq> set (map pfd_fd (fd_data r1))"
      "length new \<le> length (fd_data r1) - ?i"
      by blast
    have "dispatch_loop program i r = Some (Inr r')"
      using r'(1) r1(1) True by (subst dispatch_loop.simps) simp
    moreover have "dispatched r' = dispatched r @ (?new # new)" using r'(5) r1(7) by simp
    moreover have "set (map fst (?new # new)) \<subseteq> set (map pfd_fd (fd_data r))"
      using r'(6) r1(6) True by auto
    moreover have "length (?new # new) \<le> length (fd_data r) - i" using r'(7) dec by simp
    ultimately show ?thesis using r'(2) map_le_trans [OF r'(3) r1(5)] subset_trans [OF r'(4) r1(6)] by blast
  qed
qed

section \<open>Handlers that leave the registrations alone\<close>

lemma idle_program:
  assumes "\<And>h ev. program h ev = []"
  shows "no_add program" "spares_own_fd program r"
  using assms by (simp_all add: no_add_def spares_own_fd_def own_fd_def)

lemma dispatch_loop_all:
  assumes "reactor_ok r" "\<And>h ev. program h ev = []"
  shows "dispatch_loop program i r
    = Some (Inr (r\<lparr>dispatched := dispatched r @
        map (\<lambda>p. (pfd_fd p, event_of (pfd_revents p))) (drop i (fd_data r))\<rparr>))"
  using assms(1)
proof (induction "length (fd_data r) - i" arbitrary: i r)
  case 0
  then show ?case by (subst dispatch_loop.simps) simp
next
  case (Suc n)
  then have i: "i < length (fd_data r)" by simp
  let ?p = "fd_data r ! i"
  let ?r = "r\<lparr>dispatched := dispatched r @ [(pfd_fd ?p, event_of (pfd_revents ?p))]\<rparr>"
  from bspec [OF Suc.prems [unfolded reactor_ok_def] nth_mem [OF i]]
  have step: "dispatch_step program i r = Inr ?r"
    by (auto simp: dispatch_step_def Let_def assms(2))
  have "dispatch_loop program (i + 1) ?r = Some (Inr (?r\<lparr>dispatched := dispatched ?r @
        map (\<lambda>p. (pfd_fd p, event_of (pfd_revents p))) (drop (i + 1) (fd_data ?r))\<rparr>))"
    using Suc.hyps(2) Suc.prems by (intro Suc.hyps(1)) (simp_all add: dispatched_ok)
  with i step show ?case
    by (subst dispatch_loop.simps) (simp add: Cons_nth_drop_Suc [symmetric])
qed

section \<open>The properties of the reactor\<close>

lemma set_revents_fds: "length rs = length ps \<Longrightarrow> map pfd_fd (set_revents rs ps) = map pfd_fd ps"
  by (induction rs ps rule: list_induct2) (simp_all add: set_revents_def)

lemma set_revents_events:
  "length rs = length ps \<Longrightarrow> map (\<lambda>p. (pfd_fd p, event_of (pfd_revents p))) (set_revents rs ps)
     = zip (map pfd_fd ps) (map event_of rs)"
  by (induction rs ps rule: list_induct2) (simp_all add: set_revents_def)

lemma reactor_ok_fds:
  "map pfd_fd ps = map pfd_fd (fd_data r) \<Longrightarrow> reactor_ok r \<Longrightarrow> reactor_ok (r\<lparr>fd_data := ps\<rparr>)"
  unfolding reactor_ok_def by (simp, metis (no_types, lifting) image_iff list.set_map)

text \<open>What the loop of \<^verbatim>\<open>Poll\<close> works on: nothing when the system call reports no event, the old
  \<^verbatim>\<open>revents\<close> when it fails.\<close>

definition polled_events :: "int \<times> 16 word list \<Rightarrow> pollfd list \<Rightarrow> (int \<times> event_mask) list" where
  "polled_events answer ps =
     (if fst answer = 0 then []
      else zip (map pfd_fd ps) (map event_of (if fst answer < 0 then map pfd_revents ps else snd answer)))"


lemma reactor_Poll_defined:
  assumes "reactor_ok r" "no_add program" "spares_own_fd program r"
    "length (snd (kpoll (fd_data r))) = length (fd_data r)"
  shows "\<exists>r' new. reactor_Poll kpoll program r = Some (Inr r') \<and> reactor_ok r' \<and> fd_handlers r' \<subseteq>\<^sub>m fd_handlers r
    \<and> set (map pfd_fd (fd_data r')) \<subseteq> set (map pfd_fd (fd_data r))
    \<and> dispatched r' = dispatched r @ new \<and> set (map fst new) \<subseteq> set (map pfd_fd (fd_data r))
    \<and> length new \<le> length (fd_data r)"
proof -
  obtain re rs where k: "kpoll (fd_data r) = (re, rs)" by fastforce
  let ?r = "if re < 0 then r else r\<lparr>fd_data := set_revents rs (fd_data r)\<rparr>"
  have fds: "map pfd_fd (fd_data ?r) = map pfd_fd (fd_data r)"
    using assms(4) k by (simp add: set_revents_fds)
  have ok: "reactor_ok ?r" using assms(1,4) k by (simp add: reactor_ok_fds set_revents_fds)
  have own: "spares_own_fd program ?r" using assms(3) by (simp add: spares_own_fd_def)
  have len: "length (fd_data ?r) = length (fd_data r)" using arg_cong [OF fds, of length] by simp
  have same: "fd_handlers ?r = fd_handlers r" "dispatched ?r = dispatched r" by simp_all
  show ?thesis
  proof (cases "re = 0")
    case True
    with k ok fds same show ?thesis
      by (intro exI [of _ ?r] exI [of _ "[]"]) (simp add: reactor_Poll_def)
  next
    case False
    from dispatch_loop_terminates [OF assms(2) ok own, of 0] obtain r' new where
      r': "dispatch_loop program 0 ?r = Some (Inr r')" "reactor_ok r'" "fd_handlers r' \<subseteq>\<^sub>m fd_handlers ?r"
      "set (map pfd_fd (fd_data r')) \<subseteq> set (map pfd_fd (fd_data ?r))" "dispatched r' = dispatched ?r @ new"
      "set (map fst new) \<subseteq> set (map pfd_fd (fd_data ?r))" "length new \<le> length (fd_data ?r)" by auto
    have "reactor_Poll kpoll program r = Some (Inr r')" using r'(1) False k by (simp add: reactor_Poll_def Let_def)
    with r'(2-7) show ?thesis unfolding same len fds by blast
  qed
qed


text \<open>
  The size check of the loop is meant for a handler that removes its own descriptor, but that
  handler is the \<^verbatim>\<open>std::function\<close> in the map: the removal (or a second registration) destroys
  it while it runs.
\<close>
theorem reactor_Poll_own_fd:
  assumes "fd_data r = p # ps" "fd_handlers r (pfd_fd p) = Some (Some h)"
    "kpoll (fd_data r) = (re, e # es)" "re > 0" "own_fd (pfd_fd p) (program h (event_of e))"
  shows "reactor_Poll kpoll program r = Some (Inl (Undefined ''std::function destroyed while it runs''))"
proof -
  let ?r = "r\<lparr>fd_data := set_revents (e # es) (p # ps)\<rparr>"
  have "dispatch_step program 0 ?r = Inl (Undefined ''std::function destroyed while it runs'')"
    using assms(2,5) by (simp add: dispatch_step_def Let_def set_revents_def ractions_own_fd)
  moreover have "0 < length (fd_data ?r)" by (simp add: set_revents_def)
  ultimately have "dispatch_loop program 0 ?r = Some (Inl (Undefined ''std::function destroyed while it runs''))"
    by (subst dispatch_loop.simps) simp
  with assms(1,3,4) show ?thesis by (simp add: reactor_Poll_def Let_def)
qed

text \<open>
  A handler that removes another descriptor is called a second time in the same \<^verbatim>\<open>Poll\<close>, with
  the same event: the loop takes the smaller size as the removal of the current one.
\<close>
theorem reactor_Poll_calls_twice:
  assumes "a \<noteq> b" "event_of ea \<noteq> 0"
    and prog: "\<And>ev. program ha ev = [RRemove b]"
    and r: "r = Add b hb flag (Add a ha flag new_reactor)"
    and k: "\<And>ps. kpoll ps = (2, [ea, eb])"
  shows "\<exists>r'. reactor_Poll kpoll program r = Some (Inr r')
    \<and> dispatched r' = [(a, event_of ea), (a, event_of ea)]"
proof -
  have first: "dispatch_step program 0 (r\<lparr>fd_data := set_revents [ea, eb] (fd_data r)\<rparr>) =
      Inr \<lparr>fd_data = [\<lparr>pfd_fd = a, pfd_events = ucast flag, pfd_revents = ea\<rparr>],
           fd_handlers = [a \<mapsto> Some ha], dispatched = [(a, event_of ea)]\<rparr>"
    using assms(1)
    by (auto simp: r Add_def new_reactor_def set_revents_def dispatch_step_def Let_def prog Remove_def)
  have second: "dispatch_step program 0 \<lparr>fd_data = [\<lparr>pfd_fd = a, pfd_events = ucast flag, pfd_revents = ea\<rparr>],
           fd_handlers = [a \<mapsto> Some ha], dispatched = [(a, event_of ea)]\<rparr> =
      Inr \<lparr>fd_data = [\<lparr>pfd_fd = a, pfd_events = ucast flag, pfd_revents = ea\<rparr>],
           fd_handlers = [a \<mapsto> Some ha], dispatched = [(a, event_of ea), (a, event_of ea)]\<rparr>"
    using assms(1)
    by (simp add: dispatch_step_def Let_def prog Remove_def fun_upd_idem)
  have len: "length (fd_data (r\<lparr>fd_data := set_revents [ea, eb] (fd_data r)\<rparr>)) = 2"
    by (simp add: r Add_def new_reactor_def set_revents_def Let_def)
  have "dispatch_loop program 0 (r\<lparr>fd_data := set_revents [ea, eb] (fd_data r)\<rparr>) =
      Some (Inr \<lparr>fd_data = [\<lparr>pfd_fd = a, pfd_events = ucast flag, pfd_revents = ea\<rparr>],
           fd_handlers = [a \<mapsto> Some ha], dispatched = [(a, event_of ea), (a, event_of ea)]\<rparr>)"
    using len
    by (subst dispatch_loop.simps, simp only: first)
       (simp, subst dispatch_loop.simps, simp only: second, simp, subst dispatch_loop.simps, simp)
  then show ?thesis by (simp add: reactor_Poll_def k)
qed

text \<open>
  A handler that registers a new descriptor on every call keeps \<^verbatim>\<open>Poll\<close> from returning: the
  size has changed, so the loop stays at the same index and calls the handler again.
\<close>
theorem reactor_Poll_diverges:
  assumes prog: "\<And>ev. program h ev = [RAdd fd h flag]" and new: "fd \<noteq> pfd_fd p"
    and r: "fd_data r = [p]" "fd_handlers r (pfd_fd p) = Some (Some h)"
    and k: "kpoll [p] = (1, [e])"
  shows "reactor_Poll kpoll program r = None"
proof -
  have "\<not> (0 < length (fd_data r) \<and> pfd_fd (fd_data r ! 0) = pfd_fd p \<and> fd_handlers r (pfd_fd p) = Some (Some h))"
    if "dispatch_loop program 0 r = Some x" for r :: "'a reactor" and x
  proof -
    have "\<not> (program' = program \<and> i = 0 \<and> 0 < length (fd_data r)
        \<and> pfd_fd (fd_data r ! 0) = pfd_fd p \<and> fd_handlers r (pfd_fd p) = Some (Some h))"
      if "dispatch_loop program' i r = Some x" for program' i and r :: "'a reactor" and x
      using that
    proof (rule dispatch_loop.raw_induct [rotated])
      fix f program' i and r :: "'a reactor" and x
      assume IH: "\<And>program' i r x. f program' i r = Some x \<Longrightarrow>
          \<not> (program' = program \<and> i = 0 \<and> 0 < length (fd_data r)
             \<and> pfd_fd (fd_data r ! 0) = pfd_fd p \<and> fd_handlers r (pfd_fd p) = Some (Some h))"
        and eq: "(if i < length (fd_data r) then
            case dispatch_step program' i r of Inl f \<Rightarrow> Some (Inl f)
            | Inr r' \<Rightarrow> f program' (if length (fd_data r) = length (fd_data r') then i + 1 else i) r'
          else Some (Inr r)) = Some x"
      show "\<not> (program' = program \<and> i = 0 \<and> 0 < length (fd_data r)
             \<and> pfd_fd (fd_data r ! 0) = pfd_fd p \<and> fd_handlers r (pfd_fd p) = Some (Some h))"
      proof
        assume a: "program' = program \<and> i = 0 \<and> 0 < length (fd_data r)
             \<and> pfd_fd (fd_data r ! 0) = pfd_fd p \<and> fd_handlers r (pfd_fd p) = Some (Some h)"
        obtain q qs where q: "fd_data r = q # qs" using a by (cases "fd_data r") auto
        let ?r = "Add fd h flag (r\<lparr>dispatched := dispatched r @ [(pfd_fd q, event_of (pfd_revents q))]\<rparr>)"
        have step: "dispatch_step program' i r = Inr ?r"
          using a q new by (simp add: dispatch_step_def prog Let_def)
        have "f program 0 ?r = Some x"
          using eq a q step by (simp add: Add_def Let_def)
        from IH [OF this] show False
          using a q by (simp add: Add_def Let_def split: if_splits)
      qed
    qed
    from this [OF \<open>dispatch_loop program 0 r = Some x\<close>] show ?thesis by simp
  qed
  from this [of "r\<lparr>fd_data := [p\<lparr>pfd_revents := e\<rparr>]\<rparr>"] r
  have "dispatch_loop program 0 (r\<lparr>fd_data := [p\<lparr>pfd_revents := e\<rparr>]\<rparr>) = None"
    by (cases "dispatch_loop program 0 (r\<lparr>fd_data := [p\<lparr>pfd_revents := e\<rparr>]\<rparr>)") auto
  with r k show ?thesis by (simp add: reactor_Poll_def set_revents_def)
qed

section \<open>Witnesses\<close>

definition two_fds :: "nat reactor" where
  "two_fds = Add 4 20 1 (Add 3 10 1 new_reactor)"

lemma two_fds_ok: "reactor_ok two_fds" "fd_data two_fds = [\<lparr>pfd_fd = 3, pfd_events = 1, pfd_revents = 0\<rparr>,
    \<lparr>pfd_fd = 4, pfd_events = 1, pfd_revents = 0\<rparr>]" "dispatched two_fds = []"
  by (simp_all add: two_fds_def Add_ok) (simp_all add: reactor_ok_def new_reactor_def Add_def)



lemma reactor_Poll_own_fd_witness:
  "reactor_Poll (\<lambda>_. (1, [POLLHUP, 0])) (\<lambda>h ev. if IsCloseEvent ev then [RRemove 3] else []) two_fds
     = Some (Inl (Undefined ''std::function destroyed while it runs''))"
proof (rule reactor_Poll_own_fd [where h = 10 and re = 1, OF two_fds_ok(2)])
  have "IsCloseEvent (event_of POLLHUP)" by code_simp
  then show "own_fd (pfd_fd \<lparr>pfd_fd = 3, pfd_events = 1, pfd_revents = 0\<rparr>)
      (if IsCloseEvent (event_of POLLHUP) then [RRemove 3] else [])"
    by (simp add: own_fd_def)
qed (simp_all add: two_fds_def Add_def new_reactor_def)

lemma reactor_Poll_calls_twice_witness:
  "\<exists>r'. reactor_Poll (\<lambda>_. (2, [POLLIN, POLLIN])) (\<lambda>h _. if h = 10 then [RRemove 4] else []) two_fds
      = Some (Inr r') \<and> dispatched r' = [(3, event_of POLLIN), (3, event_of POLLIN)]"
  by (rule reactor_Poll_calls_twice [where ha = 10 and b = 4 and hb = 20 and flag = 1 and eb = POLLIN])
     (simp_all add: two_fds_def event_of_def POLLIN_def POLLOUT_def POLLHUP_def POLLERR_def POLLNVAL_def
        kRead_def Let_def)

lemma reactor_Poll_diverges_witness:
  "reactor_Poll (\<lambda>_. (1, [POLLIN])) (\<lambda>h _. [RAdd 7 h 1]) (Add 3 (10 :: nat) 1 new_reactor) = None"
  by (rule reactor_Poll_diverges [where h = 10 and fd = 7 and flag = 1
        and p = "\<lparr>pfd_fd = 3, pfd_events = 1, pfd_revents = 0\<rparr>" and e = POLLIN])
     (simp_all add: Add_def new_reactor_def)

end
