(* ===== verification/Aio_FD.thy ===== *)
theory Aio_FD
  imports Core_UniqueRef
begin

text \<open>
  \<^verbatim>\<open>src/minaio/v2/fd.h\<close>: the owner of a file descriptor. The kernel side is the set of open
  descriptors and a count of \<^verbatim>\<open>close\<close> calls on descriptors that are not open (which \<^verbatim>\<open>FD::close\<close>
  only prints). \<open>raw\<close> marks the descriptors that \<^verbatim>\<open>release\<close> has handed out and that the caller has
  not closed or given to another \<^verbatim>\<open>FD\<close>. Ownership is that of \<open>Core_UniqueRef\<close>: \<open>fd_abs\<close> reads an
  \<^verbatim>\<open>FD\<close> as a reference to a descriptor, and the two invariants are the same.
\<close>

section \<open>State and operations\<close>

record fds =
  fobjs :: "nat \<Rightarrow> int option"
  kopen :: "int \<Rightarrow> bool"
  raw :: "int \<Rightarrow> bool"
  bad_closes :: nat

definition kInvalid :: int where "kInvalid = -1"

definition get_fd :: "nat \<Rightarrow> fds \<Rightarrow> fault + int" where
  "get_fd u s =
     (case fobjs s u of Some fd \<Rightarrow> Inr fd | None \<Rightarrow> Inl (Undefined ''object outside its lifetime''))"

definition set_fd :: "nat \<Rightarrow> int \<Rightarrow> fds \<Rightarrow> fds" where
  "set_fd u fd s = s\<lparr>fobjs := (fobjs s)(u \<mapsto> fd)\<rparr>"

definition is_open :: "int \<Rightarrow> bool" where
  "is_open fd \<longleftrightarrow> fd \<ge> 0"

definition kclose :: "int \<Rightarrow> fds \<Rightarrow> fds" where
  "kclose fd s =
     (if kopen s fd then s\<lparr>kopen := (kopen s)(fd := False)\<rparr> else s\<lparr>bad_closes := bad_closes s + 1\<rparr>)"

definition fd_close :: "nat \<Rightarrow> fds \<Rightarrow> fault + fds" where
  "fd_close u s =
     bind_res (get_fd u s) (\<lambda>fd.
       if is_open fd then Inr (set_fd u kInvalid (kclose fd s)) else Inr s)"

definition fd_release :: "nat \<Rightarrow> fds \<Rightarrow> fault + (int \<times> fds)" where
  "fd_release u s = bind_res (get_fd u s) (\<lambda>tmp. Inr (tmp, set_fd u kInvalid s))"

definition fd_move_ctor :: "nat \<Rightarrow> nat \<Rightarrow> fds \<Rightarrow> fault + fds" where
  "fd_move_ctor u r s = bind_res (fd_release r s) (\<lambda>(fd, s). Inr (set_fd u fd s))"

definition fd_move_assign :: "nat \<Rightarrow> nat \<Rightarrow> fds \<Rightarrow> fault + fds" where
  "fd_move_assign u r s =
     bind_res (fd_close u s) (\<lambda>s. bind_res (fd_release r s) (\<lambda>(fd, s). Inr (set_fd u fd s)))"

definition fd_destroy :: "nat \<Rightarrow> fds \<Rightarrow> fault + fds" where
  "fd_destroy u s =
     bind_res (fd_close u s) (\<lambda>s. Inr (s\<lparr>fobjs := (fobjs s)(u := None)\<rparr>))"

datatype fd_op =
    FDDefault nat
  | FDOpen nat int
  | FDMoveCtor nat nat
  | FDMoveAssign nat nat
  | FDClose nat
  | FDRelease nat
  | FDAdopt nat int
  | FDCloseRaw int
  | FDDestroy nat

text \<open>\<open>FDOpen u fd\<close>: the kernel has opened \<open>fd\<close> and \<^verbatim>\<open>FD u{fd}\<close> takes it. \<open>FDAdopt u fd\<close> is the same
  constructor on a descriptor the caller got from \<^verbatim>\<open>release\<close>, and \<open>FDCloseRaw fd\<close> its own
  \<^verbatim>\<open>::close(fd)\<close>.\<close>

fun fd_step :: "fd_op \<Rightarrow> fds \<Rightarrow> fault + fds" where
  "fd_step (FDDefault u) s = Inr (set_fd u kInvalid s)"
| "fd_step (FDOpen u fd) s = Inr (set_fd u fd (s\<lparr>kopen := (kopen s)(fd := True)\<rparr>))"
| "fd_step (FDMoveCtor u r) s = fd_move_ctor u r s"
| "fd_step (FDMoveAssign u r) s = fd_move_assign u r s"
| "fd_step (FDClose u) s = fd_close u s"
| "fd_step (FDRelease u) s =
     bind_res (fd_release u s) (\<lambda>(fd, s). Inr (if is_open fd then s\<lparr>raw := (raw s)(fd := True)\<rparr> else s))"
| "fd_step (FDAdopt u fd) s = Inr (set_fd u fd (s\<lparr>raw := (raw s)(fd := False)\<rparr>))"
| "fd_step (FDCloseRaw fd) s = Inr (kclose fd (s\<lparr>raw := (raw s)(fd := False)\<rparr>))"
| "fd_step (FDDestroy u) s = fd_destroy u s"

fun fd_pre :: "fd_op \<Rightarrow> fds \<Rightarrow> bool" where
  "fd_pre (FDDefault u) s = (fobjs s u = None)"
| "fd_pre (FDOpen u fd) s = (fobjs s u = None \<and> 0 \<le> fd \<and> \<not> kopen s fd)"
| "fd_pre (FDMoveCtor u r) s = (fobjs s u = None \<and> fobjs s r \<noteq> None)"
| "fd_pre (FDMoveAssign u r) s = (fobjs s u \<noteq> None \<and> fobjs s r \<noteq> None)"
| "fd_pre (FDClose u) s = (fobjs s u \<noteq> None)"
| "fd_pre (FDRelease u) s = (fobjs s u \<noteq> None)"
| "fd_pre (FDAdopt u fd) s = (fobjs s u = None \<and> raw s fd)"
| "fd_pre (FDCloseRaw fd) s = raw s fd"
| "fd_pre (FDDestroy u) s = (fobjs s u \<noteq> None)"

section \<open>Ownership\<close>

definition owned :: "int \<Rightarrow> nat option" where
  "owned fd = (if is_open fd then Some (nat fd) else None)"

definition fd_abs :: "fds \<Rightarrow> unit uheap" where
  "fd_abs s = \<lparr>refs = (\<lambda>u. map_option owned (fobjs s u)),
     cells = (\<lambda>c. if kopen s (int c) then Some () else None), held = (\<lambda>c. raw s (int c))\<rparr>"

definition fd_inv :: "fds \<Rightarrow> bool" where
  "fd_inv s \<longleftrightarrow> ur_inv (fd_abs s) \<and> bad_closes s = 0 \<and> (\<forall>fd. kopen s fd \<or> raw s fd \<longrightarrow> 0 \<le> fd)"

lemma owned_simps [simp]: "owned kInvalid = None" "0 \<le> fd \<Longrightarrow> owned fd = Some (nat fd)"
  by (simp_all add: owned_def is_open_def kInvalid_def)

lemma fd_abs_set: "fd_abs (set_fd u fd s) = set_ref u (owned fd) (fd_abs s)"
  by (auto simp: fd_abs_def set_fd_def set_ref_def)

lemma refs_abs: "refs (fd_abs s) u = map_option owned (fobjs s u)"
  by (simp add: fd_abs_def)

lemma nat_point:
  assumes "0 \<le> (fd :: int)"
  shows "(\<lambda>c. g ((f(fd := b)) (int c))) = (\<lambda>c. g (f (int c)))(nat fd := g b)"
  by (rule ext) (use assms in auto)

lemma abs_kopen:
  assumes "0 \<le> fd"
  shows "fd_abs (s\<lparr>kopen := (kopen s)(fd := b)\<rparr>)
    = (fd_abs s)\<lparr>cells := (cells (fd_abs s))(nat fd := if b then Some () else None)\<rparr>"
  using nat_point [OF assms, of "\<lambda>b. if b then Some () else None" "kopen s" b]
  by (simp add: fd_abs_def del: fun_upd_apply)

lemma abs_raw:
  assumes "0 \<le> fd"
  shows "fd_abs (s\<lparr>raw := (raw s)(fd := b)\<rparr>)
    = (fd_abs s)\<lparr>held := (held (fd_abs s))(nat fd := b)\<rparr>"
  using nat_point [OF assms, of "\<lambda>b. b" "raw s" b] by (simp add: fd_abs_def del: fun_upd_apply)

text \<open>Closing is deleting the owned cell; \<open>p'\<close> is what the object holds afterwards.\<close>

lemma fd_abs_without: "fd_abs (s\<lparr>fobjs := (fobjs s)(u := None)\<rparr>) = (fd_abs s)\<lparr>refs := (refs (fd_abs s))(u := None)\<rparr>"
  by (auto simp: fd_abs_def)

lemma fd_close_ok:
  assumes "fd_inv s" "fobjs s u = Some fd"
  shows "\<exists>s'. fd_close u s = Inr s' \<and> fd_inv s' \<and> fd_inv (s'\<lparr>fobjs := (fobjs s')(u := None)\<rparr>)
    \<and> (\<exists>fd'. owned fd' = None \<and> fobjs s' = (fobjs s)(u \<mapsto> fd'))"
proof (cases "is_open fd")
  case False
  then have own: "refs (fd_abs s) u = Some None" using assms(2) by (simp add: refs_abs owned_def)
  from ur_inv_delete [of "fd_abs s" u None None] assms(1) own
  have "ur_inv (fd_abs (s\<lparr>fobjs := (fobjs s)(u := None)\<rparr>))"
    by (simp add: fd_inv_def delete_ptr_def fd_abs_without)
  with False assms show ?thesis
    by (auto simp: fd_close_def get_fd_def fd_inv_def owned_def fun_upd_idem)
next
  case True
  then have own: "refs (fd_abs s) u = Some (Some (nat fd))" using assms(2) by (simp add: refs_abs owned_def)
  have ur: "ur_inv (fd_abs s)" using assms(1) by (simp add: fd_inv_def)
  from ur_inv_delete [OF ur own, of None] have live: "kopen s fd"
    using True by (auto simp: delete_ptr_def fd_abs_def is_open_def split: if_splits)
  let ?s = "set_fd u kInvalid (s\<lparr>kopen := (kopen s)(fd := False)\<rparr>)"
  have cells: "fd_abs (s\<lparr>kopen := (kopen s)(fd := False)\<rparr>) = (fd_abs s)\<lparr>cells := (cells (fd_abs s))(nat fd := None)\<rparr>"
    using True by (simp add: abs_kopen is_open_def)
  have del: "delete_ptr (Some (nat fd)) (fd_abs s) = Inr ((fd_abs s)\<lparr>cells := (cells (fd_abs s))(nat fd := None)\<rparr>)"
    using live True by (simp add: delete_ptr_def fd_abs_def is_open_def)
  have "ur_inv (fd_abs ?s)"
    using ur_inv_delete [OF ur own, of "Some None"] del by (simp add: fd_abs_set cells set_ref_def)
  moreover have "ur_inv (fd_abs (?s\<lparr>fobjs := (fobjs ?s)(u := None)\<rparr>))"
    using ur_inv_delete [OF ur own, of None] del by (simp add: fd_abs_without fd_abs_set cells set_ref_def)
  ultimately show ?thesis
    using True live assms
    by (auto simp: fd_close_def get_fd_def kclose_def fd_inv_def set_fd_def intro!: exI [of _ kInvalid])
qed

lemma fd_transfer:
  assumes "fd_inv s" "fobjs s r = Some fd" "u \<noteq> r" "fobjs s u = None \<or> (\<exists>fd'. fobjs s u = Some fd' \<and> owned fd' = None)"
  shows "fd_inv (set_fd u fd (set_fd r kInvalid s))"
proof -
  have "ur_inv (set_ref r None (set_ref u (owned fd) (fd_abs s)))"
    by (rule ur_inv_transfer) (use assms in \<open>auto simp: fd_inv_def refs_abs\<close>)
  moreover have "set_ref r None (set_ref u (owned fd) (fd_abs s)) = set_ref u (owned fd) (set_ref r None (fd_abs s))"
    using assms(3) by (simp add: set_ref_def fun_upd_twist)
  ultimately show ?thesis using assms(1) by (simp add: fd_inv_def fd_abs_set) (simp add: set_fd_def)
qed

lemma fd_release_ok:
  assumes "fd_inv s" "fobjs s u = Some fd"
  shows "\<exists>s'. fd_step (FDRelease u) s = Inr s' \<and> fd_inv s'"
proof (cases "is_open fd")
  case False
  then have own: "refs (fd_abs s) u = Some None" using assms(2) by (simp add: refs_abs owned_def)
  from ur_inv_delete [of "fd_abs s" u None "Some None"] assms(1) own
  have "ur_inv (set_ref u None (fd_abs s))" by (simp add: fd_inv_def delete_ptr_def set_ref_def)
  with False assms show ?thesis
    by (simp add: fd_release_def get_fd_def fd_inv_def fd_abs_set) (simp add: set_fd_def)
next
  case True
  then have own: "refs (fd_abs s) u = Some (Some (nat fd))" using assms(2) by (simp add: refs_abs owned_def)
  let ?s = "(set_fd u kInvalid s)\<lparr>raw := (raw s)(fd := True)\<rparr>"
  from ur_release_ok [OF _ own] assms(1)
  have "ur_inv ((set_ref u None (fd_abs s))\<lparr>held := (held (fd_abs s))(nat fd := True)\<rparr>)"
    by (simp add: fd_inv_def ur_release_def get_ref_def own)
  moreover have "fd_abs ?s = (set_ref u None (fd_abs s))\<lparr>held := (held (fd_abs s))(nat fd := True)\<rparr>"
    using abs_raw [of fd "set_fd u kInvalid s" True] True
    by (simp only: is_open_def fd_abs_set set_ref_cells owned_simps) (simp add: set_fd_def)
  ultimately have "fd_inv ?s" using assms(1) True by (simp add: fd_inv_def set_fd_def is_open_def)
  with True assms show ?thesis by (simp add: fd_release_def get_fd_def) (simp add: set_fd_def)
qed

lemma fd_step_ok:
  assumes "fd_inv s" "fd_pre op s"
  shows "\<exists>s'. fd_step op s = Inr s' \<and> fd_inv s'"
proof (cases op)
  case (FDDefault u)
  then have none: "refs (fd_abs s) u = None" using assms(2) by (simp add: refs_abs)
  have "ur_inv (set_ref u None (fd_abs s))"
    using owner_empty [of "owners (fd_abs s)" "cells (fd_abs s)" "Inl u" "Some None"] assms(1) none
    by (simp add: fd_inv_def ur_inv_def owners_sel)
  with FDDefault assms(1) show ?thesis
    by (simp add: fd_inv_def fd_abs_set) (simp add: set_fd_def)
next
  case (FDOpen u fd)
  with assms have pre: "refs (fd_abs s) u = None" "cells (fd_abs s) (nat fd) = None" "0 \<le> fd"
    by (auto simp: fd_abs_def)
  have "fd_abs (s\<lparr>kopen := (kopen s)(fd := True)\<rparr>) = (fd_abs s)\<lparr>cells := (cells (fd_abs s))(nat fd \<mapsto> ())\<rparr>"
    using pre(3) by (simp add: abs_kopen)
  moreover have "ur_inv (set_ref u (Some (nat fd)) ((fd_abs s)\<lparr>cells := (cells (fd_abs s))(nat fd \<mapsto> ())\<rparr>))"
    using owner_new [of "owners (fd_abs s)" "cells (fd_abs s)" "Inl u" "nat fd" "()"] assms(1) pre(1,2)
    by (simp add: fd_inv_def ur_inv_def owners_sel)
  ultimately show ?thesis using assms(1) pre(3) FDOpen
    by (auto simp: fd_inv_def fd_abs_set) (auto simp: set_fd_def split: if_splits)
next
  case (FDMoveCtor u r)
  with assms(2) obtain fd where fd: "fobjs s r = Some fd" "fobjs s u = None" by auto
  then have "u \<noteq> r" by auto
  with FDMoveCtor fd fd_transfer [OF assms(1) fd(1)] show ?thesis
    by (simp add: fd_move_ctor_def fd_release_def get_fd_def)
next
  case (FDMoveAssign u r)
  with assms(2) obtain fu fr where f: "fobjs s u = Some fu" "fobjs s r = Some fr" by auto
  obtain s1 fd' where s1: "fd_close u s = Inr s1" "fd_inv s1" "owned fd' = None"
    "fobjs s1 = (fobjs s)(u \<mapsto> fd')"
    using fd_close_ok [OF assms(1) f(1)] by auto
  show ?thesis
  proof (cases "u = r")
    case True
    with s1 have "set_fd r fd' (set_fd r kInvalid s1) = s1"
      by (simp add: set_fd_def fun_upd_idem)
    with FDMoveAssign True s1 show ?thesis
      by (simp add: fd_move_assign_def fd_release_def get_fd_def)
  next
    case False
    with FDMoveAssign s1 f fd_transfer [OF s1(2), of r fr u] show ?thesis
      by (simp add: fd_move_assign_def fd_release_def get_fd_def)
  qed
next
  case (FDClose u)
  with assms fd_close_ok show ?thesis by fastforce
next
  case (FDRelease u)
  with assms fd_release_ok show ?thesis by fastforce
next
  case (FDAdopt u fd)
  with assms have pre: "refs (fd_abs s) u = None" "held (fd_abs s) (nat fd)" "0 \<le> fd"
    by (auto simp: fd_abs_def fd_inv_def)
  from ur_adopt_ok [OF _ pre(1,2)] assms(1) pre(3)
  have "ur_inv (fd_abs (set_fd u fd (s\<lparr>raw := (raw s)(fd := False)\<rparr>)))"
    by (simp add: fd_inv_def fd_abs_set abs_raw)
  with FDAdopt assms(1) show ?thesis by (simp add: fd_inv_def) (auto simp: set_fd_def)
next
  case (FDCloseRaw fd)
  with assms have pre: "held (fd_abs s) (nat fd)" "0 \<le> fd" by (auto simp: fd_abs_def fd_inv_def)
  have "ur_inv (fd_abs s)" using assms(1) by (simp add: fd_inv_def)
  from unique_ref.step_ok [OF this, of "URDeleteRaw (nat fd)"] pre(1) obtain h' where
    h': "delete_ptr (Some (nat fd)) ((fd_abs s)\<lparr>held := (held (fd_abs s))(nat fd := False)\<rparr>) = Inr h'" "ur_inv h'"
    by auto
  then have live: "kopen s fd" using pre(2) by (auto simp: delete_ptr_def fd_abs_def split: if_splits)
  let ?s = "s\<lparr>raw := (raw s)(fd := False), kopen := (kopen s)(fd := False)\<rparr>"
  have "fd_abs ?s = h'"
    using abs_kopen [OF pre(2), of "s\<lparr>raw := (raw s)(fd := False)\<rparr>" False] abs_raw [OF pre(2), of s False] h'(1)
    by (auto simp: delete_ptr_def split: if_splits)
  with h'(2) FDCloseRaw live assms(1) show ?thesis by (simp add: kclose_def fd_inv_def)
next
  case (FDDestroy u)
  with assms(2) obtain fd where "fobjs s u = Some fd" by auto
  with FDDestroy fd_close_ok [OF assms(1) this] show ?thesis by (auto simp: fd_destroy_def)
qed

interpretation fd: safe_machine fd_step fd_pre fd_inv
  by unfold_locales (rule fd_step_ok)

section \<open>The properties of FD\<close>

lemma owned_iff: "owned fd = Some n \<longleftrightarrow> fd = int n"
  by (auto simp: owned_def is_open_def)

lemma fd_owner:
  assumes "fd_inv s"
  shows "kopen s d \<Longrightarrow> \<not> raw s d \<Longrightarrow> \<exists>!u. fobjs s u = Some d"
    "raw s d \<Longrightarrow> kopen s d \<and> (\<forall>u. fobjs s u \<noteq> Some d)"
proof -
  have iv: "ur_inv (fd_abs s)" using assms by (simp add: fd_inv_def)
  have refs: "refs (fd_abs s) u = Some (Some (nat d)) \<longleftrightarrow> fobjs s u = Some d" if "0 \<le> d" for u
    using that by (auto simp: refs_abs owned_iff)
  show "\<exists>!u. fobjs s u = Some d" if "kopen s d" "\<not> raw s d"
  proof -
    have "0 \<le> d" using that(1) assms by (auto simp: fd_inv_def)
    with ur_inv_owner(2) [OF iv, of "nat d"] that refs show ?thesis by (simp add: fd_abs_def)
  qed
  show "kopen s d \<and> (\<forall>u. fobjs s u \<noteq> Some d)" if "raw s d"
  proof -
    have "0 \<le> d" using that assms by (auto simp: fd_inv_def)
    with ur_inv_owner(1) [OF iv, of "nat d"] that refs show ?thesis by (simp add: fd_abs_def split: if_splits) blast
  qed
qed

text \<open>
  C14. Any sequence of \<^verbatim>\<open>FD\<close> operations (\<^verbatim>\<open>release\<close> included) that respects lifetimes, and whose caller
  closes or hands back only descriptors it has got from \<^verbatim>\<open>release\<close>, keeps every open descriptor
  owned by exactly one object, or by the caller who has released it, and never closes a descriptor
  that is not open; when all objects are destroyed, the open descriptors are exactly those the
  caller has released and not yet closed or handed back.
\<close>
theorem fd_ownership:
  assumes "fd_inv s" "admissible fd_pre fd_step ops s"
  shows "\<exists>s'. run_ops fd_step ops s = Inr s' \<and> fd_inv s' \<and> bad_closes s' = 0
    \<and> (\<forall>d. kopen s' d \<and> \<not> raw s' d \<longrightarrow> (\<exists>!u. fobjs s' u = Some d))
    \<and> (\<forall>d. raw s' d \<longrightarrow> kopen s' d \<and> (\<forall>u. fobjs s' u \<noteq> Some d))
    \<and> ((\<forall>u. fobjs s' u = None) \<longrightarrow> (\<forall>d. kopen s' d \<longleftrightarrow> raw s' d))"
proof -
  obtain s' where s': "run_ops fd_step ops s = Inr s'" "fd_inv s'"
    using fd.run_safe [OF assms] by blast
  note owner = fd_owner [OF s'(2)]
  have "\<forall>d. kopen s' d \<longleftrightarrow> raw s' d" if "\<forall>u. fobjs s' u = None"
    using owner that by (metis option.distinct(1))
  with s' owner show ?thesis by (intro exI [of _ s']) (simp add: fd_inv_def)
qed

lemma fd_ownership_witness:
  "\<exists>s'. run_ops fd_step [FDOpen 0 3, FDDefault 1, FDMoveAssign 1 0, FDMoveAssign 1 1, FDOpen 2 4, FDRelease 2,
        FDAdopt 3 4, FDRelease 3, FDCloseRaw 4, FDDestroy 3, FDDestroy 2, FDDestroy 1, FDDestroy 0]
      \<lparr>fobjs = (\<lambda>_. None), kopen = (\<lambda>_. False), raw = (\<lambda>_. False), bad_closes = 0\<rparr> = Inr s' \<and> fd_inv s'
    \<and> bad_closes s' = 0 \<and> (\<forall>d. raw s' d \<longrightarrow> kopen s' d)"
proof -
  let ?ops = "[FDOpen 0 3, FDDefault 1, FDMoveAssign 1 0, FDMoveAssign 1 1, FDOpen 2 4, FDRelease 2,
        FDAdopt 3 4, FDRelease 3, FDCloseRaw 4, FDDestroy 3, FDDestroy 2, FDDestroy 1, FDDestroy 0]"
  let ?s = "\<lparr>fobjs = (\<lambda>_. None), kopen = (\<lambda>_. False), raw = (\<lambda>_. False), bad_closes = 0\<rparr>"
  have "fd_inv ?s"
    by (simp add: fd_inv_def ur_inv_def unique_owner_def owners_def fd_abs_def split: sum.split)
  moreover have "admissible fd_pre fd_step ?ops ?s"
    by (simp add: set_fd_def fd_move_assign_def fd_release_def fd_close_def get_fd_def kclose_def fd_destroy_def
        kInvalid_def is_open_def)
  ultimately show ?thesis using fd_ownership [of ?s ?ops] by blast
qed

end
