(* ===== verification/Aio_Datagram.thy ===== *)
theory Aio_Datagram
  imports Core_Error Aio_Reactor "HOL-Library.Multiset"
begin

text \<open>
  \<^verbatim>\<open>src/minaio/v2/datagram_socket.{h,cpp}\<close>: a UDP socket on the context. The two files disagree
  about where the members are: the header declares \<^verbatim>\<open>fd_\<close>, \<^verbatim>\<open>rx_ch_\<close> and \<^verbatim>\<open>tx_ch_\<close> in the socket
  object and its templates store the handlers there, the \<^verbatim>\<open>.cpp\<close> file reads and clears them (and
  \<^verbatim>\<open>closed_\<close>) through \<^verbatim>\<open>state_\<close>, and the two do not compile together. The record below is a socket
  that is neither moved nor destroyed while operations are outstanding, with the members of the
  object and of its state side by side: for such a socket both readings name the same members.
  (Moves, where they differ, are in Aio_Sockets.) \<open>has_state\<close> is \<^verbatim>\<open>state_ != nullptr\<close>; the
  completions are the lambdas the socket has put on the context's queue; a handler is a number. The
  answers of the system calls are arguments of the operations, as pairs of result and \<^verbatim>\<open>errno\<close>.
  \<open>issued\<close> and \<open>delivered\<close> record the handlers a client has passed in and the calls they got.
\<close>

section \<open>State\<close>

datatype direction = Rx | Tx

type_synonym io_result = "err_details + nat"

datatype completion =
    Done direction io_result
  | Direct nat io_result

record dsock =
  has_state :: bool
  closed_flag :: bool
  fd_open :: bool
  rx_ch :: "nat option"
  tx_ch :: "nat option"
  queue :: "completion list"
  reactor_removes :: nat
  issued :: "nat list"
  delivered :: "(nat \<times> io_result) list"

definition EAGAIN :: int where "EAGAIN = 11"

definition push :: "completion \<Rightarrow> dsock \<Rightarrow> dsock" where
  "push c s = s\<lparr>queue := queue s @ [c]\<rparr>"

definition closed_error :: io_result where
  "closed_error = Inl (NetUserErrorDetails kClosedFD)"

section \<open>Construction\<close>

text \<open>The constructor: the three system calls with their answers. The result is the error thrown
  or the descriptor, with the descriptors left open and unowned when it throws.\<close>

definition ds_construct ::
    "int \<times> int \<Rightarrow> int \<times> int \<Rightarrow> int \<times> int \<Rightarrow> (err_details + int) \<times> int list" where
  "ds_construct sock fcntl_re bind_re =
     (if fst sock < 0 then (Inl (PosixErrorDetails (snd sock)), [])
      else if fst fcntl_re < 0 then (Inl (PosixErrorDetails (snd fcntl_re)), [fst sock])
      else if fst bind_re < 0 then (Inl (PosixErrorDetails (snd bind_re)), [fst sock])
      else (Inr (fst sock), []))"

definition new_dsock :: dsock where
  "new_dsock = \<lparr>has_state = True, closed_flag = False, fd_open = True, rx_ch = None, tx_ch = None,
     queue = [], reactor_removes = 0, issued = [], delivered = []\<rparr>"

section \<open>Operations\<close>

definition StartRead :: "int \<times> int \<Rightarrow> dsock \<Rightarrow> dsock" where
  "StartRead answer s =
     (let (re, code) = answer in
      if re = 0 then push (Done Rx closed_error) s
      else if re > 0 then push (Done Rx (Inr (nat re))) s
      else if EAGAIN \<noteq> code then push (Done Rx (Inl (PosixErrorDetails code))) s
      else s)"

definition StartWrite :: "bool \<Rightarrow> int \<times> int \<Rightarrow> dsock \<Rightarrow> dsock" where
  "StartWrite dest_ok answer s =
     (let (re, code) = answer in
      if \<not> dest_ok then push (Done Tx (Inl (StringErrorDetails ''invalid destination address''))) s
      else if re \<ge> 0 then push (Done Tx (Inr (nat re))) s
      else if EAGAIN \<noteq> code then push (Done Tx (Inl (PosixErrorDetails code))) s
      else s)"

definition AsyncReadFrom :: "nat \<Rightarrow> int \<times> int \<Rightarrow> dsock \<Rightarrow> dsock" where
  "AsyncReadFrom ch answer s =
     (let s = s\<lparr>issued := issued s @ [ch]\<rparr> in
      if \<not> has_state s then push (Direct ch closed_error) s
      else StartRead answer (s\<lparr>rx_ch := Some ch\<rparr>))"

definition AsyncWriteTo :: "nat \<Rightarrow> bool \<Rightarrow> int \<times> int \<Rightarrow> dsock \<Rightarrow> dsock" where
  "AsyncWriteTo ch dest_ok answer s =
     (let s = s\<lparr>issued := issued s @ [ch]\<rparr> in
      if \<not> has_state s then push (Direct ch closed_error) s
      else StartWrite dest_ok answer (s\<lparr>tx_ch := Some ch\<rparr>))"

definition ds_Close :: "dsock \<Rightarrow> dsock" where
  "ds_Close s =
     (if has_state s then
        let s = s\<lparr>closed_flag := True, reactor_removes := reactor_removes s + 1\<rparr>;
            s = (if rx_ch s \<noteq> None then push (Done Rx closed_error) s else s);
            s = (if tx_ch s \<noteq> None then push (Done Tx closed_error) s else s)
        in s\<lparr>fd_open := False, has_state := False\<rparr>
      else s)"

definition HandleEvent ::
    "event_mask \<Rightarrow> int \<times> int \<Rightarrow> bool \<Rightarrow> int \<times> int \<Rightarrow> dsock \<Rightarrow> fault + dsock" where
  "HandleEvent m rx_answer dest_ok tx_answer s =
     (if (IsReadEvent m \<or> IsWriteEvent m) \<and> \<not> has_state s then
        Inl (Undefined ''null state'')
      else
        let s = (if IsReadEvent m \<and> rx_ch s \<noteq> None then StartRead rx_answer s else s);
            s = (if IsWriteEvent m \<and> tx_ch s \<noteq> None then StartWrite dest_ok tx_answer s else s)
        in Inr (if IsCloseEvent m then ds_Close s else s))"

text \<open>The context runs the front completion: the handler is moved out of the state and called.\<close>

definition call_handler :: "nat option \<Rightarrow> io_result \<Rightarrow> dsock \<Rightarrow> fault + dsock" where
  "call_handler ch r s =
     (case ch of
        None \<Rightarrow> Inl (Undefined ''call through a null pointer'')
      | Some h \<Rightarrow> Inr (s\<lparr>delivered := delivered s @ [(h, r)]\<rparr>))"

definition run_completion :: "completion \<Rightarrow> dsock \<Rightarrow> fault + dsock" where
  "run_completion c s =
     (case c of
        Done Rx r \<Rightarrow> call_handler (rx_ch s) r (s\<lparr>rx_ch := None\<rparr>)
      | Done Tx r \<Rightarrow> call_handler (tx_ch s) r (s\<lparr>tx_ch := None\<rparr>)
      | Direct h r \<Rightarrow> call_handler (Some h) r s)"

datatype ds_op =
    SRead nat "int \<times> int"
  | SWrite nat bool "int \<times> int"
  | SEvent event_mask "int \<times> int" bool "int \<times> int"
  | SClose
  | SRun

fun ds_step :: "ds_op \<Rightarrow> dsock \<Rightarrow> fault + dsock" where
  "ds_step (SRead ch a) s = Inr (AsyncReadFrom ch a s)"
| "ds_step (SWrite ch d a) s = Inr (AsyncWriteTo ch d a s)"
| "ds_step (SEvent m ra d ta) s = HandleEvent m ra d ta s"
| "ds_step SClose s = Inr (ds_Close s)"
| "ds_step SRun s =
     (case queue s of
        [] \<Rightarrow> Inr s
      | c # cs \<Rightarrow> run_completion c (s\<lparr>queue := cs\<rparr>))"

section \<open>The contract\<close>

fun is_done :: "direction \<Rightarrow> completion \<Rightarrow> bool" where
  "is_done d (Done d' _) = (d = d')"
| "is_done d (Direct _ _) = False"

fun direct_handler :: "completion \<Rightarrow> nat option" where
  "direct_handler (Direct h _) = Some h"
| "direct_handler (Done _ _) = None"

definition dones :: "direction \<Rightarrow> dsock \<Rightarrow> nat" where
  "dones d s = length (filter (is_done d) (queue s))"

definition handlers_in :: "dsock \<Rightarrow> nat multiset" where
  "handlers_in s = mset (case rx_ch s of None \<Rightarrow> [] | Some h \<Rightarrow> [h])
     + mset (case tx_ch s of None \<Rightarrow> [] | Some h \<Rightarrow> [h])
     + mset (List.map_filter direct_handler (queue s))"

text \<open>At most one completion is queued for a direction, and then its handler is still there; and
  every handler passed in is pending, queued or has been called, exactly once.\<close>

definition ds_inv :: "dsock \<Rightarrow> bool" where
  "ds_inv s \<longleftrightarrow>
     dones Rx s \<le> 1 \<and> dones Tx s \<le> 1
     \<and> (dones Rx s = 1 \<longrightarrow> rx_ch s \<noteq> None) \<and> (dones Tx s = 1 \<longrightarrow> tx_ch s \<noteq> None)
     \<and> mset (issued s) = handlers_in s + mset (map fst (delivered s))
     \<and> (\<not> has_state s \<longrightarrow> (rx_ch s \<noteq> None \<longrightarrow> dones Rx s = 1) \<and> (tx_ch s \<noteq> None \<longrightarrow> dones Tx s = 1))"

text \<open>What the client and the reactor have to respect: one read and one write at a time, no read or
  write event for a direction whose completion still waits in the queue, and no close while any
  completion waits there (or is queued by the same event).\<close>

fun ds_pre :: "ds_op \<Rightarrow> dsock \<Rightarrow> bool" where
  "ds_pre (SRead ch a) s = (rx_ch s = None \<or> \<not> has_state s)"
| "ds_pre (SWrite ch d a) s = (tx_ch s = None \<or> \<not> has_state s)"
| "ds_pre (SEvent m ra d ta) s =
     ((IsReadEvent m \<longrightarrow> has_state s \<and> dones Rx s = 0) \<and> (IsWriteEvent m \<longrightarrow> has_state s \<and> dones Tx s = 0)
      \<and> (IsCloseEvent m \<and> has_state s \<longrightarrow> dones Rx s = 0 \<and> dones Tx s = 0
           \<and> (IsReadEvent m \<longrightarrow> rx_ch s = None) \<and> (IsWriteEvent m \<longrightarrow> tx_ch s = None)))"
| "ds_pre SClose s = (has_state s \<longrightarrow> dones Rx s = 0 \<and> dones Tx s = 0)"
| "ds_pre SRun s = True"

lemma dones_push [simp]: "dones d (push c s) = dones d s + (if is_done d c then 1 else 0)"
  by (simp add: dones_def push_def)

lemma push_sel [simp]:
  "has_state (push c s) = has_state s" "rx_ch (push c s) = rx_ch s" "tx_ch (push c s) = tx_ch s"
  "issued (push c s) = issued s" "delivered (push c s) = delivered s" "fd_open (push c s) = fd_open s"
  "queue (push c s) = queue s @ [c]"
  by (simp_all add: push_def)

lemma map_filter_snoc:
  "List.map_filter f (xs @ [x]) = List.map_filter f xs @ (case f x of None \<Rightarrow> [] | Some y \<Rightarrow> [y])"
  by (induction xs) (simp_all add: List.map_filter_simps split: option.split)

lemma handlers_push [simp]:
  "handlers_in (push (Done d r) s) = handlers_in s"
  "handlers_in (push (Direct h r) s) = add_mset h (handlers_in s)"
  by (simp_all add: handlers_in_def map_filter_snoc)

lemma dones_cong: "queue s = queue s' \<Longrightarrow> dones d s = dones d s'"
  by (simp add: dones_def)

lemma StartRead_cases:
  obtains "StartRead a s = s" | r where "StartRead a s = push (Done Rx r) s"
proof -
  have "StartRead a s = s \<or> (\<exists>r. StartRead a s = push (Done Rx r) s)"
    by (cases a) (simp add: StartRead_def, blast)
  then show ?thesis using that by blast
qed

lemma StartWrite_cases:
  obtains "StartWrite d a s = s" | r where "StartWrite d a s = push (Done Tx r) s"
proof -
  have "StartWrite d a s = s \<or> (\<exists>r. StartWrite d a s = push (Done Tx r) s)"
    by (cases a) (simp add: StartWrite_def, blast)
  then show ?thesis using that by blast
qed


lemma ds_inv_push_read:
  assumes "ds_inv s" "dones Rx s = 0" "has_state s" "rx_ch s = Some h"
  shows "ds_inv (StartRead a s) \<and> has_state (StartRead a s) \<and> tx_ch (StartRead a s) = tx_ch s
    \<and> dones Tx (StartRead a s) = dones Tx s"
  by (cases rule: StartRead_cases [of a s]) (use assms in \<open>simp_all add: ds_inv_def\<close>)

lemma ds_inv_push_write:
  assumes "ds_inv s" "dones Tx s = 0" "has_state s" "tx_ch s = Some h"
  shows "ds_inv (StartWrite d a s) \<and> has_state (StartWrite d a s)"
  by (cases rule: StartWrite_cases [of d a s]) (use assms in \<open>simp_all add: ds_inv_def\<close>)

lemma dones_field_upd [simp]:
  "dones d (s\<lparr>issued := i\<rparr>) = dones d s" "dones d (s\<lparr>rx_ch := c\<rparr>) = dones d s"
  "dones d (s\<lparr>tx_ch := c\<rparr>) = dones d s" "dones d (s\<lparr>closed_flag := b\<rparr>) = dones d s"
  "dones d (s\<lparr>reactor_removes := n\<rparr>) = dones d s" "dones d (s\<lparr>fd_open := b\<rparr>) = dones d s"
  "dones d (s\<lparr>has_state := b\<rparr>) = dones d s" "dones d (s\<lparr>delivered := l\<rparr>) = dones d s"
  by (simp_all add: dones_def)

lemma ds_inv_read:
  assumes "ds_inv s" "rx_ch s = None \<or> \<not> has_state s"
  shows "ds_inv (AsyncReadFrom ch a s)"
proof (cases "has_state s")
  case False
  with assms(1) show ?thesis
    by (simp add: AsyncReadFrom_def Let_def ds_inv_def) (simp add: handlers_in_def)
next
  case True
  with assms have rx: "rx_ch s = None" "dones Rx s = 0" by (auto simp: ds_inv_def le_Suc_eq)
  have "ds_inv (s\<lparr>issued := issued s @ [ch], rx_ch := Some ch\<rparr>)"
    using assms(1) rx True by (simp add: ds_inv_def) (simp add: handlers_in_def)
  from ds_inv_push_read [OF this] rx True show ?thesis by (simp add: AsyncReadFrom_def)
qed

lemma ds_inv_write:
  assumes "ds_inv s" "tx_ch s = None \<or> \<not> has_state s"
  shows "ds_inv (AsyncWriteTo ch d a s)"
proof (cases "has_state s")
  case False
  with assms(1) show ?thesis
    by (simp add: AsyncWriteTo_def Let_def ds_inv_def) (simp add: handlers_in_def)
next
  case True
  with assms have tx: "tx_ch s = None" "dones Tx s = 0" by (auto simp: ds_inv_def le_Suc_eq)
  have "ds_inv (s\<lparr>issued := issued s @ [ch], tx_ch := Some ch\<rparr>)"
    using assms(1) tx True by (simp add: ds_inv_def) (simp add: handlers_in_def)
  from ds_inv_push_write [OF this] tx True show ?thesis by (simp add: AsyncWriteTo_def)
qed

lemma handlers_field_upd [simp]:
  "handlers_in (s\<lparr>issued := i\<rparr>) = handlers_in s" "handlers_in (s\<lparr>closed_flag := b\<rparr>) = handlers_in s"
  "handlers_in (s\<lparr>reactor_removes := n\<rparr>) = handlers_in s" "handlers_in (s\<lparr>fd_open := b\<rparr>) = handlers_in s"
  "handlers_in (s\<lparr>has_state := b\<rparr>) = handlers_in s" "handlers_in (s\<lparr>delivered := l\<rparr>) = handlers_in s"
  by (simp_all add: handlers_in_def)

lemma ds_inv_close:
  assumes "ds_inv s" "has_state s \<longrightarrow> dones Rx s = 0 \<and> dones Tx s = 0"
  shows "ds_inv (ds_Close s)"
  by (cases "has_state s"; cases "rx_ch s"; cases "tx_ch s")
     (use assms in \<open>simp_all add: ds_Close_def ds_inv_def\<close>)

lemma ds_inv_event:
  assumes "ds_inv s" "ds_pre (SEvent m ra d ta) s"
  shows "\<exists>s'. HandleEvent m ra d ta s = Inr s' \<and> ds_inv s'"
proof -
  let ?s1 = "if IsReadEvent m \<and> rx_ch s \<noteq> None then StartRead ra s else s"
  let ?s2 = "if IsWriteEvent m \<and> tx_ch ?s1 \<noteq> None then StartWrite d ta ?s1 else ?s1"
  have s1: "ds_inv ?s1 \<and> (IsWriteEvent m \<longrightarrow> has_state ?s1) \<and> tx_ch ?s1 = tx_ch s \<and> dones Tx ?s1 = dones Tx s"
    using ds_inv_push_read [of s _ ra] assms by auto
  have s2: "ds_inv ?s2"
    using ds_inv_push_write [of ?s1 _ d ta] s1 assms(2) by (cases "tx_ch s") auto
  have close: "ds_inv (if IsCloseEvent m then ds_Close ?s2 else ?s2)"
    using s2 ds_inv_close [of s] assms by auto
  show ?thesis
    using assms(2) close by (simp only: HandleEvent_def Let_def ds_pre.simps) auto
qed

lemma ds_inv_run:
  assumes "ds_inv s"
  shows "\<exists>s'. ds_step SRun s = Inr s' \<and> ds_inv s'"
proof (cases "queue s")
  case Nil
  with assms show ?thesis by simp
next
  case (Cons c cs)
  show ?thesis
  proof (cases c)
    case (Direct h r)
    with Cons assms show ?thesis
      by (simp add: run_completion_def call_handler_def ds_inv_def dones_def handlers_in_def
          List.map_filter_simps)
  next
    case (Done d r)
    show ?thesis
    proof (cases d)
      case Rx
      with assms Cons Done have "dones Rx s = 1" by (auto simp: ds_inv_def dones_def)
      moreover from this assms obtain h where h: "rx_ch s = Some h" by (auto simp: ds_inv_def)
      ultimately show ?thesis using Rx assms Cons Done
        by (auto simp: run_completion_def call_handler_def ds_inv_def dones_def handlers_in_def
            List.map_filter_simps split: option.splits)
    next
      case Tx
      with assms Cons Done have "dones Tx s = 1" by (auto simp: ds_inv_def dones_def)
      moreover from this assms obtain h where h: "tx_ch s = Some h" by (auto simp: ds_inv_def)
      ultimately show ?thesis using Tx assms Cons Done
        by (auto simp: run_completion_def call_handler_def ds_inv_def dones_def handlers_in_def
            List.map_filter_simps split: option.splits)
    qed
  qed
qed

interpretation datagram: safe_machine ds_step ds_pre ds_inv
proof (unfold_locales, goal_cases)
  case (1 s op)
  show ?case
  proof (cases op)
    case (SRead ch a) with 1 ds_inv_read show ?thesis by simp
  next
    case (SWrite ch d a) with 1 ds_inv_write show ?thesis by simp
  next
    case (SEvent m ra d ta) with 1 ds_inv_event [of s m ra d ta] show ?thesis by simp
  next
    case SClose with 1 ds_inv_close show ?thesis by simp
  next
    case SRun with ds_inv_run [OF 1(1)] show ?thesis by simp
  qed
qed

section \<open>The properties of the socket\<close>

text \<open>A completion too many: two are queued for a direction, or one is and its handler is gone.\<close>

definition handler_of :: "direction \<Rightarrow> dsock \<Rightarrow> nat option" where
  "handler_of d s = (case d of Rx \<Rightarrow> rx_ch s | Tx \<Rightarrow> tx_ch s)"

definition overfull :: "direction \<Rightarrow> dsock \<Rightarrow> bool" where
  "overfull d s \<longleftrightarrow> dones d s \<ge> 2 \<or> dones d s \<ge> 1 \<and> handler_of d s = None"

lemma overfull_run:
  assumes "overfull d s"
  shows "ds_step SRun s = Inl (Undefined ''call through a null pointer'')
    \<or> (\<exists>t. ds_step SRun s = Inr t \<and> overfull d t \<and> queue t = tl (queue s))"
proof (cases "queue s")
  case Nil
  with assms show ?thesis by (simp add: overfull_def dones_def)
next
  case (Cons c cs)
  show ?thesis
  proof (cases c)
    case (Direct h r)
    with Cons assms show ?thesis
      by (simp add: run_completion_def call_handler_def overfull_def dones_def handler_of_def cong: direction.case_cong)
  next
    case (Done d' r)
    with Cons assms show ?thesis
      by (cases d; cases d')
         (auto simp: run_completion_def call_handler_def overfull_def dones_def handler_of_def split: option.splits)
  qed
qed

lemma overfull_drains:
  "overfull d s \<Longrightarrow> length (queue s) \<le> n \<Longrightarrow>
     run_ops ds_step (replicate n SRun) s = Inl (Undefined ''call through a null pointer'')"
proof (induction n arbitrary: s)
  case 0
  then show ?case by (simp add: overfull_def dones_def)
next
  case (Suc n)
  from overfull_run [OF Suc.prems(1)] show ?case
  proof (elim disjE exE conjE)
    fix t
    assume t: "ds_step SRun s = Inr t" "overfull d t" "queue t = tl (queue s)"
    with Suc.prems(2) have "length (queue t) \<le> n" by simp
    from Suc.IH [OF t(2) this] t(1) show ?thesis by (simp del: ds_step.simps)
  qed (simp del: ds_step.simps)
qed

lemma ds_Close_overfull:
  assumes "ds_inv s" "has_state s" "dones d s = 1"
  shows "overfull d (ds_Close s)"
  using assms by (cases d) (auto simp: ds_Close_def ds_inv_def Let_def overfull_def)

definition drained :: "dsock \<Rightarrow> bool" where
  "drained s \<longleftrightarrow> queue s = [] \<and> rx_ch s = None \<and> tx_ch s = None"


text \<open>
  C27. \<^verbatim>\<open>Close\<close> (and so the destructor) aborts both pending operations: once the queue has been run,
  every handler ever passed in has been called exactly once, the pending ones with the
  \<^verbatim>\<open>kClosedFD\<close> error, and the descriptor is closed and deregistered.
\<close>
theorem datagram_close_completes:
  assumes "ds_inv s" "has_state s" "queue s = []" "rx_ch s = Some h" "tx_ch s = Some k"
  shows "\<exists>s'. run_ops ds_step [SClose, SRun, SRun] s = Inr s'
    \<and> delivered s' = delivered s @ [(h, closed_error), (k, closed_error)]
    \<and> mset (map fst (delivered s')) = mset (issued s') \<and> \<not> fd_open s' \<and> \<not> has_state s'
    \<and> reactor_removes s' = reactor_removes s + 1"
  using assms
  by (simp add: ds_Close_def Let_def push_def run_completion_def call_handler_def ds_inv_def
      handlers_in_def List.map_filter_simps)

text \<open>
  The handler stays in the state until its queued completion runs, so a second read event
  before that queues a second completion for it; when both are run, the second calls an empty
  function, which is undefined behaviour.
\<close>
theorem datagram_double_completion:
  assumes "rx_ch s = Some h" "has_state s" "queue s = []" "IsReadEvent m" "\<not> IsWriteEvent m"
    "\<not> IsCloseEvent m" "n > 0" "n' > 0"
  shows "run_ops ds_step [SEvent m (n, 0) d ta, SEvent m (n', 0) d ta, SRun, SRun] s
    = Inl (Undefined ''call through a null pointer'')"
  using assms
  by (simp add: HandleEvent_def Let_def StartRead_def push_def run_completion_def call_handler_def)

text \<open>A constructor that fails after the socket call throws with the descriptor open and owned by
  nobody: it is wrapped only after \<^verbatim>\<open>bind\<close> has succeeded.\<close>

lemma datagram_constructor_leaks:
  "snd (ds_construct sock fcntl_re bind_re) =
     (if fst sock \<ge> 0 \<and> (fst fcntl_re < 0 \<or> fst bind_re < 0) then [fst sock] else [])"
  by (auto simp: ds_construct_def)

section \<open>Witnesses\<close>

lemma new_dsock_inv: "ds_inv new_dsock"
  by (simp add: ds_inv_def new_dsock_def dones_def handlers_in_def List.map_filter_simps)


lemma datagram_close_completes_witness:
  "\<exists>s'. run_ops ds_step [SClose, SRun, SRun] (new_dsock\<lparr>rx_ch := Some 1, tx_ch := Some 2, issued := [1, 2]\<rparr>) = Inr s'
     \<and> delivered s' = [(1, closed_error), (2, closed_error)]"
proof -
  let ?s = "new_dsock\<lparr>rx_ch := Some 1, tx_ch := Some 2, issued := [1, 2]\<rparr>"
  have "ds_inv ?s"
    by (simp add: ds_inv_def new_dsock_def dones_def handlers_in_def List.map_filter_simps)
  from datagram_close_completes [OF this, of 1 2] show ?thesis by (auto simp: new_dsock_def)
qed

lemma datagram_double_completion_witness:
  "run_ops ds_step [SEvent 1 (4, 0) True (0, 0), SEvent 1 (4, 0) True (0, 0), SRun, SRun]
     (new_dsock\<lparr>rx_ch := Some 1\<rparr>) = Inl (Undefined ''call through a null pointer'')"
  by (rule datagram_double_completion)
     (simp_all add: new_dsock_def IsReadEvent_def IsWriteEvent_def IsCloseEvent_def kRead_def
        kWrite_def kClose_def)

end
