(* ===== verification/Aio_Sockets.thy ===== *)
theory Aio_Sockets
  imports Aio_Datagram Aio_FD
begin

text \<open>
  \<^verbatim>\<open>src/minaio/v2/datagram_socket.{h,cpp}\<close>: construction, moves and destruction of the
  \<^verbatim>\<open>DatagramSocket\<close> objects themselves, with the members where the header declares them: the
  descriptor \<^verbatim>\<open>fd_\<close> and the two handlers belong to the object, not to its \<^verbatim>\<open>State\<close> (the \<^verbatim>\<open>.cpp\<close>
  file, which does not compile against the header, reads them through \<^verbatim>\<open>state_\<close>). A socket lives at an address
  \<open>a\<close>; \<open>members\<close> is the state of Aio_FD with the member \<^verbatim>\<open>fd_\<close> of socket \<open>a\<close> as its object \<open>a\<close>,
  \<open>chs\<close> the members \<^verbatim>\<open>rx_ch_\<close> and \<^verbatim>\<open>tx_ch_\<close>; \<open>state_of\<close> is the pointer \<^verbatim>\<open>state_\<close>, and state
  number \<open>k\<close> has the pointer \<open>self_of\<close> back to the socket. \<open>removed\<close> logs the calls
  \<^verbatim>\<open>ctx_->reactor().Remove\<close>, \<open>aborted\<close> the handlers \<^verbatim>\<open>Close\<close> has queued an abort for.
\<close>

section \<open>State and operations\<close>

record sockets =
  members :: fds
  chs :: "nat \<Rightarrow> nat option \<times> nat option"
  ctx_of :: "nat \<Rightarrow> nat"
  state_of :: "nat \<Rightarrow> nat option"
  self_of :: "nat \<Rightarrow> nat"
  next_state :: nat
  removed :: "(nat \<times> int) list"
  aborted :: "nat list"

definition no_sockets :: sockets where
  "no_sockets = \<lparr>members = \<lparr>fobjs = (\<lambda>_. None), kopen = (\<lambda>_. False), raw = (\<lambda>_. False), bad_closes = 0\<rparr>,
     chs = (\<lambda>_. (None, None)), ctx_of = (\<lambda>_. 0), state_of = (\<lambda>_. None), self_of = (\<lambda>_. 0),
     next_state = 0, removed = [], aborted = []\<rparr>"

abbreviation fd_member :: "sockets \<Rightarrow> nat \<Rightarrow> int option" where
  "fd_member s a \<equiv> fobjs (members s) a"

definition on_fd :: "fd_op \<Rightarrow> sockets \<Rightarrow> fault + sockets" where
  "on_fd op s = bind_res (fd_step op (members s)) (\<lambda>m. Inr (s\<lparr>members := m\<rparr>))"

text \<open>The constructor whose system calls succeed; \<^verbatim>\<open>fd_ = FD{fd}\<close> is its last step. (One that
  throws leaves no object; what it leaks is in Aio_Datagram.)\<close>

definition sock_construct :: "nat \<Rightarrow> nat \<Rightarrow> int \<Rightarrow> sockets \<Rightarrow> fault + sockets" where
  "sock_construct a ctx fd s =
     (let k = next_state s in
      on_fd (FDOpen a fd)
        (s\<lparr>ctx_of := (ctx_of s)(a := ctx), state_of := (state_of s)(a := Some k), self_of := (self_of s)(k := a),
           chs := (chs s)(a := (None, None)), next_state := k + 1\<rparr>))"

text \<open>\<^verbatim>\<open>state_->self_ = this\<close>, if there is a state.\<close>

definition take_self :: "nat \<Rightarrow> sockets \<Rightarrow> sockets" where
  "take_self a s =
     (case state_of s a of
        None \<Rightarrow> s
      | Some k \<Rightarrow> s\<lparr>self_of := (self_of s)(k := a)\<rparr>)"

text \<open>The move constructor names only \<^verbatim>\<open>ctx_\<close> and \<^verbatim>\<open>state_\<close>: the other members are default-initialised.\<close>

definition sock_move_construct :: "nat \<Rightarrow> nat \<Rightarrow> sockets \<Rightarrow> fault + sockets" where
  "sock_move_construct a rhs s =
     bind_res
       (on_fd (FDDefault a)
          (s\<lparr>ctx_of := (ctx_of s)(a := ctx_of s rhs), state_of := (state_of s)(a := state_of s rhs, rhs := None),
             chs := (chs s)(a := (None, None))\<rparr>))
       (\<lambda>s. Inr (take_self a s))"

definition abort_list :: "nat option \<times> nat option \<Rightarrow> nat list" where
  "abort_list c = (case fst c of None \<Rightarrow> [] | Some h \<Rightarrow> [h]) @ (case snd c of None \<Rightarrow> [] | Some h \<Rightarrow> [h])"

definition sock_Close :: "nat \<Rightarrow> sockets \<Rightarrow> fault + sockets" where
  "sock_Close a s =
     (case state_of s a of
        None \<Rightarrow> Inr s
      | Some k \<Rightarrow>
          bind_res (get_fd a (members s)) (\<lambda>fd.
          bind_res
            (on_fd (FDClose a)
               (s\<lparr>removed := removed s @ [(ctx_of s a, fd)], aborted := aborted s @ abort_list (chs s a)\<rparr>))
            (\<lambda>s. Inr (s\<lparr>state_of := (state_of s)(a := None)\<rparr>))))"

definition sock_move_assign :: "nat \<Rightarrow> nat \<Rightarrow> sockets \<Rightarrow> fault + sockets" where
  "sock_move_assign a rhs s =
     bind_res (sock_Close a s) (\<lambda>s.
       let moved = state_of s rhs;
           s = s\<lparr>state_of := (state_of s)(rhs := None)\<rparr>;
           s = take_self a (s\<lparr>state_of := (state_of s)(a := moved)\<rparr>)
       in Inr (s\<lparr>ctx_of := (ctx_of s)(a := ctx_of s rhs)\<rparr>))"

text \<open>The destructor: \<^verbatim>\<open>Close\<close>, then the destructor of the member \<^verbatim>\<open>fd_\<close>.\<close>

definition sock_destroy :: "nat \<Rightarrow> sockets \<Rightarrow> fault + sockets" where
  "sock_destroy a s = bind_res (sock_Close a s) (on_fd (FDDestroy a))"

text \<open>What \<^verbatim>\<open>AsyncReadFrom\<close> and \<^verbatim>\<open>AsyncWriteTo\<close> do to the object when nothing can be transferred yet.\<close>

definition sock_store :: "nat \<Rightarrow> direction \<Rightarrow> nat \<Rightarrow> sockets \<Rightarrow> sockets" where
  "sock_store a d h s =
     (if state_of s a = None then s
      else s\<lparr>chs := (chs s)(a := (case d of Rx \<Rightarrow> (Some h, snd (chs s a)) | Tx \<Rightarrow> (fst (chs s a), Some h)))\<rparr>)"

datatype sock_op =
    Construct nat nat int
  | MoveConstruct nat nat
  | MoveAssign nat nat
  | StoreHandler nat direction nat
  | CloseSocket nat
  | Destroy nat

fun sock_step :: "sock_op \<Rightarrow> sockets \<Rightarrow> fault + sockets" where
  "sock_step (Construct a ctx fd) s = sock_construct a ctx fd s"
| "sock_step (MoveConstruct a rhs) s = sock_move_construct a rhs s"
| "sock_step (MoveAssign a rhs) s = sock_move_assign a rhs s"
| "sock_step (StoreHandler a d h) s = Inr (sock_store a d h s)"
| "sock_step (CloseSocket a) s = sock_Close a s"
| "sock_step (Destroy a) s = sock_destroy a s"

text \<open>C++ constructs an object where none is alive and uses only objects that are; the kernel hands
  out descriptors that are not open.\<close>

fun sock_pre :: "sock_op \<Rightarrow> sockets \<Rightarrow> bool" where
  "sock_pre (Construct a ctx fd) s = (fd_member s a = None \<and> 0 \<le> fd \<and> \<not> kopen (members s) fd)"
| "sock_pre (MoveConstruct a rhs) s = (fd_member s a = None \<and> fd_member s rhs \<noteq> None)"
| "sock_pre (MoveAssign a rhs) s = (fd_member s a \<noteq> None \<and> fd_member s rhs \<noteq> None)"
| "sock_pre (StoreHandler a d h) s = (fd_member s a \<noteq> None)"
| "sock_pre (CloseSocket a) s = (fd_member s a \<noteq> None)"
| "sock_pre (Destroy a) s = (fd_member s a \<noteq> None)"

section \<open>The contract\<close>

text \<open>Descriptors are owned as in Aio_FD, none of them by a caller, and a state is owned by exactly
  the living socket it points back to.\<close>

definition sockets_inv :: "sockets \<Rightarrow> bool" where
  "sockets_inv s \<longleftrightarrow> fd_inv (members s) \<and> (\<forall>d. \<not> raw (members s) d)
     \<and> (\<forall>a k. state_of s a = Some k \<longrightarrow> fd_member s a \<noteq> None \<and> k < next_state s \<and> self_of s k = a)"

lemma on_fd_ok:
  assumes "fd_inv (members s)" "fd_pre op (members s)" "op = FDOpen a fd \<or> op = FDDefault a \<or> op = FDClose a"
  shows "\<exists>m. on_fd op s = Inr (s\<lparr>members := m\<rparr>) \<and> fd_inv m \<and> raw m = raw (members s)
    \<and> (\<forall>b. b \<noteq> a \<longrightarrow> fobjs m b = fd_member s b) \<and> fobjs m a \<noteq> None"
proof -
  obtain m where m: "fd_step op (members s) = Inr m" "fd_inv m" using fd.step_ok [OF assms(1,2)] by blast
  moreover have "raw m = raw (members s) \<and> (\<forall>b. b \<noteq> a \<longrightarrow> fobjs m b = fd_member s b) \<and> fobjs m a \<noteq> None"
    using m(1) assms(2,3)
    by (auto simp: set_fd_def fd_close_def get_fd_def kclose_def bind_res_Inr_iff split: if_splits option.splits)
  ultimately show ?thesis by (intro exI [of _ m]) (simp add: on_fd_def)
qed

lemma sock_Close_ok:
  assumes "sockets_inv s" "fd_member s a \<noteq> None"
  shows "\<exists>t. sock_Close a s = Inr t \<and> sockets_inv t \<and> state_of t = (state_of s)(a := None)
    \<and> (\<forall>b. fd_member t b \<noteq> None \<longleftrightarrow> fd_member s b \<noteq> None) \<and> self_of t = self_of s \<and> next_state t = next_state s"
proof (cases "state_of s a")
  case None
  with assms show ?thesis by (auto simp: sock_Close_def fun_upd_idem)
next
  case (Some k)
  let ?r = "\<lambda>fd. s\<lparr>removed := removed s @ [(ctx_of s a, fd)], aborted := aborted s @ abort_list (chs s a)\<rparr>"
  obtain fd where fd: "fd_member s a = Some fd" using assms(2) by blast
  from on_fd_ok [of "?r fd" "FDClose a" a] assms obtain m where
    m: "on_fd (FDClose a) (?r fd) = Inr ((?r fd)\<lparr>members := m\<rparr>)" "fd_inv m" "raw m = raw (members s)"
      "\<forall>b. b \<noteq> a \<longrightarrow> fobjs m b = fd_member s b" "fobjs m a \<noteq> None"
    by (auto simp: sockets_inv_def)
  have dom: "fobjs m b \<noteq> None \<longleftrightarrow> fd_member s b \<noteq> None" for b using m(4,5) fd by (cases "b = a") auto
  with m(2,3) assms(1) have "sockets_inv ((?r fd)\<lparr>members := m, state_of := (state_of s)(a := None)\<rparr>)"
    by (auto simp: sockets_inv_def)
  with Some fd m(1) dom show ?thesis by (simp add: sock_Close_def get_fd_def)
qed

lemma state_moves:
  assumes "sockets_inv s" "fd_member s a \<noteq> None" "state_of s a = None"
  shows "sockets_inv (take_self a (s\<lparr>state_of := (state_of s)(a := state_of s rhs, rhs := None)\<rparr>))"
proof (cases "state_of s rhs")
  case None
  with assms show ?thesis by (auto simp: sockets_inv_def take_self_def)
next
  case (Some k)
  with assms have ne: "a \<noteq> rhs" and k: "self_of s k = rhs" by (auto simp: sockets_inv_def)
  have "self_of s j = b \<and> j \<noteq> k" if "state_of s b = Some j" "b \<noteq> rhs" for b j
    using that assms(1) k by (auto simp: sockets_inv_def)
  with Some ne assms show ?thesis by (auto simp: sockets_inv_def take_self_def)
qed

lemma take_self_members [simp]: "members (take_self a s) = members s"
  by (simp add: take_self_def split: option.split)

lemma take_self_frame: "take_self a (s\<lparr>ctx_of := c, chs := h\<rparr>) = (take_self a s)\<lparr>ctx_of := c, chs := h\<rparr>"
  by (simp add: take_self_def split: option.split)

lemma sockets_inv_frame [simp]: "sockets_inv (s\<lparr>ctx_of := c\<rparr>) = sockets_inv s" "sockets_inv (s\<lparr>chs := h\<rparr>) = sockets_inv s"
  by (simp_all add: sockets_inv_def)

lemma sock_construct_ok:
  assumes "sockets_inv s" "sock_pre (Construct a ctx fd) s"
  shows "\<exists>t. sock_construct a ctx fd s = Inr t \<and> sockets_inv t"
proof -
  let ?k = "next_state s"
  let ?s = "s\<lparr>ctx_of := (ctx_of s)(a := ctx), state_of := (state_of s)(a := Some ?k), self_of := (self_of s)(?k := a),
      chs := (chs s)(a := (None, None)), next_state := ?k + 1\<rparr>"
  from on_fd_ok [of ?s "FDOpen a fd" a fd] assms obtain m where
    m: "on_fd (FDOpen a fd) ?s = Inr (?s\<lparr>members := m\<rparr>)" "fd_inv m" "raw m = raw (members s)"
      "\<forall>b. b \<noteq> a \<longrightarrow> fobjs m b = fd_member s b" "fobjs m a \<noteq> None"
    by (auto simp: sockets_inv_def)
  have "fobjs m b \<noteq> None \<and> j < ?k \<and> self_of s j = b" if "state_of s b = Some j" "b \<noteq> a" for b j
    using that assms(1) m(4) by (auto simp: sockets_inv_def)
  then have "sockets_inv (?s\<lparr>members := m\<rparr>)"
    using m(2,3,5) assms(1) by (simp add: sockets_inv_def less_Suc_eq) (metis not_less_iff_gr_or_eq)
  with m(1) show ?thesis by (simp add: sock_construct_def Let_def)
qed

lemma sock_move_construct_ok:
  assumes "sockets_inv s" "sock_pre (MoveConstruct a rhs) s"
  shows "\<exists>t. sock_move_construct a rhs s = Inr t \<and> sockets_inv t"
proof -
  let ?s = "s\<lparr>ctx_of := (ctx_of s)(a := ctx_of s rhs), state_of := (state_of s)(a := state_of s rhs, rhs := None),
      chs := (chs s)(a := (None, None))\<rparr>"
  from on_fd_ok [of ?s "FDDefault a" a] assms obtain m where
    m: "on_fd (FDDefault a) ?s = Inr (?s\<lparr>members := m\<rparr>)" "fd_inv m" "raw m = raw (members s)"
      "\<forall>b. b \<noteq> a \<longrightarrow> fobjs m b = fd_member s b" "fobjs m a \<noteq> None"
    by (auto simp: sockets_inv_def)
  have none: "state_of s a = None"
    using assms by (simp add: sockets_inv_def) (metis not_None_eq)
  have "fobjs m b \<noteq> None \<and> j < next_state s \<and> self_of s j = b" if "state_of s b = Some j" for b j
    using that none assms(1) m(4) by (cases "b = a") (auto simp: sockets_inv_def)
  then have "sockets_inv (s\<lparr>members := m\<rparr>)"
    using m(2,3) assms(1) by (simp add: sockets_inv_def)
  from state_moves [OF this, of a rhs] none m(5)
  have *: "sockets_inv (take_self a (s\<lparr>members := m, state_of := (state_of s)(a := state_of s rhs, rhs := None)\<rparr>))"
    by simp
  have "?s\<lparr>members := m\<rparr> = (s\<lparr>members := m, state_of := (state_of s)(a := state_of s rhs, rhs := None)\<rparr>)
      \<lparr>ctx_of := (ctx_of s)(a := ctx_of s rhs), chs := (chs s)(a := (None, None))\<rparr>" by simp
  with * have "sockets_inv (take_self a (?s\<lparr>members := m\<rparr>))" by (simp only: take_self_frame sockets_inv_frame)
  with m(1) show ?thesis by (simp add: sock_move_construct_def)
qed

lemma sock_move_assign_ok:
  assumes "sockets_inv s" "sock_pre (MoveAssign a rhs) s"
  shows "\<exists>t. sock_move_assign a rhs s = Inr t \<and> sockets_inv t"
proof -
  from sock_Close_ok [of s a] assms obtain t where
    t: "sock_Close a s = Inr t" "sockets_inv t" "state_of t a = None" "fd_member t a \<noteq> None"
    by (metis fun_upd_same sock_pre.simps(3))
  have eq: "(state_of t)(rhs := None, a := state_of t rhs) = (state_of t)(a := state_of t rhs, rhs := None)"
    using t(3) by (cases "a = rhs") (simp_all add: fun_upd_twist)
  from state_moves [OF t(2,4,3), of rhs] t(1) show ?thesis
    by (simp add: sock_move_assign_def Let_def eq)
qed

lemma sock_destroy_ok:
  assumes "sockets_inv s" "fd_member s a \<noteq> None"
  shows "\<exists>t. sock_destroy a s = Inr t \<and> sockets_inv t"
proof -
  from sock_Close_ok [OF assms] obtain t where
    t: "sock_Close a s = Inr t" "sockets_inv t" "state_of t a = None" "fd_member t a \<noteq> None"
    using assms(2) by (metis fun_upd_same)
  then obtain m where m: "fd_step (FDDestroy a) (members t) = Inr m" "fd_inv m"
    using fd.step_ok [of "members t" "FDDestroy a"] by (auto simp: sockets_inv_def)
  from m(1) have "raw m = raw (members t)" "\<forall>b. b \<noteq> a \<longrightarrow> fobjs m b = fd_member t b"
    by (auto simp: fd_destroy_def fd_close_def get_fd_def set_fd_def kclose_def bind_res_Inr_iff split: if_splits option.splits)
  moreover have "b \<noteq> a" if "state_of t b = Some j" for b j using that t(3) by auto
  ultimately have "sockets_inv (t\<lparr>members := m\<rparr>)" using t(2) m(2) by (simp add: sockets_inv_def)
  with t(1) m(1) show ?thesis by (simp add: sock_destroy_def on_fd_def)
qed

lemma sock_step_inv:
  assumes "sockets_inv s" "sock_pre op s"
  shows "\<exists>s'. sock_step op s = Inr s' \<and> sockets_inv s'"
proof (cases op)
  case (Construct a ctx fd)
  with assms sock_construct_ok show ?thesis by simp
next
  case (MoveConstruct a rhs)
  with assms sock_move_construct_ok show ?thesis by simp
next
  case (MoveAssign a rhs)
  with assms sock_move_assign_ok show ?thesis by simp
next
  case (StoreHandler a d h)
  with assms(1) show ?thesis by (simp add: sock_store_def)
next
  case (CloseSocket a)
  with assms sock_Close_ok [of s a] show ?thesis by auto
next
  case (Destroy a)
  with assms sock_destroy_ok show ?thesis by simp
qed

interpretation socket_objects: safe_machine sock_step sock_pre sockets_inv
  by unfold_locales (rule sock_step_inv)

section \<open>The properties of the socket objects\<close>

lemma no_sockets_inv: "sockets_inv no_sockets"
  by (simp add: sockets_inv_def no_sockets_def fd_inv_def ur_inv_def unique_owner_def owners_def fd_abs_def
      split: sum.split)


text \<open>
  C0. The move constructor of a socket takes the state but neither the descriptor nor the pending
  handlers: the new socket works on descriptor -1, closing it deregisters -1, aborts no handler and
  closes nothing; the descriptor stays open in the moved-from socket, whose own \<^verbatim>\<open>Close\<close> does nothing any
  more, until that socket is destroyed.
\<close>
theorem moved_socket_loses_descriptor:
  assumes "fd_member s a = None" "fd_member s b = Some fd" "state_of s b = Some k" "kopen (members s) fd" "0 \<le> fd"
  shows "\<exists>t u. sock_step (MoveConstruct a b) s = Inr t
    \<and> state_of t a = Some k \<and> self_of t k = a \<and> fd_member t a = Some kInvalid \<and> chs t a = (None, None)
    \<and> state_of t b = None \<and> fd_member t b = Some fd \<and> chs t b = chs s b
    \<and> sock_step (CloseSocket a) t = Inr u \<and> sock_step (CloseSocket b) u = Inr u
    \<and> removed u = removed s @ [(ctx_of s b, kInvalid)] \<and> aborted u = aborted s \<and> kopen (members u) = kopen (members s)
    \<and> (\<exists>v. sock_step (Destroy b) u = Inr v \<and> \<not> kopen (members v) fd \<and> aborted v = aborted s)"
proof -
  have "a \<noteq> b" using assms(1,2) by auto
  with assms show ?thesis
    by (simp add: sock_move_construct_def on_fd_def take_self_def sock_Close_def get_fd_def set_fd_def fd_close_def
        is_open_def kInvalid_def abort_list_def sock_destroy_def fd_destroy_def kclose_def)
qed

text \<open>A socket assigned to itself closes: the state is gone before the move.\<close>

lemma sock_Close_state: "sock_Close a s = Inr t \<Longrightarrow> state_of t a = None"
  by (auto simp: sock_Close_def bind_res_Inr_iff split: option.splits)

lemma self_assignment_closes:
  "sock_move_assign a a s = Inr t \<Longrightarrow> state_of t a = None"
  by (auto simp: sock_move_assign_def take_self_def Let_def bind_res_Inr_iff dest: sock_Close_state)

lemmas socket_defs = no_sockets_def sock_construct_def sock_move_construct_def sock_move_assign_def sock_Close_def
  sock_destroy_def take_self_def on_fd_def sock_store_def abort_list_def Let_def set_fd_def fd_close_def get_fd_def
  is_open_def kInvalid_def fd_destroy_def kclose_def


lemma moved_socket_loses_descriptor_witness:
  "\<exists>s t. run_ops sock_step [Construct 10 5 3, StoreHandler 10 Rx 7] no_sockets = Inr s
     \<and> sock_step (MoveConstruct 12 10) s = Inr t \<and> fd_member t 12 = Some kInvalid \<and> fd_member t 10 = Some 3"
proof -
  obtain s where s: "run_ops sock_step [Construct 10 5 3, StoreHandler 10 Rx 7] no_sockets = Inr s"
    "fd_member s 12 = None" "fd_member s 10 = Some 3" "state_of s 10 = Some 0" "kopen (members s) 3"
    by (simp add: socket_defs)
  from moved_socket_loses_descriptor [OF s(2-5)] s(1) show ?thesis by auto
qed

end
