(* ===== verification/Aio_System.thy ===== *)
theory Aio_System
  imports Aio_Context Aio_Datagram
begin

text \<open>
  The three components of \<^verbatim>\<open>src/minaio/v2\<close> put together: one \<^verbatim>\<open>Context\<close> with its queue and its
  \<^verbatim>\<open>Reactor\<close>, and any number of datagram sockets on it. A socket \<open>i\<close> keeps no queue of its own here:
  what its operations \<^verbatim>\<open>Enqueue\<close> goes to the queue of the context, tagged with \<open>i\<close>, and \<open>view i\<close>
  is the socket as Aio_Datagram sees it. A handler is client code: \<open>client i c p\<close> gives the next
  state of the object that owns the socket and the calls it makes when completion \<open>c\<close> runs.
  \<open>net\<close> is the log of the system calls on the sockets; \<open>answers\<close> gives the kernel's answer to
  the next one. \<open>CShutdown\<close> is the function \<^verbatim>\<open>Shutdown\<close> of the test client with its static
  counter: the second call stops the context.
\<close>

section \<open>State and operations\<close>

datatype call =
    CRead nat
  | CWrite nat bool
  | CClose
  | CStop
  | CShutdown

record 'p system =
  cx :: "(nat \<times> completion, nat reactor) ctx"
  sk :: "nat \<Rightarrow> dsock"
  owner :: "nat \<Rightarrow> 'p"
  net :: "(nat \<times> direction \<times> int) list"
  shutdowns :: nat

type_synonym kernel_answers = "(nat \<times> direction \<times> int) list \<Rightarrow> nat \<Rightarrow> direction \<Rightarrow> int \<times> int"

text \<open>An operation of socket \<open>i\<close>: what it pushes is enqueued on the context.\<close>

definition on_socket :: "nat \<Rightarrow> (dsock \<Rightarrow> dsock) \<Rightarrow> 'p system \<Rightarrow> 'p system" where
  "on_socket i f s =
     (let d = f (sk s i)
      in s\<lparr>sk := (sk s)(i := d\<lparr>queue := []\<rparr>), cx := fold (\<lambda>c. ctx_Enqueue (i, c)) (queue d) (cx s)\<rparr>)"

definition log_call :: "nat \<Rightarrow> direction \<Rightarrow> int \<Rightarrow> 'p system \<Rightarrow> 'p system" where
  "log_call i d re s = s\<lparr>net := net s @ [(i, d, re)]\<rparr>"

fun run_call :: "kernel_answers \<Rightarrow> (nat \<Rightarrow> int) \<Rightarrow> nat \<Rightarrow> call \<Rightarrow> 'p system \<Rightarrow> 'p system" where
  "run_call answers fd i (CRead h) s =
     (let a = answers (net s) i Rx;
          s' = (if has_state (sk s i) then log_call i Rx (fst a) s else s)
      in on_socket i (AsyncReadFrom h a) s')"
| "run_call answers fd i (CWrite h dest_ok) s =
     (let a = answers (net s) i Tx;
          s' = (if has_state (sk s i) \<and> dest_ok then log_call i Tx (fst a) s else s)
      in on_socket i (AsyncWriteTo h dest_ok a) s')"
| "run_call answers fd i CClose s =
     (let s' = (if has_state (sk s i) then s\<lparr>cx := (cx s)\<lparr>reactor := Remove (fd i) (reactor (cx s))\<rparr>\<rparr> else s)
      in on_socket i ds_Close s')"
| "run_call answers fd i CStop s = s\<lparr>cx := ctx_Stop (cx s)\<rparr>"
| "run_call answers fd i CShutdown s =
     (let s' = s\<lparr>shutdowns := shutdowns s + 1\<rparr>
      in if shutdowns s' = 2 then s'\<lparr>cx := ctx_Stop (cx s')\<rparr> else s')"

type_synonym 'p client = "nat \<Rightarrow> completion \<Rightarrow> 'p \<Rightarrow> 'p \<times> call list"

text \<open>What the context runs: a completion (the handler is moved out of the state and called) or its
  own \<^verbatim>\<open>reactor->Poll()\<close>, whose loop may never end.\<close>

definition sys_run_op ::
    "'p client \<Rightarrow> kernel_answers \<Rightarrow> (nat \<Rightarrow> int) \<Rightarrow> (pollfd list \<Rightarrow> int \<times> 16 word list)
       \<Rightarrow> (nat \<Rightarrow> event_mask \<Rightarrow> nat raction list) \<Rightarrow> (nat \<times> completion) ctx_op \<Rightarrow> 'p system
       \<Rightarrow> fault + 'p system" where
  "sys_run_op client answers fd kpoll program op s =
     (let s = s\<lparr>cx := (cx s)\<lparr>history := history (cx s) @ [op]\<rparr>\<rparr> in
      case op of
        User (i, c) \<Rightarrow>
          bind_res (run_completion c (sk s i))
            (\<lambda>d. let (p, calls) = client i c (owner s i)
                 in Inr (fold (run_call answers fd i) calls
                      (s\<lparr>sk := (sk s)(i := d), owner := (owner s)(i := p)\<rparr>)))
      | PollReactor \<Rightarrow>
          case reactor_Poll kpoll program (reactor (cx s)) of
            None \<Rightarrow> Inl (Undefined ''the loop of Reactor::Poll never ends'')
          | Some res \<Rightarrow> bind_res res (\<lambda>r. Inr (s\<lparr>cx := (cx s)\<lparr>reactor := r\<rparr>\<rparr>)))"

definition sys_ops :: "'p system \<Rightarrow> (nat \<times> completion) ctx_op list" where
  "sys_ops s = ops (cx s)"

definition sys_pop :: "'p system \<Rightarrow> 'p system" where
  "sys_pop s = s\<lparr>cx := pop_op (cx s)\<rparr>"

definition sys_Poll ::
    "'p client \<Rightarrow> kernel_answers \<Rightarrow> (nat \<Rightarrow> int) \<Rightarrow> (pollfd list \<Rightarrow> int \<times> 16 word list)
       \<Rightarrow> (nat \<Rightarrow> event_mask \<Rightarrow> nat raction list) \<Rightarrow> 'p system \<Rightarrow> (fault + 32 word \<times> 'p system)" where
  "sys_Poll client answers fd kpoll program s =
     (if poll_in_progress (cx s) then Inr (0, s)
      else
        let s = s\<lparr>cx := (cx s)\<lparr>poll_in_progress := True, ops := ops (cx s) @ [PollReactor]\<rparr>\<rparr>;
            n = length (sys_ops s)
        in bind_res (drain (sys_run_op client answers fd kpoll program) sys_ops sys_pop n s)
             (\<lambda>s. Inr (of_nat n, s\<lparr>cx := (cx s)\<lparr>poll_in_progress := False\<rparr>\<rparr>)))"

text \<open>The loop of the client's \<^verbatim>\<open>main\<close>: \<^verbatim>\<open>while (!ctx.IsStopped()) ctx.Poll();\<close>.\<close>

partial_function (option) sys_run ::
    "'p client \<Rightarrow> kernel_answers \<Rightarrow> (nat \<Rightarrow> int) \<Rightarrow> (pollfd list \<Rightarrow> int \<times> 16 word list)
       \<Rightarrow> (nat \<Rightarrow> event_mask \<Rightarrow> nat raction list) \<Rightarrow> 'p system \<Rightarrow> (fault + 'p system) option" where
  "sys_run client answers fd kpoll program s =
     (if IsStopped (cx s) then Some (Inr s)
      else
        case sys_Poll client answers fd kpoll program s of
          Inl f \<Rightarrow> Some (Inl f)
        | Inr (n, s') \<Rightarrow> sys_run client answers fd kpoll program s')"

section \<open>A reactor without registrations\<close>

text \<open>The sockets register nothing with the reactor, so it stays the way the context made it.\<close>

definition reactor_empty :: "'h reactor \<Rightarrow> bool" where
  "reactor_empty r \<longleftrightarrow> fd_data r = [] \<and> fd_handlers r = (\<lambda>_. None)"

lemma reactor_empty_new: "reactor_empty new_reactor"
  by (simp add: reactor_empty_def new_reactor_def)

lemma reactor_empty_Remove: "reactor_empty r \<Longrightarrow> reactor_empty (Remove fd r)"
  by (simp add: reactor_empty_def Remove_def fun_upd_idem)

lemma reactor_empty_Poll:
  assumes "reactor_empty r"
  shows "\<exists>r'. reactor_Poll kpoll program r = Some (Inr r') \<and> reactor_empty r'"
proof -
  obtain re rs where k: "kpoll [] = (re, rs)" by fastforce
  have "dispatch_loop program 0 t = Some (Inr t)" if "fd_data t = []" for t
    using that by (subst dispatch_loop.simps) simp
  with assms k show ?thesis by (simp add: reactor_empty_def reactor_Poll_def Let_def set_revents_def)
qed

section \<open>A socket seen on its own\<close>

fun completion_of :: "nat \<Rightarrow> (nat \<times> completion) ctx_op \<Rightarrow> completion option" where
  "completion_of i (User (j, c)) = (if i = j then Some c else None)"
| "completion_of i PollReactor = None"

definition view :: "nat \<Rightarrow> 'p system \<Rightarrow> dsock" where
  "view i s = (sk s i)\<lparr>queue := List.map_filter (completion_of i) (sys_ops s)\<rparr>"

text \<open>The operations of a socket only append to its queue, and do not look at it.\<close>

definition appends :: "(dsock \<Rightarrow> dsock) \<Rightarrow> bool" where
  "appends f \<longleftrightarrow> (\<forall>d q. f (d\<lparr>queue := q\<rparr>) = (f (d\<lparr>queue := []\<rparr>))\<lparr>queue := q @ queue (f (d\<lparr>queue := []\<rparr>))\<rparr>)"

lemma appends_ops [simp]:
  "appends (AsyncReadFrom h a)" "appends (AsyncWriteTo h ok a)" "appends ds_Close"
  by (simp_all add: appends_def AsyncReadFrom_def AsyncWriteTo_def StartRead_def StartWrite_def
      ds_Close_def push_def Let_def split: prod.split)

lemma map_filter_append: "List.map_filter f (xs @ ys) = List.map_filter f xs @ List.map_filter f ys"
  by (induction xs) (simp_all add: List.map_filter_simps split: option.split)

lemma enqueue_all:
  "fold (\<lambda>c. ctx_Enqueue (i, c)) cs c = c\<lparr>ops := ops c @ map (\<lambda>x. User (i, x)) cs\<rparr>"
  by (induction cs arbitrary: c) (simp_all add: ctx_Enqueue_def)

lemma completions_of_user:
  "List.map_filter (completion_of j) (map (\<lambda>x. User (i, x)) cs) = (if i = j then cs else [])"
  by (induction cs) (auto simp: List.map_filter_simps)


lemma view_on_socket:
  assumes "appends f" "queue (sk s i) = []"
  shows "view i (on_socket i f s) = f (view i s)"
    "j \<noteq> i \<Longrightarrow> view j (on_socket i f s) = view j s"
proof -
  have eq: "sk s i = (sk s i)\<lparr>queue := []\<rparr>" using assms(2) by simp
  let ?q = "List.map_filter (completion_of i) (ops (cx s))"
  from assms(1) have "f ((sk s i)\<lparr>queue := ?q\<rparr>)
      = (f ((sk s i)\<lparr>queue := []\<rparr>))\<lparr>queue := ?q @ queue (f ((sk s i)\<lparr>queue := []\<rparr>))\<rparr>"
    unfolding appends_def by blast
  then have "f ((sk s i)\<lparr>queue := ?q\<rparr>) = (f (sk s i))\<lparr>queue := ?q @ queue (f (sk s i))\<rparr>"
    by (simp only: eq [symmetric])
  then show "view i (on_socket i f s) = f (view i s)"
    by (simp add: view_def on_socket_def Let_def sys_ops_def enqueue_all map_filter_append completions_of_user)
  show "j \<noteq> i \<Longrightarrow> view j (on_socket i f s) = view j s"
    by (simp add: view_def on_socket_def Let_def sys_ops_def enqueue_all map_filter_append completions_of_user)
qed

lemma on_socket_sel [simp]:
  "queue (sk (on_socket i f s) j) = (if j = i then [] else queue (sk s j))"
  "reactor (cx (on_socket i f s)) = reactor (cx s)"
  "poll_in_progress (cx (on_socket i f s)) = poll_in_progress (cx s)"
  "stop_requested (cx (on_socket i f s)) = stop_requested (cx s)"
  "history (cx (on_socket i f s)) = history (cx s)"
  "owner (on_socket i f s) = owner s"
  "sys_ops (on_socket i f s) = sys_ops s @ map (\<lambda>c. User (i, c)) (queue (f (sk s i)))"
  by (simp_all add: on_socket_def Let_def enqueue_all sys_ops_def)

lemma view_frame [simp]:
  "view i (s\<lparr>net := n\<rparr>) = view i s" "view i (s\<lparr>owner := p\<rparr>) = view i s"
  "view i (s\<lparr>shutdowns := k\<rparr>) = view i s"
  "view i (log_call j d re s) = view i s"
  "view i (s\<lparr>cx := (cx s)\<lparr>reactor := r\<rparr>\<rparr>) = view i s"
  "view i (s\<lparr>cx := (cx s)\<lparr>poll_in_progress := b\<rparr>\<rparr>) = view i s"
  "view i (s\<lparr>cx := (cx s)\<lparr>history := h\<rparr>\<rparr>) = view i s"
  "view i (s\<lparr>cx := ctx_Stop (cx s)\<rparr>) = view i s"
  by (simp_all add: view_def sys_ops_def log_call_def ctx_Stop_def)

text \<open>A call of the owner of socket \<open>i\<close>, on that socket seen on its own.\<close>

fun call_op :: "int \<times> int \<Rightarrow> call \<Rightarrow> dsock \<Rightarrow> dsock" where
  "call_op a (CRead h) d = AsyncReadFrom h a d"
| "call_op a (CWrite h dest_ok) d = AsyncWriteTo h dest_ok a d"
| "call_op a CClose d = ds_Close d"
| "call_op a CStop d = d"
| "call_op a CShutdown d = d"

definition answer_of :: "kernel_answers \<Rightarrow> nat \<Rightarrow> call \<Rightarrow> 'p system \<Rightarrow> int \<times> int" where
  "answer_of answers i c s = answers (net s) i (case c of CRead _ \<Rightarrow> Rx | _ \<Rightarrow> Tx)"

lemma log_call_sel [simp]:
  "sk (log_call j d re s) = sk s" "cx (log_call j d re s) = cx s" "owner (log_call j d re s) = owner s"
  "sys_ops (log_call j d re s) = sys_ops s"
  by (simp_all add: log_call_def sys_ops_def)

lemma view_run_call:
  assumes "queue (sk s i) = []"
  shows "view i (run_call answers fd i c s) = call_op (answer_of answers i c s) c (view i s)"
    "j \<noteq> i \<Longrightarrow> view j (run_call answers fd i c s) = view j s"
proof -
  note v = view_on_socket [OF appends_ops(1)] view_on_socket [OF appends_ops(2)] view_on_socket [OF appends_ops(3)]
  show "view i (run_call answers fd i c s) = call_op (answer_of answers i c s) c (view i s)"
    using assms by (cases c) (simp_all add: Let_def v answer_of_def, simp add: view_def sys_ops_def ctx_Stop_def)
  show "j \<noteq> i \<Longrightarrow> view j (run_call answers fd i c s) = view j s"
    using assms by (cases c) (simp_all add: Let_def v, simp add: view_def sys_ops_def ctx_Stop_def)
qed

definition quiet_sockets :: "'p system \<Rightarrow> bool" where
  "quiet_sockets s \<longleftrightarrow> (\<forall>i. queue (sk s i) = [])"

text \<open>A call leaves everything but the queue, its own socket, the registrations and the stop flag.\<close>

lemma run_call_frame:
  "poll_in_progress (cx (run_call answers fd i c s)) = poll_in_progress (cx s)"
  "history (cx (run_call answers fd i c s)) = history (cx s)"
  "owner (run_call answers fd i c s) = owner s"
  "quiet_sockets s \<Longrightarrow> quiet_sockets (run_call answers fd i c s)"
  "\<exists>new. sys_ops (run_call answers fd i c s) = sys_ops s @ map User new"
  "reactor_empty (reactor (cx s)) \<Longrightarrow> reactor_empty (reactor (cx (run_call answers fd i c s)))"
proof -
  show "\<exists>new. sys_ops (run_call answers fd i c s) = sys_ops s @ map User new"
  proof (cases c)
    case (CRead h)
    then show ?thesis
      by (auto simp: Let_def intro!: exI [of _ "map (Pair i) (queue (AsyncReadFrom h (answers (net s) i Rx) (sk s i)))"])
  next
    case (CWrite h ok)
    then show ?thesis
      by (auto simp: Let_def intro!: exI [of _ "map (Pair i) (queue (AsyncWriteTo h ok (answers (net s) i Tx) (sk s i)))"])
  next
    case CClose
    then show ?thesis
      by (auto simp: Let_def sys_ops_def on_socket_def enqueue_all
          intro!: exI [of _ "map (Pair i) (queue (ds_Close (sk s i)))"])
  qed (auto simp: sys_ops_def ctx_Stop_def Let_def)
qed (cases c; auto simp: Let_def ctx_Stop_def quiet_sockets_def reactor_empty_Remove)+


section \<open>The queue of the system\<close>

lemma run_calls_frame:
  shows "poll_in_progress (cx (fold (run_call answers fd i) calls s)) = poll_in_progress (cx s)"
    "history (cx (fold (run_call answers fd i) calls s)) = history (cx s)" "owner (fold (run_call answers fd i) calls s) = owner s"
    "quiet_sockets s \<Longrightarrow> quiet_sockets (fold (run_call answers fd i) calls s)"
    "\<exists>new. sys_ops (fold (run_call answers fd i) calls s) = sys_ops s @ map User new"
    "reactor_empty (reactor (cx s)) \<Longrightarrow> reactor_empty (reactor (cx (fold (run_call answers fd i) calls s)))"
proof -
  show "\<exists>new. sys_ops (fold (run_call answers fd i) calls s) = sys_ops s @ map User new"
  proof (induction calls arbitrary: s)
    case (Cons c calls)
    obtain n1 where "sys_ops (run_call answers fd i c s) = sys_ops s @ map User n1"
      using run_call_frame(5) by blast
    moreover obtain n2 where "sys_ops (fold (run_call answers fd i) calls (run_call answers fd i c s))
        = sys_ops (run_call answers fd i c s) @ map User n2"
      using Cons.IH by blast
    ultimately show ?case by (auto intro: exI [of _ "n1 @ n2"])
  qed simp
qed (induction calls arbitrary: s; simp add: run_call_frame)+

lemma run_completion_queue:
  "run_completion c (d\<lparr>queue := q\<rparr>) = map_sum id (\<lambda>d. d\<lparr>queue := q\<rparr>) (run_completion c d)"
  by (auto simp: run_completion_def call_handler_def split: completion.split direction.split option.split)

lemma run_completion_keeps_queue: "run_completion c d = Inr t \<Longrightarrow> queue t = queue d"
  by (auto simp: run_completion_def call_handler_def split: completion.splits direction.splits option.splits)

lemma sys_run_op_frame:
  assumes "sys_run_op client answers fd kpoll program op s = Inr s'"
  shows "poll_in_progress (cx s') = poll_in_progress (cx s)" "history (cx s') = history (cx s) @ [op]"
    "quiet_sockets s \<Longrightarrow> quiet_sockets s'" "\<exists>new. sys_ops s' = sys_ops s @ map User new"
proof -
  have "poll_in_progress (cx s') = poll_in_progress (cx s) \<and> history (cx s') = history (cx s) @ [op]
    \<and> (quiet_sockets s \<longrightarrow> quiet_sockets s') \<and> (\<exists>new. sys_ops s' = sys_ops s @ map User new)"
  proof (cases op)
    case PollReactor
    then show ?thesis using assms
      by (auto simp: sys_run_op_def Let_def bind_res_Inr_iff quiet_sockets_def sys_ops_def split: option.splits)
  next
    case (User ic)
    obtain i c where ic: "ic = (i, c)" by fastforce
    let ?s = "s\<lparr>cx := (cx s)\<lparr>history := history (cx s) @ [op]\<rparr>\<rparr>"
    from assms User ic obtain d where d: "run_completion c (sk s i) = Inr d"
      by (auto simp: sys_run_op_def Let_def bind_res_Inr_iff)
    obtain p calls where cl: "client i c (owner s i) = (p, calls)" by fastforce
    let ?t = "?s\<lparr>sk := (sk s)(i := d), owner := (owner s)(i := p)\<rparr>"
    have s': "s' = fold (run_call answers fd i) calls ?t"
      using assms User ic d cl by (simp add: sys_run_op_def Let_def)
    have "quiet_sockets s \<Longrightarrow> quiet_sockets ?t"
      using run_completion_keeps_queue [OF d] by (simp add: quiet_sockets_def)
    then show ?thesis
      using run_calls_frame [where s = ?t and calls = calls and answers = answers and fd = fd and i = i]
      unfolding s' by (simp add: sys_ops_def)
  qed
  then show "poll_in_progress (cx s') = poll_in_progress (cx s)" "history (cx s') = history (cx s) @ [op]"
    "quiet_sockets s \<Longrightarrow> quiet_sockets s'" "\<exists>new. sys_ops s' = sys_ops s @ map User new" by simp_all
qed

definition sys_history :: "'p system \<Rightarrow> (nat \<times> completion) ctx_op list" where
  "sys_history s = history (cx s)"

interpretation system_queue: run_queue "sys_run_op client answers fd kpoll program" sys_ops sys_pop
    sys_history quiet_sockets for client answers fd kpoll program
proof (unfold_locales, goal_cases)
  case (1 s op s')
  with sys_run_op_frame [OF 1(2)] show ?case by (auto simp: sys_history_def)
qed (simp_all add: sys_pop_def sys_ops_def pop_op_def sys_history_def quiet_sockets_def)


section \<open>The contract between the sockets and their owners\<close>

fun call_pre :: "call \<Rightarrow> dsock \<Rightarrow> bool" where
  "call_pre (CRead h) d = ds_pre (SRead h (0, 0)) d"
| "call_pre (CWrite h dest_ok) d = ds_pre (SWrite h dest_ok (0, 0)) d"
| "call_pre CClose d = ds_pre SClose d"
| "call_pre CStop d = True"
| "call_pre CShutdown d = True"

lemma call_op_ok:
  assumes "ds_inv d" "call_pre c d"
  shows "ds_inv (call_op a c d)"
  using assms ds_inv_read ds_inv_write ds_inv_close by (cases c) auto

text \<open>\<open>obeys P calls d\<close>: the calls meet the contract of the socket one after the other, whatever the
  kernel answers, and leave it in a state that satisfies \<open>P\<close>.\<close>

fun obeys :: "(dsock \<Rightarrow> bool) \<Rightarrow> call list \<Rightarrow> dsock \<Rightarrow> bool" where
  "obeys P [] d \<longleftrightarrow> P d"
| "obeys P (c # cs) d \<longleftrightarrow> call_pre c d \<and> (\<forall>a. obeys P cs (call_op a c d))"

lemma calls_ok:
  "obeys P calls (view i s) \<Longrightarrow> ds_inv (view i s) \<Longrightarrow> quiet_sockets s \<Longrightarrow>
     P (view i (fold (run_call answers fd i) calls s)) \<and> ds_inv (view i (fold (run_call answers fd i) calls s))
     \<and> (\<forall>j. j \<noteq> i \<longrightarrow> view j (fold (run_call answers fd i) calls s) = view j s)"
proof (induction calls arbitrary: s)
  case (Cons c calls)
  have q: "queue (sk s i) = []" using Cons.prems(3) by (simp add: quiet_sockets_def)
  note v = view_run_call [where s = s and i = i and c = c and answers = answers and fd = fd, OF q]
  have "obeys P calls (call_op a c (view i s))" for a
    using Cons.prems(1) unfolding obeys.simps by blast
  with Cons.IH [of "run_call answers fd i c s"] Cons.prems call_op_ok [of "view i s" c] show ?case
    by (simp add: v run_call_frame)
qed simp

text \<open>The owner of socket \<open>i\<close> keeps \<open>J\<close> between its own state and the socket when its handlers are called.\<close>

locale socket_client =
  fixes client :: "'p client"
    and J :: "nat \<Rightarrow> 'p \<Rightarrow> dsock \<Rightarrow> bool"
  assumes polite: "ds_inv d \<Longrightarrow> J i p d \<Longrightarrow> queue d = c # cs \<Longrightarrow>
      run_completion c (d\<lparr>queue := cs\<rparr>) = Inr t \<Longrightarrow> client i c p = (p', calls) \<Longrightarrow>
      obeys (J i p') calls t"
begin

definition sys_inv :: "'p system \<Rightarrow> bool" where
  "sys_inv s \<longleftrightarrow> quiet_sockets s \<and> reactor_empty (reactor (cx s))
     \<and> (\<forall>i. ds_inv (view i s) \<and> J i (owner s i) (view i s))"

lemma completion_ok:
  assumes s: "sys_inv s" "sys_ops s = User (i, c) # later"
  shows "\<exists>s'. sys_run_op client answers fd kpoll program (User (i, c)) (sys_pop s) = Inr s' \<and> sys_inv s'"
proof -
  let ?cs = "List.map_filter (completion_of i) later"
  let ?s = "(sys_pop s)\<lparr>cx := (cx (sys_pop s))\<lparr>history := history (cx s) @ [User (i, c)]\<rparr>\<rparr>"
  from s(2) have q: "queue (view i s) = c # ?cs" by (simp add: view_def List.map_filter_simps)
  from s(1) have iv: "ds_inv (view i s)" "J i (owner s i) (view i s)" by (simp_all add: sys_inv_def)
  from ds_inv_run [OF iv(1)] q obtain t where
    t: "run_completion c ((view i s)\<lparr>queue := ?cs\<rparr>) = Inr t" "ds_inv t" by auto
  have vq: "(view i s)\<lparr>queue := ?cs\<rparr> = (sk s i)\<lparr>queue := ?cs\<rparr>" by (simp add: view_def)
  with t(1) obtain d where d: "run_completion c (sk s i) = Inr d" "t = d\<lparr>queue := ?cs\<rparr>"
    unfolding vq run_completion_queue by (cases "run_completion c (sk s i)") auto
  obtain p calls where cl: "client i c (owner s i) = (p, calls)" by fastforce
  let ?t = "?s\<lparr>sk := (sk s)(i := d), owner := (owner s)(i := p)\<rparr>"
  have vi: "view i ?t = t" using s(2) d(2) by (simp add: view_def sys_ops_def sys_pop_def pop_op_def)
  have vj: "view j ?t = view j s" if "j \<noteq> i" for j
    using s(2) that by (simp add: view_def sys_ops_def sys_pop_def pop_op_def List.map_filter_simps)
  have qt: "quiet_sockets ?t" using s(1) run_completion_keeps_queue [OF d(1)]
    by (simp add: sys_inv_def quiet_sockets_def sys_pop_def)
  from polite [OF iv q t(1) cl] have ob: "obeys (J i p) calls (view i ?t)" unfolding vi .
  let ?u = "fold (run_call answers fd i) calls ?t"
  from calls_ok [OF ob _ qt, of answers fd] t(2) vi have u: "J i p (view i ?u)" "ds_inv (view i ?u)"
    "\<And>j. j \<noteq> i \<Longrightarrow> view j ?u = view j ?t" by simp_all
  have "reactor_empty (reactor (cx ?t))" using s(1) by (simp add: sys_inv_def sys_pop_def pop_op_def)
  then have "sys_inv ?u"
    using u vj s(1) run_calls_frame [where s = ?t and answers = answers and fd = fd and i = i and calls = calls] qt
    unfolding sys_inv_def by (auto simp: sys_pop_def)
  moreover have "sys_run_op client answers fd kpoll program (User (i, c)) (sys_pop s) = Inr ?u"
    using d(1) cl by (simp add: sys_run_op_def Let_def sys_pop_def pop_op_def)
  ultimately show ?thesis by blast
qed

lemma reactor_op_ok:
  assumes s: "sys_inv s" "sys_ops s = PollReactor # later"
  shows "\<exists>s'. sys_run_op client answers fd kpoll program PollReactor (sys_pop s) = Inr s' \<and> sys_inv s'"
proof -
  from s(1) have "reactor_empty (reactor (cx s))" by (simp add: sys_inv_def)
  from reactor_empty_Poll [OF this] obtain r' where
    r': "reactor_Poll kpoll program (reactor (cx s)) = Some (Inr r')" "reactor_empty r'" by blast
  have "view i (sys_pop s) = view i s" for i
    using s(2) by (simp add: view_def sys_ops_def sys_pop_def pop_op_def List.map_filter_simps)
  with s(1) r' show ?thesis
    by (simp add: sys_run_op_def Let_def sys_pop_def pop_op_def sys_inv_def quiet_sockets_def view_def sys_ops_def)
qed

lemma Poll_ok:
  assumes s: "sys_inv s" "\<not> poll_in_progress (cx s)"
  shows "\<exists>s'. sys_Poll client answers fd kpoll program s = Inr (of_nat (Suc (length (sys_ops s))), s')
    \<and> sys_inv s' \<and> \<not> poll_in_progress (cx s')
    \<and> sys_history s' = sys_history s @ sys_ops s @ [PollReactor]"
proof -
  let ?exec = "sys_run_op client answers fd kpoll program"
  let ?s = "s\<lparr>cx := (cx s)\<lparr>poll_in_progress := True, ops := ops (cx s) @ [PollReactor]\<rparr>\<rparr>"
  let ?n = "length (sys_ops ?s)"
  have "view i ?s = view i s" for i
    by (simp add: view_def sys_ops_def map_filter_append List.map_filter_simps)
  with s(1) have iv: "sys_inv ?s" by (simp add: sys_inv_def quiet_sockets_def)
  have step: "\<exists>t' new. ?exec op (sys_pop t) = Inr t' \<and> sys_inv t' \<and> sys_ops t' = later @ new"
    if t: "sys_inv t" "sys_ops t = op # later" for t op later
  proof -
    obtain t' where t': "?exec op (sys_pop t) = Inr t'" "sys_inv t'"
    proof (cases op)
      case (User ic)
      with t have "sys_ops t = User (fst ic, snd ic) # later" by simp
      from completion_ok [OF t(1) this, of answers fd kpoll program] User that show ?thesis by auto
    next
      case PollReactor
      with t reactor_op_ok that show ?thesis by blast
    qed
    moreover from sys_run_op_frame(4) [OF t'(1)] t(2) obtain new where "sys_ops t' = later @ map User new"
      by (auto simp: sys_pop_def sys_ops_def pop_op_def)
    ultimately show ?thesis by blast
  qed
  from drain_invariant [where I = sys_inv and exec = ?exec and pending = sys_ops and pop = sys_pop, OF step iv order_refl] obtain d where
    d: "drain ?exec sys_ops sys_pop ?n ?s = Inr d" "sys_inv d" by blast
  from iv have "quiet_sockets ?s" by (simp add: sys_inv_def)
  from system_queue.drain_runs [OF this _ d(1)]
  have h: "sys_history d = sys_history ?s @ sys_ops ?s" by simp
  have vd: "sys_inv (d\<lparr>cx := (cx d)\<lparr>poll_in_progress := False\<rparr>\<rparr>)" using d(2) by (simp add: sys_inv_def quiet_sockets_def)
  have "sys_Poll client answers fd kpoll program s
      = Inr (of_nat ?n, d\<lparr>cx := (cx d)\<lparr>poll_in_progress := False\<rparr>\<rparr>)"
    using s(2) d(1) by (simp add: sys_Poll_def Let_def)
  with vd h show ?thesis by (simp add: sys_history_def sys_ops_def)
qed

end


section \<open>An empty queue\<close>

text \<open>Nothing but \<^verbatim>\<open>reactor->Poll()\<close> runs then, and no socket is registered with the reactor.\<close>

definition sys_idle :: "'p system \<Rightarrow> bool" where
  "sys_idle s \<longleftrightarrow> sys_ops s = [] \<and> \<not> poll_in_progress (cx s) \<and> \<not> stop_requested (cx s)
     \<and> reactor_empty (reactor (cx s))"

lemma idle_Poll:
  assumes "sys_idle s"
  shows "\<exists>s'. sys_Poll client answers fd kpoll program s = Inr (1, s') \<and> sys_idle s'
    \<and> sk s' = sk s \<and> owner s' = owner s \<and> net s' = net s"
proof -
  from assms(1) have "reactor_empty (reactor (cx s))" by (simp add: sys_idle_def)
  from reactor_empty_Poll [OF this] obtain r' where
    "reactor_Poll kpoll program (reactor (cx s)) = Some (Inr r')" "reactor_empty r'" by blast
  with assms(1) show ?thesis
    by (simp add: sys_Poll_def Let_def sys_idle_def sys_ops_def drain.simps(2) sys_run_op_def sys_pop_def pop_op_def)
qed

lemma idle_not_stopped: "sys_idle s \<Longrightarrow> \<not> IsStopped (cx s)"
  by (simp add: sys_idle_def IsStopped_def)

lemma idle_runs_forever:
  assumes "sys_idle s"
  shows "sys_run client answers fd kpoll program s = None"
proof -
  have "\<not> sys_idle s" if "sys_run client answers fd kpoll program s = Some x"
    for client :: "'a client" and answers fd kpoll program and s :: "'a system" and x
    using that
  proof (rule sys_run.raw_induct [where P = "\<lambda>client answers fd kpoll program s x. \<not> sys_idle s", rotated])
    fix run client answers fd kpoll program and s :: "'a system" and x
    assume IH: "\<And>client answers fd kpoll program (s :: 'a system) x.
        run client answers fd kpoll program s = Some x \<Longrightarrow> \<not> sys_idle s"
      and eq: "(if IsStopped (cx s) then Some (Inr s)
        else case sys_Poll client answers fd kpoll program s of
          Inl f \<Rightarrow> Some (Inl f)
        | Inr (n, s') \<Rightarrow> run client answers fd kpoll program s') = Some x"
    show "\<not> sys_idle s"
    proof
      assume a: "sys_idle s"
      then obtain s' where "sys_Poll client answers fd kpoll program s = Inr (1, s')" "sys_idle s'"
        using idle_Poll [of s client answers fd kpoll program] by auto
      with eq IH a idle_not_stopped show False by fastforce
    qed
  qed
  with assms show ?thesis
    by (cases "sys_run client answers fd kpoll program s") auto
qed

section \<open>Any number of Polls\<close>

fun polls ::
    "'p client \<Rightarrow> kernel_answers \<Rightarrow> (nat \<Rightarrow> int) \<Rightarrow> (pollfd list \<Rightarrow> int \<times> 16 word list)
       \<Rightarrow> (nat \<Rightarrow> event_mask \<Rightarrow> nat raction list) \<Rightarrow> nat \<Rightarrow> 'p system \<Rightarrow> fault + 'p system" where
  "polls client answers fd kpoll program 0 s = Inr s"
| "polls client answers fd kpoll program (Suc n) s =
     bind_res (sys_Poll client answers fd kpoll program s)
       (\<lambda>(_, s'). polls client answers fd kpoll program n s')"

context socket_client
begin

lemma polls_ok:
  "sys_inv s \<Longrightarrow> \<not> poll_in_progress (cx s) \<Longrightarrow>
    \<exists>s'. polls client answers fd kpoll program n s = Inr s' \<and> sys_inv s' \<and> \<not> poll_in_progress (cx s')"
proof (induction n arbitrary: s)
  case (Suc n)
  from Poll_ok [OF Suc.prems] obtain t where
    "sys_Poll client answers fd kpoll program s = Inr (of_nat (Suc (length (sys_ops s))), t)"
    "sys_inv t" "\<not> poll_in_progress (cx t)" by blast
  with Suc.IH [of t] show ?case by simp
qed simp

lemma accounted: "sys_inv s \<Longrightarrow>
    mset (issued (sk s i)) = handlers_in (view i s) + mset (map fst (delivered (sk s i)))"
  by (simp add: sys_inv_def ds_inv_def) (metis (no_types, lifting) dsock.select_convs(8,9) dsock.surjective
      dsock.update_convs(6) view_def)

end

end
