(* ===== verification/Aio_PingPong.thy ===== *)
theory Aio_PingPong
  imports Aio_System
begin

text \<open>
  \<^verbatim>\<open>src/minaio/v2/unittests/test_datagram_socket.cpp\<close>: the client of the composed system, two objects
  that own a datagram socket each and send one datagram to and fro. The handlers of a \<open>peer\<close> are
  its lambdas: the read handler of round \<open>k\<close> is number \<open>2 * k\<close>, the write handler \<open>2 * k + 1\<close>.
  Socket 0 belongs to the \<^verbatim>\<open>Ponger\<close>, socket 1 to the \<^verbatim>\<open>Pinger\<close>. (The test calls names that
  the library does not have, \<^verbatim>\<open>Url\<close> and \<^verbatim>\<open>RunOne\<close>; they stand for \<^verbatim>\<open>Endpoint\<close> and \<^verbatim>\<open>Poll\<close> here.)
\<close>

record peer =
  ponger :: bool
  iround :: nat
  nrounds :: nat
  assert_failed :: bool

definition StartRead_of :: "peer \<Rightarrow> call" where
  "StartRead_of p = CRead (2 * iround p)"

definition StartWrite_of :: "peer \<Rightarrow> call" where
  "StartWrite_of p = CWrite (2 * iround p + 1) True"

definition next_round :: "(peer \<Rightarrow> call) \<Rightarrow> peer \<Rightarrow> peer \<times> call list" where
  "next_round start p =
     (let p = p\<lparr>iround := iround p + 1\<rparr>
      in if iround p = nrounds p then (p, [CClose, CShutdown]) else (p, [start p]))"

fun lambda_of :: "completion \<Rightarrow> direction" where
  "lambda_of (Done d r) = d"
| "lambda_of (Direct h r) = (if even h then Rx else Tx)"

fun result_of :: "completion \<Rightarrow> io_result" where
  "result_of (Done d r) = r"
| "result_of (Direct h r) = r"

text \<open>A failed \<^verbatim>\<open>ASSERT_EQ\<close> returns from the lambda.\<close>

definition peer_client :: "peer client" where
  "peer_client i c p =
     (if result_of c \<noteq> Inr 1024 then (p\<lparr>assert_failed := True\<rparr>, [])
      else if ponger p then
        (case lambda_of c of
           Rx \<Rightarrow> (p, [StartWrite_of p])
         | Tx \<Rightarrow> next_round StartRead_of p)
      else
        (case lambda_of c of
           Rx \<Rightarrow> next_round StartWrite_of p
         | Tx \<Rightarrow> (p, [StartRead_of p])))"

definition ping_pong_start :: "nat \<Rightarrow> kernel_answers \<Rightarrow> (nat \<Rightarrow> int) \<Rightarrow> peer system" where
  "ping_pong_start rounds answers fd =
     (let s = \<lparr>cx = new_context new_reactor, sk = (\<lambda>_. new_dsock),
               owner = (\<lambda>i. \<lparr>ponger = (i = 0), iround = 0, nrounds = rounds, assert_failed = False\<rparr>),
               net = [], shutdowns = 0\<rparr>;
          s = run_call answers fd 0 (StartRead_of (owner s 0)) s
      in run_call answers fd 1 (StartWrite_of (owner s 1)) s)"

section \<open>The peers keep the contract of their socket\<close>

definition one_pending :: "nat \<Rightarrow> peer \<Rightarrow> dsock \<Rightarrow> bool" where
  "one_pending i p d \<longleftrightarrow> (rx_ch d = None \<or> tx_ch d = None)
     \<and> (has_state d \<longrightarrow> (\<forall>h r. Direct h r \<notin> set (queue d)))"

text \<open>What \<open>peer_client\<close> can call: nothing, one operation, or \<^verbatim>\<open>Close\<close> and \<^verbatim>\<open>Shutdown\<close>.\<close>

lemma peer_calls:
  assumes "peer_client i c p = (p', calls)"
  shows "calls = [] \<or> (\<exists>h. calls = [CRead h]) \<or> (\<exists>h. calls = [CWrite h True]) \<or> calls = [CClose, CShutdown]"
  using assms
  by (auto simp: peer_client_def next_round_def StartRead_of_def StartWrite_of_def Let_def
      split: if_splits direction.splits)

lemma one_pending_ops:
  assumes "rx_ch d = None" "tx_ch d = None" "one_pending i p d"
  shows "one_pending i p' (AsyncReadFrom h a d)" "one_pending i p' (AsyncWriteTo h ok a d)"
    "one_pending i p' (ds_Close d)" "one_pending i p' d"
  using assms by (simp_all add: one_pending_def AsyncReadFrom_def AsyncWriteTo_def StartRead_def StartWrite_def
      ds_Close_def Let_def split: prod.split)

lemma one_pending_closed:
  assumes "\<not> has_state d" "one_pending i p d"
  shows "one_pending i p' (AsyncReadFrom h a d)" "one_pending i p' (AsyncWriteTo h ok a d)"
    "one_pending i p' (ds_Close d)" "one_pending i p' d"
  using assms by (simp_all add: one_pending_def AsyncReadFrom_def AsyncWriteTo_def ds_Close_def Let_def)

interpretation peers: socket_client peer_client one_pending
proof (unfold_locales, goal_cases)
  case (1 d i p c cs t p' calls)
  note calls = peer_calls [OF 1(5)]
  show ?case
  proof (cases c)
    case (Direct h r)
    with 1(2,3) have "\<not> has_state d" by (auto simp: one_pending_def)
    with 1(2,3,4) Direct have "\<not> has_state t" "one_pending i p t"
      by (auto simp: run_completion_def call_handler_def one_pending_def)
    with calls one_pending_closed [of t i p p'] show ?thesis by auto
  next
    case (Done dir r)
    have none: "rx_ch t = None \<and> tx_ch t = None \<and> dones Rx t = 0 \<and> dones Tx t = 0"
      using 1(1-4) Done
      by (cases dir) (auto simp: ds_inv_def one_pending_def dones_def run_completion_def call_handler_def
          le_Suc_eq split: option.splits)
    moreover have "one_pending i p t"
      using 1(2-4) Done none
      by (cases dir) (auto simp: one_pending_def run_completion_def call_handler_def split: option.splits)
    ultimately show ?thesis using calls one_pending_ops [of t i p p'] by auto
  qed
qed


section \<open>The properties of the composed system\<close>

lemma start_inv:
  "peers.sys_inv (ping_pong_start rounds answers fd) \<and> \<not> poll_in_progress (cx (ping_pong_start rounds answers fd))"
proof -
  let ?s = "\<lparr>cx = new_context new_reactor, sk = (\<lambda>_. new_dsock),
      owner = (\<lambda>i. \<lparr>ponger = (i = 0), iround = 0, nrounds = rounds, assert_failed = False\<rparr>),
      net = [], shutdowns = 0\<rparr> :: peer system"
  let ?t = "run_call answers fd 0 (StartRead_of (owner ?s 0)) ?s"
  have v: "view i ?s = new_dsock" for i
    by (simp add: view_def sys_ops_def new_context_def new_dsock_def List.map_filter_simps)
  have s: "quiet_sockets ?s" "reactor_empty (reactor (cx ?s))" "\<not> poll_in_progress (cx ?s)"
    by (simp_all add: quiet_sockets_def new_dsock_def new_context_def reactor_empty_new)
  have n: "rx_ch new_dsock = None" "tx_ch new_dsock = None" "one_pending i p new_dsock" for i p
    by (simp_all add: one_pending_def new_dsock_def)
  have ob: "obeys (one_pending i p) [StartRead_of q] new_dsock" "obeys (one_pending i p) [StartWrite_of q] new_dsock" for i p q
    using one_pending_ops(1,2) [OF n] by (simp_all add: StartRead_of_def StartWrite_of_def n)
  have t: "one_pending 0 p (view 0 ?t)" "ds_inv (view 0 ?t)" "view j ?t = (if j = 0 then view 0 ?t else new_dsock)" for p j
    using calls_ok [of "one_pending 0 p" "[StartRead_of (owner ?s 0)]" 0 ?s answers fd] ob(1) new_dsock_inv s(1)
    by (auto simp: v)
  have qt: "quiet_sockets ?t" "reactor_empty (reactor (cx ?t))" "\<not> poll_in_progress (cx ?t)"
    using run_call_frame [where s = ?s and i = 0 and answers = answers and fd = fd] s by simp_all
  let ?u = "run_call answers fd 1 (StartWrite_of (owner ?t 1)) ?t"
  have "view 1 ?t = new_dsock" using t(3) [of 1] by simp
  with ob(2) new_dsock_inv
  have "obeys (one_pending 1 p) [StartWrite_of (owner ?t 1)] (view 1 ?t)" "ds_inv (view 1 ?t)" for p
    by simp_all
  from calls_ok [where answers = answers and fd = fd, OF this qt(1)]
  have u: "one_pending 1 p (view 1 ?u)" "ds_inv (view 1 ?u)" "j \<noteq> 1 \<Longrightarrow> view j ?u = view j ?t" for p j
    by simp_all
  have "one_pending j p (view j ?t) \<and> ds_inv (view j ?t)" for j p
    using t(1,2) n(3) new_dsock_inv t(3) [of j] by (cases "j = 0") (simp, simp only: if_False simp_thms)
  with u have "one_pending j p (view j ?u) \<and> ds_inv (view j ?u)" for j p
    by (cases "j = 1") simp_all
  moreover have "quiet_sockets ?u" "reactor_empty (reactor (cx ?u))" "\<not> poll_in_progress (cx ?u)"
    using run_call_frame [where s = ?t and i = 1 and answers = answers and fd = fd] qt by simp_all
  moreover have "ping_pong_start rounds answers fd = ?u"
    by (simp add: ping_pong_start_def Let_def)
  ultimately show ?thesis by (simp add: peers.sys_inv_def)
qed

text \<open>
  C4. However the kernel answers the calls on the two sockets, any number of \<^verbatim>\<open>Poll\<close>s of the
  ping-pong system completes without a fault, and for both sockets each handler passed in is
  pending, queued or has been called, exactly once. (The reactor has no registrations: the
  sockets never make one, so neither \<open>kpoll\<close> nor \<open>program\<close> is restricted.)
\<close>
theorem ping_pong_safe:
  "\<exists>s. polls peer_client answers fd kpoll program n (ping_pong_start rounds answers fd) = Inr s
    \<and> (\<forall>i. mset (issued (sk s i)) = handlers_in (view i s) + mset (map fst (delivered (sk s i))))"
  using peers.polls_ok [of "ping_pong_start rounds answers fd" answers fd kpoll program n] start_inv peers.accounted
  by blast

text \<open>The state after both \<^verbatim>\<open>Start\<close> calls, when the first read finds nothing.\<close>

fun replies :: "int \<times> int \<Rightarrow> io_result list" where
  "replies (re, code) =
     (if re \<ge> 0 then [Inr (nat re)] else if EAGAIN \<noteq> code then [Inl (PosixErrorDetails code)] else [])"

lemma start_state:
  assumes "answers [] 0 Rx = (-1, EAGAIN)" "a = answers [(0, Rx, -1)] 1 Tx"
  shows "ping_pong_start rounds answers fd =
    \<lparr>cx = (new_context new_reactor)\<lparr>ops := map (\<lambda>r. User (1, Done Tx r)) (replies a)\<rparr>,
     sk = (\<lambda>_. new_dsock)(0 := new_dsock\<lparr>issued := [0], rx_ch := Some 0\<rparr>,
                        1 := new_dsock\<lparr>issued := [1], tx_ch := Some 1\<rparr>),
     owner = (\<lambda>i. \<lparr>ponger = (i = 0), iround = 0, nrounds = rounds, assert_failed = False\<rparr>),
     net = [(0, Rx, -1), (1, Tx, fst a)], shutdowns = 0\<rparr>"
proof -
  obtain re code where "answers [(0, Rx, -1)] (Suc 0) Tx = (re, code)" by fastforce
  with assms show ?thesis
    by (simp add: ping_pong_start_def StartRead_of_def StartWrite_of_def Let_def on_socket_def
      log_call_def AsyncReadFrom_def AsyncWriteTo_def StartRead_def StartWrite_def new_dsock_def push_def
      new_context_def ctx_Enqueue_def fun_upd_twist)
qed

lemma first_poll_idle:
  assumes s: "cx s = (new_context new_reactor)\<lparr>ops := [User (1, Done Tx r)]\<rparr>"
      "sk s 1 = new_dsock\<lparr>issued := [1], tx_ch := Some 1\<rparr>" "\<not> ponger (owner s 1)"
    and a: "answers (net s) 1 Rx = (-1, EAGAIN)"
  shows "\<exists>s'. sys_Poll peer_client answers fd kpoll program s = Inr (2, s') \<and> sys_idle s'"
proof -
  obtain r' where r': "reactor_Poll kpoll program new_reactor = Some (Inr r')" "reactor_empty r'"
    using reactor_empty_Poll [OF reactor_empty_new] by blast
  show ?thesis
  proof (cases "r = Inr 1024")
    case True
    with s a r' show ?thesis
      by (simp add: sys_Poll_def Let_def sys_ops_def drain.simps(2) numeral_2_eq_2 sys_run_op_def sys_pop_def
          pop_op_def new_context_def run_completion_def call_handler_def peer_client_def StartRead_of_def
          on_socket_def log_call_def AsyncReadFrom_def StartRead_def new_dsock_def sys_idle_def)
  next
    case False
    with s r' show ?thesis
      by (simp add: sys_Poll_def Let_def sys_ops_def drain.simps(2) numeral_2_eq_2 sys_run_op_def sys_pop_def
          pop_op_def new_context_def run_completion_def call_handler_def peer_client_def
          new_dsock_def sys_idle_def)
  qed
qed

text \<open>
  C5. A socket is never registered with the reactor, so a read that finds no datagram is never
  tried again: when the kernel has no datagram for a socket to which nothing has been sent, the
  first reads of both peers stay pending for ever and the loop of the test does not return.
\<close>
theorem ping_pong_hangs:
  assumes k: "\<And>log. (\<And>n. (1, Tx, n) \<in> set log \<Longrightarrow> n < 0) \<Longrightarrow> answers log 0 Rx = (-1, EAGAIN)"
      "\<And>log. (\<And>n. (0, Tx, n) \<in> set log \<Longrightarrow> n < 0) \<Longrightarrow> answers log 1 Rx = (-1, EAGAIN)"
  shows "sys_run peer_client answers fd kpoll program (ping_pong_start rounds answers fd) = None"
proof -
  let ?a = "answers [(0, Rx, -1)] 1 Tx"
  let ?s = "ping_pong_start rounds answers fd"
  have "answers [] 0 Rx = (-1, EAGAIN)" using k(1) [of "[]"] by simp
  note start = start_state [of answers ?a rounds fd, OF this refl]
  have not_stopped: "\<not> IsStopped (cx ?s)" by (simp add: start IsStopped_def new_context_def)
  show ?thesis
  proof (cases "replies ?a")
    case Nil
    then have "sys_idle ?s" by (simp add: start sys_idle_def sys_ops_def new_context_def reactor_empty_new)
    from idle_runs_forever [OF this] show ?thesis .
  next
    case (Cons x xs)
    then have "replies ?a = [x]" by (cases ?a) (auto split: if_splits)
    have "answers (net ?s) 1 Rx = (-1, EAGAIN)" using k(2) [of "net ?s"] by (simp add: start)
    from first_poll_idle [where s = ?s and r = x and fd = fd and kpoll = kpoll and program = program and answers = answers,
        OF _ _ _ this] \<open>replies ?a = [x]\<close>
    obtain s' where s': "sys_Poll peer_client answers fd kpoll program ?s = Inr (2, s')" "sys_idle s'"
      by (auto simp: start)
    from idle_runs_forever [OF s'(2)]
    have "sys_run peer_client answers fd kpoll program s' = None" .
    with not_stopped s'(1) show ?thesis by (subst sys_run.simps) simp
  qed
qed

section \<open>Witnesses\<close>

text \<open>A kernel that loops datagrams back between the two sockets.\<close>

definition loopback :: kernel_answers where
  "loopback log i d =
     (if d = Tx \<or> list_ex (\<lambda>(j, d', n). j = 1 - i \<and> d' = Tx \<and> n \<ge> 0) log then (1024, 0) else (-1, EAGAIN))"

lemma ping_pong_safe_witness:
  "\<exists>s. polls peer_client loopback (\<lambda>i. 3 + int i) (\<lambda>ps. (0, map pfd_revents ps)) (\<lambda>_ _. []) 7
     (ping_pong_start 1000 loopback (\<lambda>i. 3 + int i)) = Inr s
    \<and> mset (issued (sk s 1)) = handlers_in (view 1 s) + mset (map fst (delivered (sk s 1)))"
  using ping_pong_safe [of loopback "\<lambda>i. 3 + int i" "\<lambda>ps. (0, map pfd_revents ps)" "\<lambda>_ _. []" 7 1000]
  by blast

lemma ping_pong_hangs_witness:
  "sys_run peer_client loopback (\<lambda>i. 3 + int i)
     (\<lambda>ps. (0, map pfd_revents ps)) (\<lambda>_ _. [])
     (ping_pong_start 1000 loopback (\<lambda>i. 3 + int i)) = None"
proof (rule ping_pong_hangs)
  fix log :: "(nat \<times> direction \<times> int) list"
  assume "\<And>n. (1, Tx, n) \<in> set log \<Longrightarrow> n < 0"
  then show "loopback log 0 Rx = (-1, EAGAIN)"
    by (fastforce simp: loopback_def list_ex_iff)
next
  fix log :: "(nat \<times> direction \<times> int) list"
  assume "\<And>n. (0, Tx, n) \<in> set log \<Longrightarrow> n < 0"
  then show "loopback log 1 Rx = (-1, EAGAIN)"
    by (fastforce simp: loopback_def list_ex_iff)
qed

end
