(* ===== verification/V0_Context.thy ===== *)
theory V0_Context
  imports Machine
begin

text \<open>
  \<^verbatim>\<open>src/minaio/v0/io_context.h\<close>: the first event loop of the repository. \<open>interest\<close> is the
  kernel's interest set of the epoll instance; the answers of \<^verbatim>\<open>epoll_ctl\<close> and \<^verbatim>\<open>epoll_wait\<close> are
  arguments. An entry of \<open>epoll_events\<close> or a value that the code never wrote is \<open>None\<close>, and
  reading it is undefined behaviour. A completion handler is an \<open>'op\<close>; the front of the queue is
  \<open>None\<close> while it runs, because it is moved out first and popped last. Handlers are numbers; what
  they do is the parameter \<open>handle\<close>, what a completion does is the parameter \<open>run\<close>.
\<close>

section \<open>State\<close>

type_synonym epoll_event = "int \<times> 32 word"

record 'op io_context =
  interest :: "int \<Rightarrow> bool"
  epoll_events :: "epoll_event option list"
  io_handlers :: "int \<Rightarrow> nat option"
  completions :: "'op option list"
  io_ran :: "'op list"

definition kMaxEventsPerPoll :: nat where "kMaxEventsPerPoll = 100"

definition EPOLLIN :: "32 word" where "EPOLLIN = 1"
definition EPOLLOUT :: "32 word" where "EPOLLOUT = 4"

definition IOContext :: "int \<Rightarrow> fault + 'op io_context" where
  "IOContext epoll_fd =
     (if epoll_fd = -1 then Inl (Thrown ''epoll_create error'')
      else Inr \<lparr>interest = (\<lambda>_. False), epoll_events = replicate kMaxEventsPerPoll None,
             io_handlers = (\<lambda>_. None), completions = [], io_ran = []\<rparr>)"

section \<open>Registration\<close>

definition RegisterEventHandler ::
    "int \<Rightarrow> int \<Rightarrow> nat \<Rightarrow> ('op, 'z) io_context_scheme \<Rightarrow> (string + int) \<times> ('op, 'z) io_context_scheme" where
  "RegisterEventHandler answer fd h c =
     (if answer = -1 then (Inl ''epoll_ctl error'', c)
      else
        let c = c\<lparr>interest := (interest c)(fd := True)\<rparr>
        in if io_handlers c fd \<noteq> None then (Inl ''io handler already exists'', c)
           else (Inr 0, c\<lparr>io_handlers := (io_handlers c)(fd \<mapsto> h)\<rparr>))"

definition DeregisterEventHandler ::
    "int \<Rightarrow> int \<Rightarrow> ('op, 'z) io_context_scheme \<Rightarrow> (string + int) \<times> ('op, 'z) io_context_scheme" where
  "DeregisterEventHandler answer fd c =
     (if answer \<le> -1 then (Inl ''epoll_ctl error'', c)
      else
        let c = c\<lparr>interest := (interest c)(fd := False)\<rparr>
        in if io_handlers c fd = None then (Inl ''no such io handler'', c)
           else (Inr 0, c\<lparr>io_handlers := (io_handlers c)(fd := None)\<rparr>))"

definition EnqueueCompletionHandler ::
    "'op \<Rightarrow> ('op, 'z) io_context_scheme \<Rightarrow> ('op, 'z) io_context_scheme" where
  "EnqueueCompletionHandler op c = c\<lparr>completions := completions c @ [Some op]\<rparr>"

definition MoreToComplete :: "('op, 'z) io_context_scheme \<Rightarrow> bool" where
  "MoreToComplete c \<longleftrightarrow> length (completions c) > 0"

section \<open>Poll\<close>

partial_function (option) complete_loop ::
    "('op \<Rightarrow> ('op, 'z) io_context_scheme \<Rightarrow> fault + ('op, 'z) io_context_scheme) \<Rightarrow> ('op, 'z) io_context_scheme
       \<Rightarrow> (fault + ('op, 'z) io_context_scheme) option" where
  "complete_loop run c =
     (case completions c of
        [] \<Rightarrow> Some (Inr c)
      | None # _ \<Rightarrow> Some (Inl (Thrown ''bad_function_call''))
      | Some op # later \<Rightarrow>
          (case run op (c\<lparr>completions := None # later, io_ran := io_ran c @ [op]\<rparr>) of
             Inl f \<Rightarrow> Some (Inl f)
           | Inr c' \<Rightarrow> complete_loop run (c'\<lparr>completions := tl (completions c')\<rparr>)))"

text \<open>\<^verbatim>\<open>for (auto const& e : epoll_events_)\<close>: every entry of the array, from index \<open>i\<close> on.\<close>

fun dispatch_entries ::
    "(nat \<Rightarrow> epoll_event \<Rightarrow> ('op, 'z) io_context_scheme \<Rightarrow> fault + ('op, 'z) io_context_scheme)
       \<Rightarrow> nat list \<Rightarrow> ('op, 'z) io_context_scheme \<Rightarrow> fault + ('op, 'z) io_context_scheme" where
  "dispatch_entries handle [] c = Inr c"
| "dispatch_entries handle (i # is) c =
     (case epoll_events c ! i of
        None \<Rightarrow> Inl (Undefined ''read of an indeterminate value'')
      | Some e \<Rightarrow>
          (case io_handlers c (fst e) of
             None \<Rightarrow> dispatch_entries handle is c
           | Some h \<Rightarrow> bind_res (handle h e c) (dispatch_entries handle is)))"

text \<open>\<open>MoreEvents\<close>: the answer of \<^verbatim>\<open>epoll_wait\<close> with the events it stores at the front of the
  array.\<close>

definition MoreEvents ::
    "int \<times> epoll_event list \<Rightarrow> ('op, 'z) io_context_scheme \<Rightarrow> fault + (bool \<times> ('op, 'z) io_context_scheme)" where
  "MoreEvents answer c =
     (let nfds = fst answer in
      if nfds \<le> -1 then Inl (Thrown ''failed epoll_wait'')
      else if nfds = 0 then Inr (False, c)
      else Inr (True, c\<lparr>epoll_events :=
             map Some (take (nat nfds) (snd answer)) @ drop (nat nfds) (epoll_events c)\<rparr>))"

text \<open>\<open>ws\<close> are the answers of the successive calls of \<^verbatim>\<open>epoll_wait\<close>; when they are used up there is
  no more event.\<close>

fun event_loop ::
    "(nat \<Rightarrow> epoll_event \<Rightarrow> ('op, 'z) io_context_scheme \<Rightarrow> fault + ('op, 'z) io_context_scheme)
       \<Rightarrow> (int \<times> epoll_event list) list \<Rightarrow> ('op, 'z) io_context_scheme \<Rightarrow> fault + ('op, 'z) io_context_scheme" where
  "event_loop handle [] c = Inr c"
| "event_loop handle (w # ws) c =
     bind_res (MoreEvents w c) (\<lambda>(more, c).
       if more then bind_res (dispatch_entries handle [0..<kMaxEventsPerPoll] c) (event_loop handle ws)
       else Inr c)"

definition io_Poll ::
    "('op \<Rightarrow> ('op, 'z) io_context_scheme \<Rightarrow> fault + ('op, 'z) io_context_scheme)
       \<Rightarrow> (nat \<Rightarrow> epoll_event \<Rightarrow> ('op, 'z) io_context_scheme \<Rightarrow> fault + ('op, 'z) io_context_scheme)
       \<Rightarrow> (int \<times> epoll_event list) list \<Rightarrow> ('op, 'z) io_context_scheme
       \<Rightarrow> (fault + ('op, 'z) io_context_scheme) option" where
  "io_Poll run handle ws c =
     (case complete_loop run c of
        None \<Rightarrow> None
      | Some (Inl f) \<Rightarrow> Some (Inl f)
      | Some (Inr c') \<Rightarrow> Some (event_loop handle ws c'))"

section \<open>What one round of events calls\<close>

text \<open>Handlers that succeed and leave the registrations and the array alone: \<open>f h e\<close> is their
  effect on the rest of the state.\<close>

definition quiet ::
    "(nat \<Rightarrow> epoll_event \<Rightarrow> ('op, 'z) io_context_scheme \<Rightarrow> ('op, 'z) io_context_scheme) \<Rightarrow> bool" where
  "quiet f \<longleftrightarrow> (\<forall>h e c. epoll_events (f h e c) = epoll_events c \<and> io_handlers (f h e c) = io_handlers c)"

definition calls :: "(int \<Rightarrow> nat option) \<Rightarrow> epoll_event list \<Rightarrow> (nat \<times> epoll_event) list" where
  "calls hs es = List.map_filter (\<lambda>e. map_option (\<lambda>h. (h, e)) (hs (fst e))) es"

lemma calls_Cons:
  "calls hs (e # es) = (case hs (fst e) of None \<Rightarrow> calls hs es | Some h \<Rightarrow> (h, e) # calls hs es)"
  by (simp add: calls_def List.map_filter_def split: option.splits)

lemma dispatch_entries_quiet:
  assumes "quiet f" "map (\<lambda>i. epoll_events c ! i) is = entries"
  shows "dispatch_entries (\<lambda>h e c. Inr (f h e c)) is c =
    (if None \<in> set entries then Inl (Undefined ''read of an indeterminate value'')
     else Inr (fold (\<lambda>(h, e). f h e) (calls (io_handlers c) (map the entries)) c))"
  using assms(2)
proof (induction "is" arbitrary: c entries)
  case Nil
  then show ?case by (simp add: calls_def List.map_filter_def)
next
  case (Cons i "is")
  obtain e rest where entries: "entries = e # rest" "e = epoll_events c ! i"
    "map (\<lambda>i. epoll_events c ! i) is = rest" using Cons.prems by auto
  have same: "epoll_events (f h x c) = epoll_events c" "io_handlers (f h x c) = io_handlers c" for h x
    using assms(1) by (cases x, simp add: quiet_def)+
  note step = Cons.IH [OF entries(3)] Cons.IH [of "f h x c" rest for h x, unfolded same, OF entries(3)]
  show ?case
  proof (cases e)
    case None
    then show ?thesis using entries by simp
  next
    case (Some x)
    then show ?thesis
      using entries step by (cases "io_handlers c (fst x)") (simp_all add: calls_Cons)
  qed
qed

lemma MoreEvents_stores:
  "0 < length es \<Longrightarrow> MoreEvents (int (length es), es) c =
     Inr (True, c\<lparr>epoll_events := map Some es @ drop (length es) (epoll_events c)\<rparr>)"
  by (simp add: MoreEvents_def Let_def)

lemma all_entries:
  "length xs = n \<Longrightarrow> map ((!) xs) [0..<n] = xs"
  by (auto simp: map_nth)

text \<open>
  C22. \<^verbatim>\<open>IOContext::Poll\<close> walks all 100 entries of its event array, not the \<^verbatim>\<open>nfds\<close> entries the
  kernel stored. With \<open>n\<close> new events it calls the handlers of those and then, again, of every
  stale entry behind them; and if an entry was never written (as long as fewer than 100 events
  have been stored in one call) it reads an indeterminate value.
\<close>

theorem io_Poll_walks_all:
  assumes "quiet f" "completions c = []" "length (epoll_events c) = kMaxEventsPerPoll"
    and "0 < length es" "length es \<le> kMaxEventsPerPoll"
  shows "io_Poll run (\<lambda>h e c. Inr (f h e c)) [(int (length es), es)] c =
    Some (let stale = drop (length es) (epoll_events c);
              c' = c\<lparr>epoll_events := map Some es @ stale\<rparr>
          in if None \<in> set stale then Inl (Undefined ''read of an indeterminate value'')
             else Inr (fold (\<lambda>(h, e). f h e) (calls (io_handlers c) (es @ map the stale)) c'))"
proof -
  define stale where "stale = drop (length es) (epoll_events c)"
  define c' where "c' = c\<lparr>epoll_events := map Some es @ stale\<rparr>"
  have loop: "complete_loop run c = Some (Inr c)"
    using assms(2) by (simp add: complete_loop.simps)
  have len: "length (epoll_events c') = kMaxEventsPerPoll"
    using assms(3,5) by (simp add: c'_def stale_def)
  have "dispatch_entries (\<lambda>h e c. Inr (f h e c)) [0..<kMaxEventsPerPoll] c' =
    (if None \<in> set stale then Inl (Undefined ''read of an indeterminate value'')
     else Inr (fold (\<lambda>(h, e). f h e) (calls (io_handlers c) (es @ map the stale)) c'))"
    using dispatch_entries_quiet [OF assms(1) all_entries [OF len]]
    by (auto simp: c'_def comp_def)
  then show ?thesis
    using MoreEvents_stores [OF assms(4), of c]
    by (simp add: io_Poll_def loop stale_def c'_def Let_def)
qed

theorem io_Poll_walks_all_witness:
  "(let c = \<lparr>interest = (\<lambda>fd. fd = 4), epoll_events = replicate 100 (Some (4, EPOLLIN)),
             io_handlers = (\<lambda>_. None)(4 \<mapsto> 7), completions = [], io_ran = ([] :: nat list)\<rparr>
    in io_Poll (\<lambda>op c. Inr c) (\<lambda>h e c. Inr (c\<lparr>io_ran := io_ran c @ [h]\<rparr>)) [(1, [(4, EPOLLIN)])] c
         = Some (Inr (c\<lparr>io_ran := replicate 100 7\<rparr>)))"
proof -
  define c where "c = \<lparr>interest = (\<lambda>fd. fd = (4 :: int)), epoll_events = replicate 100 (Some (4, EPOLLIN)),
    io_handlers = (\<lambda>_. None)(4 \<mapsto> 7), completions = [], io_ran = ([] :: nat list)\<rparr>"
  define f where "f = (\<lambda>h (e :: epoll_event) (c :: nat io_context). c\<lparr>io_ran := io_ran c @ [h]\<rparr>)"
  have fold: "(f h e ^^ n) d = d\<lparr>io_ran := io_ran d @ replicate n h\<rparr>" for n h e d
    by (induction n) (simp_all add: f_def replicate_append_same)
  have calls: "calls (io_handlers c) (replicate n (4, EPOLLIN)) = replicate n (7, (4, EPOLLIN))" for n
    by (induction n) (simp_all add: calls_Cons, simp_all add: c_def calls_def List.map_filter_def)
  have rep: "(4 :: int, EPOLLIN) # replicate 99 (4, EPOLLIN) = replicate 100 (4, EPOLLIN)"
    by (simp add: numeral_eq_Suc)
  have "io_Poll (\<lambda>op c. Inr c) (\<lambda>h e c. Inr (f h e c)) [(int (length [(4 :: int, EPOLLIN)]), [(4, EPOLLIN)])] c
      = Some (let stale = drop (length [(4 :: int, EPOLLIN)]) (epoll_events c);
              c' = c\<lparr>epoll_events := map Some [(4, EPOLLIN)] @ stale\<rparr>
          in if None \<in> set stale then Inl (Undefined ''read of an indeterminate value'')
             else Inr (fold (\<lambda>(h, e). f h e) (calls (io_handlers c) ([(4, EPOLLIN)] @ map the stale)) c'))"
    by (rule io_Poll_walks_all) (simp_all add: quiet_def f_def c_def kMaxEventsPerPoll_def)
  also have "\<dots> = Some (Inr (c\<lparr>io_ran := replicate 100 7\<rparr>))"
  proof -
    have stale: "drop (Suc 0) (epoll_events c) = replicate 99 (Some (4, EPOLLIN))" by (simp add: c_def)
    have same: "c\<lparr>epoll_events := Some (4, EPOLLIN) # replicate 99 (Some (4, EPOLLIN))\<rparr> = c"
      by (simp add: c_def numeral_eq_Suc)
    show ?thesis by (simp add: Let_def stale same rep calls fold) (simp add: c_def)
  qed
  finally show ?thesis by (simp add: f_def Let_def flip: c_def)
qed

section \<open>The completion loop\<close>

text \<open>The completions the queue holds, when none is running.\<close>

definition settled :: "('op, 'z) io_context_scheme \<Rightarrow> bool" where
  "settled c \<longleftrightarrow> None \<notin> set (completions c)"

text \<open>\<open>spawns run spawn\<close>: a completion succeeds and only appends \<open>spawn op\<close> to the queue.\<close>

definition spawns ::
    "('op \<Rightarrow> ('op, 'z) io_context_scheme \<Rightarrow> fault + ('op, 'z) io_context_scheme) \<Rightarrow> ('op \<Rightarrow> 'op list) \<Rightarrow> bool" where
  "spawns run spawn \<longleftrightarrow> (\<forall>op c. \<exists>c'. run op c = Inr c'
     \<and> completions c' = completions c @ map Some (spawn op) \<and> io_ran c' = io_ran c)"

text \<open>The order in which a queue that is drained to the end runs: with \<open>n\<close> rounds to go.\<close>

fun bfs :: "nat \<Rightarrow> ('op \<Rightarrow> 'op list) \<Rightarrow> 'op list \<Rightarrow> 'op list" where
  "bfs 0 spawn q = []"
| "bfs (Suc n) spawn [] = []"
| "bfs (Suc n) spawn (op # q) = op # bfs n spawn (q @ spawn op)"

lemma complete_loop_spawns:
  assumes "spawns run spawn" "\<And>op. sum_list (map weight (spawn op)) < weight op"
  shows "completions c = map Some q \<Longrightarrow> sum_list (map weight q) \<le> n \<Longrightarrow>
    \<exists>c'. complete_loop run c = Some (Inr c') \<and> completions c' = [] \<and> io_ran c' = io_ran c @ bfs n spawn q"
proof (induction n arbitrary: c q)
  case 0
  have "weight op \<noteq> 0" for op using assms(2) [of op] by auto
  with 0 have "q = []" by (cases q) auto
  with 0 show ?case by (auto simp: complete_loop.simps)
next
  case (Suc n)
  show ?case
  proof (cases q)
    case Nil
    with Suc show ?thesis by (auto simp: complete_loop.simps)
  next
    case (Cons op later)
    let ?c = "c\<lparr>completions := None # map Some later, io_ran := io_ran c @ [op]\<rparr>"
    obtain d where d: "run op ?c = Inr d" "completions d = None # map Some (later @ spawn op)"
      "io_ran d = io_ran c @ [op]"
      using assms(1) [unfolded spawns_def, rule_format, of op ?c] by auto
    have less: "sum_list (map weight (later @ spawn op)) \<le> n"
      using Suc.prems(2) assms(2) [of op] Cons by simp
    have loop: "complete_loop run c = complete_loop run (d\<lparr>completions := map Some (later @ spawn op)\<rparr>)"
      using Suc.prems(1) Cons d by (subst complete_loop.simps) simp
    from Suc.IH [of "d\<lparr>completions := map Some (later @ spawn op)\<rparr>", OF _ less]
    show ?thesis unfolding loop using d(3) Cons by simp
  qed
qed

text \<open>
  \<^verbatim>\<open>Poll\<close> takes no snapshot: it runs the queued completions in order and then those they
  enqueue, until the queue is empty. It returns when the chains of completions are finite
  (\<open>weight\<close> goes down along every chain).
\<close>

theorem io_Poll_drains:
  assumes "spawns run spawn" "\<And>op. sum_list (map weight (spawn op)) < weight op"
    and "completions c = map Some q"
  shows "\<exists>c'. io_Poll run handle [] c = Some (Inr c') \<and> \<not> MoreToComplete c'
    \<and> io_ran c' = io_ran c @ bfs (sum_list (map weight q)) spawn q"
proof -
  obtain c' where "complete_loop run c = Some (Inr c')" "completions c' = []"
    "io_ran c' = io_ran c @ bfs (sum_list (map weight q)) spawn q"
    using complete_loop_spawns [OF assms order.refl] by auto
  then show ?thesis by (simp add: io_Poll_def MoreToComplete_def)
qed

theorem io_Poll_drains_witness:
  "\<exists>c'. io_Poll (\<lambda>op c. Inr (c\<lparr>completions := completions c @ (if op = (0 :: nat) then [] else [Some (op - 1)])\<rparr>))
      (\<lambda>_ _ c. Inr c) [] \<lparr>interest = (\<lambda>_. False), epoll_events = [], io_handlers = (\<lambda>_. None),
         completions = [Some 2, Some 1], io_ran = []\<rparr> = Some (Inr c')
    \<and> \<not> MoreToComplete c' \<and> io_ran c' = [2, 1, 1, 0, 0]"
proof -
  define run where "run = (\<lambda>op (c :: nat io_context).
    (Inr (c\<lparr>completions := completions c @ (if op = 0 then [] else [Some (op - 1)])\<rparr>) :: fault + nat io_context))"
  define c where "c = \<lparr>interest = (\<lambda>_. False), epoll_events = [], io_handlers = (\<lambda>_. None),
    completions = [Some (2 :: nat), Some 1], io_ran = []\<rparr>"
  have "\<exists>c'. io_Poll run (\<lambda>_ _ c. Inr c) [] c = Some (Inr c') \<and> \<not> MoreToComplete c'
    \<and> io_ran c' = io_ran c @ bfs (sum_list (map Suc [2, 1])) (\<lambda>op. if op = 0 then [] else [op - 1]) [2, 1]"
    by (rule io_Poll_drains) (auto simp: spawns_def run_def c_def)
  moreover have "bfs 5 (\<lambda>op. if op = 0 then [] else [op - 1]) [2, 1] = [2, 1, 1, 0, 0 :: nat]"
    by code_simp
  ultimately show ?thesis by (simp add: run_def c_def)
qed

text \<open>A completion that polls the same context finds the moved-out function at the front.\<close>

lemma nested_Poll_throws:
  "completions c = None # later \<Longrightarrow>
     io_Poll run handle ws c = Some (Inl (Thrown ''bad_function_call''))"
  by (simp add: io_Poll_def complete_loop.simps)

section \<open>Registrations and the kernel\<close>

text \<open>The documented answers of \<^verbatim>\<open>epoll_ctl\<close> on an open descriptor: adding a registered one
  (\<^verbatim>\<open>EEXIST\<close>) and deleting an unregistered one (\<^verbatim>\<open>ENOENT\<close>) fail. The kernel drops a descriptor
  from the interest set when it is closed.\<close>

definition ctl_add_answer :: "int \<Rightarrow> ('op, 'z) io_context_scheme \<Rightarrow> int" where
  "ctl_add_answer fd c = (if interest c fd then -1 else 0)"

definition ctl_del_answer :: "int \<Rightarrow> ('op, 'z) io_context_scheme \<Rightarrow> int" where
  "ctl_del_answer fd c = (if interest c fd then 0 else -1)"

definition kernel_closes :: "int \<Rightarrow> ('op, 'z) io_context_scheme \<Rightarrow> ('op, 'z) io_context_scheme" where
  "kernel_closes fd c = c\<lparr>interest := (interest c)(fd := False)\<rparr>"

definition registrations_agree :: "('op, 'z) io_context_scheme \<Rightarrow> bool" where
  "registrations_agree c \<longleftrightarrow> (\<forall>fd. interest c fd \<longleftrightarrow> io_handlers c fd \<noteq> None)"

datatype io_op = IORegister int nat | IODeregister int | IOClose int

fun io_step :: "io_op \<Rightarrow> 'op io_context \<Rightarrow> fault + 'op io_context" where
  "io_step (IORegister fd h) c = Inr (snd (RegisterEventHandler (ctl_add_answer fd c) fd h c))"
| "io_step (IODeregister fd) c = Inr (snd (DeregisterEventHandler (ctl_del_answer fd c) fd c))"
| "io_step (IOClose fd) c = Inr (kernel_closes fd c)"

fun io_pre :: "io_op \<Rightarrow> 'op io_context \<Rightarrow> bool" where
  "io_pre (IOClose fd) c = (io_handlers c fd = None)"
| "io_pre _ c = True"

interpretation io_registrations: safe_machine io_step io_pre registrations_agree
proof
  fix c :: "'op io_context" and x
  assume "registrations_agree c" "io_pre x c"
  then show "\<exists>c'. io_step x c = Inr c' \<and> registrations_agree c'"
    by (cases x) (auto simp: registrations_agree_def RegisterEventHandler_def DeregisterEventHandler_def
        ctl_add_answer_def ctl_del_answer_def kernel_closes_def Let_def)
qed

text \<open>
  As long as every descriptor is deregistered before it is closed, the context's table and the
  kernel's interest set agree, and registering fails exactly for a descriptor that is registered.
\<close>

theorem registrations_consistent:
  assumes "admissible io_pre io_step xs c0" "IOContext epoll_fd = Inr c0" "run_ops io_step xs c0 = Inr c"
  shows "registrations_agree c
    \<and> (fst (RegisterEventHandler (ctl_add_answer fd c) fd h c) =
        (if io_handlers c fd = None then Inr 0 else Inl ''epoll_ctl error''))"
proof -
  have "registrations_agree c0"
    using assms(2) by (auto simp: IOContext_def registrations_agree_def split: if_splits)
  with assms(1,3) have "registrations_agree c"
    using io_registrations.run_inv by blast
  then show ?thesis
    by (auto simp: registrations_agree_def RegisterEventHandler_def ctl_add_answer_def Let_def)
qed

theorem registrations_consistent_witness:
  "(case IOContext 3 of Inr c0 \<Rightarrow>
      (case run_ops io_step [IORegister 4 0, IODeregister 4, IOClose 4, IORegister 4 1] (c0 :: nat io_context) of
         Inr c \<Rightarrow> registrations_agree c \<and> io_handlers c 4 = Some 1
       | Inl _ \<Rightarrow> False)
    | Inl _ \<Rightarrow> False)"
proof -
  define c0 :: "nat io_context" where
    "c0 = \<lparr>interest = (\<lambda>_. False), epoll_events = replicate kMaxEventsPerPoll None,
       io_handlers = (\<lambda>_. None), completions = [], io_ran = []\<rparr>"
  have new: "IOContext 3 = Inr c0" by (simp add: IOContext_def c0_def)
  define c where "c = c0\<lparr>interest := (interest c0)(4 := True), io_handlers := (\<lambda>_. None)(4 \<mapsto> 1)\<rparr>"
  have run: "run_ops io_step [IORegister 4 0, IODeregister 4, IOClose 4, IORegister 4 1] c0 = Inr c"
    by (simp add: c_def c0_def RegisterEventHandler_def DeregisterEventHandler_def
        ctl_add_answer_def ctl_del_answer_def kernel_closes_def Let_def)
  have "registrations_agree c"
    using registrations_consistent [OF _ new run]
    by (simp add: c0_def RegisterEventHandler_def DeregisterEventHandler_def
        ctl_add_answer_def ctl_del_answer_def kernel_closes_def Let_def)
  then show ?thesis by (simp only: new run sum.case) (simp add: c_def)
qed

text \<open>Closing first breaks it: the kernel forgets the descriptor, the table does not, and the next
  registration of the same number fails after it has been added to the interest set.\<close>

lemma close_before_deregister:
  assumes "registrations_agree c" "io_handlers c fd = Some h"
  shows "let d = kernel_closes fd c; (r, d') = RegisterEventHandler (ctl_add_answer fd d) fd h' d
    in r = Inl ''io handler already exists'' \<and> interest d' fd \<and> io_handlers d' fd = Some h"
  using assms by (simp add: kernel_closes_def RegisterEventHandler_def ctl_add_answer_def Let_def)

end
