(* ===== verification/V0_Acceptor.thy ===== *)
theory V0_Acceptor
  imports V0_Context
begin

text \<open>
  \<^verbatim>\<open>src/minaio/v0/{socket_base,endpoint,stream_socket,acceptor,connector}.h\<close>: sockets that own a
  descriptor, and the acceptor that listens on the context of \<open>V0_Context\<close>. \<open>kfd\<close> is the
  kernel's table of open descriptors and \<open>close_log\<close> the \<^verbatim>\<open>close\<close> calls made; the answers of the
  system calls are arguments. A \<^verbatim>\<open>SocketBase\<close> is its descriptor: copies and moves are the default
  ones and keep the number, every destructor closes it. \<open>acceptors\<close> and \<open>areactors\<close> are the live
  \<^verbatim>\<open>Acceptor\<close> and \<^verbatim>\<open>AcceptorReactor\<close> objects, \<open>connectors\<close> and \<open>creactors\<close> those of the connector.
\<close>

section \<open>State\<close>

record acceptor =
  acc_fd :: int
  acc_reactor :: "nat option"

record areactor =
  ar_owner :: nat
  ar_ch :: "nat option"

datatype accept_completion = Complete (done_ch: nat) (done_result: "string + int")

record connector =
  con_fd :: int
  con_reactor :: "nat option"

record creactor =
  cr_endpoint :: "32 word option option"
  cr_ch :: "nat option"

record v0 = "accept_completion io_context" +
  kfd :: "int \<Rightarrow> bool"
  close_log :: "int list"
  acceptors :: "nat \<Rightarrow> acceptor option"
  areactors :: "nat \<Rightarrow> areactor option"
  connectors :: "nat \<Rightarrow> connector option"
  creactors :: "nat \<Rightarrow> creactor option"
  handled :: "(nat \<times> (string + int) \<times> bool) list"

text \<open>A fresh context, no socket yet; the epoll instance itself is not listed in \<open>kfd\<close>.\<close>

definition new_v0 :: v0 where
  "new_v0 = \<lparr>interest = (\<lambda>_. False), epoll_events = replicate kMaxEventsPerPoll None,
     io_handlers = (\<lambda>_. None), completions = [], io_ran = [], kfd = (\<lambda>_. False), close_log = [],
     acceptors = (\<lambda>_. None), areactors = (\<lambda>_. None),
     connectors = (\<lambda>_. None), creactors = (\<lambda>_. None), handled = []\<rparr>"

definition sys_opens :: "int \<Rightarrow> 'z v0_scheme \<Rightarrow> 'z v0_scheme" where
  "sys_opens fd s = s\<lparr>kfd := (kfd s)(fd := True)\<rparr>"

definition sys_close :: "int \<Rightarrow> 'z v0_scheme \<Rightarrow> 'z v0_scheme" where
  "sys_close fd s = kernel_closes fd (s\<lparr>kfd := (kfd s)(fd := False), close_log := close_log s @ [fd]\<rparr>)"

section \<open>SocketBase\<close>

definition IsOpen :: "int \<Rightarrow> bool" where "IsOpen fd \<longleftrightarrow> fd > 0"

definition SetNonBlocking :: "int \<Rightarrow> string option" where
  "SetNonBlocking fcntl_re = (if fcntl_re = -1 then Some ''fcntl error!'' else None)"

text \<open>\<^verbatim>\<open>SocketBase(int)\<close>: an exception or the new \<^verbatim>\<open>fd_\<close>.\<close>

definition SocketBase_fd :: "int \<Rightarrow> int \<Rightarrow> string + int" where
  "SocketBase_fd fcntl_re fd =
     (if fd < 0 then Inr (-1)
      else case SetNonBlocking fcntl_re of Some e \<Rightarrow> Inl e | None \<Rightarrow> Inr fd)"

text \<open>\<^verbatim>\<open>Create\<close> is \<^verbatim>\<open>noexcept\<close>, so its exception terminates the program.\<close>

definition SocketBase_Create :: "int \<Rightarrow> 'z v0_scheme \<Rightarrow> fault + (int \<times> 'z v0_scheme)" where
  "SocketBase_Create socket_re s =
     (if socket_re < 0 then Inl (Terminated ''socket error!'') else Inr (socket_re, sys_opens socket_re s))"

definition SocketBase_default :: "int \<Rightarrow> int \<Rightarrow> 'z v0_scheme \<Rightarrow> fault + ((string + int) \<times> 'z v0_scheme)" where
  "SocketBase_default socket_re fcntl_re s =
     bind_res (SocketBase_Create socket_re s) (\<lambda>(fd, s).
       Inr (case SetNonBlocking fcntl_re of Some e \<Rightarrow> Inl e | None \<Rightarrow> Inr fd, s))"

definition DoClose :: "int \<Rightarrow> 'z v0_scheme \<Rightarrow> int \<times> 'z v0_scheme" where
  "DoClose fd s = (if IsOpen fd then (-1, sys_close fd s) else (fd, s))"

definition SocketBase_destroy :: "int \<Rightarrow> 'z v0_scheme \<Rightarrow> 'z v0_scheme" where
  "SocketBase_destroy fd s = snd (DoClose fd s)"

text \<open>The destructor of a \<^verbatim>\<open>Result<SocketBase, std::string>\<close>.\<close>

definition destroy_result :: "string + int \<Rightarrow> 'z v0_scheme \<Rightarrow> 'z v0_scheme" where
  "destroy_result re s = (case re of Inl _ \<Rightarrow> s | Inr fd \<Rightarrow> SocketBase_destroy fd s)"

text \<open>The protected constructor of \<^verbatim>\<open>StreamSocket\<close>: the base's destructor runs when its body throws.\<close>

definition StreamSocket :: "int \<Rightarrow> int \<Rightarrow> 'z v0_scheme \<Rightarrow> (string + int) \<times> 'z v0_scheme" where
  "StreamSocket fcntl_re fd s =
     (case SocketBase_fd fcntl_re fd of
        Inl e \<Rightarrow> (Inl e, s)
      | Inr fd' \<Rightarrow>
          if \<not> IsOpen fd' then (Inl ''invalid file descriptor'', SocketBase_destroy fd' s) else (Inr fd', s))"

section \<open>Endpoint\<close>

text \<open>The value of \<^verbatim>\<open>port_\<close>. The constructor ignores its arguments and leaves it indeterminate.\<close>

definition Endpoint :: "string \<Rightarrow> 32 word \<Rightarrow> 32 word option" where
  "Endpoint host p = None"

definition port :: "32 word option \<Rightarrow> fault + 32 word" where
  "port ep = (case ep of None \<Rightarrow> Inl (Undefined ''read of an indeterminate value'') | Some p \<Rightarrow> Inr p)"

section \<open>AcceptorReactor\<close>

definition EWOULDBLOCK :: int where "EWOULDBLOCK = 11"

text \<open>\<^verbatim>\<open>return SocketBase{client_sock};\<close> moves the temporary into the result and then destroys it.
  The answer of \<^verbatim>\<open>accept\<close> is its result and \<^verbatim>\<open>errno\<close>.\<close>

definition DoAsyncAcceptInitiation ::
    "(int \<Rightarrow> string) \<Rightarrow> int \<times> int \<Rightarrow> int \<Rightarrow> 'z v0_scheme \<Rightarrow> fault + ((string + int) \<times> 'z v0_scheme)" where
  "DoAsyncAcceptInitiation strerror answer fcntl_re s =
     (let (client_sock, errno) = answer in
      if client_sock \<le> -1 then
        if errno \<noteq> EWOULDBLOCK then Inr (Inl (strerror errno), s)
        else Inr (Inr (-1), SocketBase_destroy (-1) s)
      else
        let s = sys_opens client_sock s
        in case SocketBase_fd fcntl_re client_sock of
             Inl e \<Rightarrow> Inl (Terminated e)
           | Inr fd \<Rightarrow> Inr (Inr fd, SocketBase_destroy fd s))"

definition init_completed :: "string + int \<Rightarrow> bool" where
  "init_completed re = (case re of Inl _ \<Rightarrow> True | Inr fd \<Rightarrow> IsOpen fd)"

text \<open>The lambda holds a moved copy of the result; \<^verbatim>\<open>std::function\<close> moves it once more to the
  heap. The lambda and the local \<^verbatim>\<open>re\<close> are destroyed when \<open>Handle\<close> returns.\<close>

definition Handle :: "(int \<Rightarrow> string) \<Rightarrow> int \<times> int \<Rightarrow> int \<Rightarrow> nat \<Rightarrow> 'z v0_scheme \<Rightarrow> fault + 'z v0_scheme" where
  "Handle strerror answer fcntl_re r s =
     (case areactors s r of
        None \<Rightarrow> Inl (Undefined ''use of a deleted object'')
      | Some ar \<Rightarrow>
          (case ar_ch ar of
             None \<Rightarrow> Inr s
           | Some ch \<Rightarrow>
               (case acceptors s (ar_owner ar) of
                  None \<Rightarrow> Inl (Undefined ''use of a destroyed object'')
                | Some a \<Rightarrow>
                    bind_res (DoAsyncAcceptInitiation strerror answer fcntl_re s) (\<lambda>(re, s).
                      if init_completed re then
                        let s = EnqueueCompletionHandler (Complete ch re) s;
                            s = s\<lparr>areactors := (areactors s)(r \<mapsto> ar\<lparr>ar_ch := None\<rparr>)\<rparr>
                        in Inr (destroy_result re (destroy_result re s))
                      else Inr (destroy_result re s)))))"

section \<open>Acceptor\<close>

record acceptor_answers =
  ans_socket :: int
  ans_fcntl :: int
  ans_bind :: int
  ans_listen :: int
  ans_ctl :: int

text \<open>The constructor of the acceptor at \<open>a\<close>, whose reactor is allocated at \<open>r\<close>: the exception, if
  any, and the state after unwinding.\<close>

definition Acceptor ::
    "acceptor_answers \<Rightarrow> 32 word option \<Rightarrow> nat \<Rightarrow> nat \<Rightarrow> 'z v0_scheme \<Rightarrow> fault + (string option \<times> 'z v0_scheme)" where
  "Acceptor ans ep a r s =
     bind_res (SocketBase_default (ans_socket ans) (ans_fcntl ans) s) (\<lambda>(re, s).
       case re of
         Inl e \<Rightarrow> Inr (Some e, s)
       | Inr fd \<Rightarrow>
           if \<not> IsOpen fd then Inr (Some ''accepting socket is not opened!'', SocketBase_destroy fd s)
           else bind_res (port ep) (\<lambda>_.
             if ans_bind ans < 0 then Inr (Some ''bind error'', SocketBase_destroy fd s)
             else if ans_listen ans < 0 then Inr (Some ''listen error!'', SocketBase_destroy fd s)
             else
               let s = s\<lparr>areactors := (areactors s)(r \<mapsto> \<lparr>ar_owner = a, ar_ch = None\<rparr>)\<rparr>;
                   (re, s) = RegisterEventHandler (ans_ctl ans) fd r s
               in case re of
                    Inl e \<Rightarrow> Inr (Some e, SocketBase_destroy fd s)
                  | Inr _ \<Rightarrow>
                      Inr (None, s\<lparr>acceptors := (acceptors s)(a \<mapsto> \<lparr>acc_fd = fd, acc_reactor = Some r\<rparr>)\<rparr>)))"

definition AsyncAccept ::
    "(int \<Rightarrow> string) \<Rightarrow> int \<times> int \<Rightarrow> int \<Rightarrow> nat \<Rightarrow> nat \<Rightarrow> 'z v0_scheme \<Rightarrow> fault + 'z v0_scheme" where
  "AsyncAccept strerror answer fcntl_re ch a s =
     (case acceptors s a of
        None \<Rightarrow> Inl (Undefined ''use of a destroyed object'')
      | Some acc \<Rightarrow>
          (case acc_reactor acc of
             None \<Rightarrow> Inl (Undefined ''null pointer'')
           | Some r \<Rightarrow>
               (case areactors s r of
                  None \<Rightarrow> Inl (Undefined ''use of a deleted object'')
                | Some ar \<Rightarrow>
                    Handle strerror answer fcntl_re r
                      (s\<lparr>areactors := (areactors s)(r \<mapsto> ar\<lparr>ar_ch := Some ch\<rparr>)\<rparr>))))"

definition DoCloseSuper :: "int \<Rightarrow> acceptor \<Rightarrow> 'z v0_scheme \<Rightarrow> fault + (acceptor \<times> 'z v0_scheme)" where
  "DoCloseSuper ctl acc s =
     (if \<not> IsOpen (acc_fd acc) then Inr (acc, s)
      else case acc_reactor acc of
             None \<Rightarrow> Inl (Undefined ''null pointer'')
           | Some r \<Rightarrow>
               let s = snd (DeregisterEventHandler ctl (acc_fd acc) s)
               in Inr (acc\<lparr>acc_reactor := None\<rparr>, s\<lparr>areactors := (areactors s)(r := None)\<rparr>))"

definition Acceptor_Close :: "int \<Rightarrow> nat \<Rightarrow> 'z v0_scheme \<Rightarrow> fault + 'z v0_scheme" where
  "Acceptor_Close ctl a s =
     (case acceptors s a of
        None \<Rightarrow> Inl (Undefined ''use of a destroyed object'')
      | Some acc \<Rightarrow>
          bind_res (DoCloseSuper ctl acc s) (\<lambda>(acc, s).
            let (fd, s) = DoClose (acc_fd acc) s
            in Inr (s\<lparr>acceptors := (acceptors s)(a \<mapsto> acc\<lparr>acc_fd := fd\<rparr>)\<rparr>)))"

definition Acceptor_destroy :: "int \<Rightarrow> nat \<Rightarrow> 'z v0_scheme \<Rightarrow> fault + 'z v0_scheme" where
  "Acceptor_destroy ctl a s =
     (case acceptors s a of
        None \<Rightarrow> Inl (Undefined ''use of a destroyed object'')
      | Some acc \<Rightarrow>
          bind_res (DoCloseSuper ctl acc s) (\<lambda>(acc, s).
            let s = SocketBase_destroy (acc_fd acc) s
            in Inr (s\<lparr>acceptors := (acceptors s)(a := None)\<rparr>)))"

text \<open>Running the queued completion: \<^verbatim>\<open>ch(std::move(re))\<close> copies the result into the parameter of
  \<^verbatim>\<open>std::function::operator()\<close>, because the lambda is not \<^verbatim>\<open>mutable\<close>, and from there it goes into
  the parameter of the handler, which is taken by value as well (as in the tests). The
  handler's parameter, that of \<^verbatim>\<open>operator()\<close> and then the lambda are destroyed. What the client's handler
  does meanwhile is \<open>program\<close>.\<close>

definition run_accept_completion ::
    "(nat \<Rightarrow> string + int \<Rightarrow> 'z v0_scheme \<Rightarrow> fault + 'z v0_scheme) \<Rightarrow> accept_completion \<Rightarrow> 'z v0_scheme \<Rightarrow> fault + 'z v0_scheme" where
  "run_accept_completion program op s =
     (let ch = done_ch op; re = done_result op;
          live = (case re of Inl _ \<Rightarrow> False | Inr fd \<Rightarrow> kfd s fd)
      in bind_res (program ch re (s\<lparr>handled := handled s @ [(ch, re, live)]\<rparr>)) (\<lambda>s.
           Inr (destroy_result re (destroy_result re (destroy_result re s)))))"

section \<open>Accepted connections\<close>

lemma sys_close_facts [simp]:
  "kfd (sys_close fd s) = (kfd s)(fd := False)"
  "close_log (sys_close fd s) = close_log s @ [fd]"
  "interest (sys_close fd s) = (interest s)(fd := False)"
  "completions (sys_close fd s) = completions s"
  "io_handlers (sys_close fd s) = io_handlers s"
  "acceptors (sys_close fd s) = acceptors s"
  "areactors (sys_close fd s) = areactors s"
  "handled (sys_close fd s) = handled s"
  by (simp_all add: sys_close_def kernel_closes_def)

lemma SocketBase_destroy_simps [simp]:
  "0 < fd \<Longrightarrow> SocketBase_destroy fd s = sys_close fd s"
  "fd \<le> 0 \<Longrightarrow> SocketBase_destroy fd s = s"
  by (simp_all add: SocketBase_destroy_def DoClose_def IsOpen_def)

text \<open>What one event does for a pending accept, on each answer of \<^verbatim>\<open>accept\<close>.\<close>

lemma Handle_accepts:
  assumes "areactors s r = Some ar" "ar_ch ar = Some ch" "acceptors s (ar_owner ar) = Some acc"
    and "0 < fd" "fre \<noteq> -1"
  shows "Handle strerror (fd, e) fre r s =
    Inr (sys_close fd (sys_close fd (EnqueueCompletionHandler (Complete ch (Inr fd)) (sys_close fd (sys_opens fd s))
           \<lparr>areactors := (areactors s)(r \<mapsto> ar\<lparr>ar_ch := None\<rparr>)\<rparr>)))"
  using assms
  by (simp add: Handle_def DoAsyncAcceptInitiation_def SocketBase_fd_def SetNonBlocking_def
      init_completed_def IsOpen_def destroy_result_def EnqueueCompletionHandler_def sys_opens_def Let_def)

lemma Handle_idle:
  "areactors s r = Some ar \<Longrightarrow> ar_ch ar = None \<Longrightarrow> Handle strerror answer fre r s = Inr s"
  by (simp add: Handle_def)

lemma Handle_would_block:
  assumes "areactors s r = Some ar" "ar_ch ar = Some ch" "acceptors s (ar_owner ar) = Some acc" "fd < 0"
  shows "Handle strerror (fd, EWOULDBLOCK) fre r s = Inr s"
  using assms by (simp add: Handle_def DoAsyncAcceptInitiation_def init_completed_def IsOpen_def destroy_result_def)

lemma Handle_error:
  assumes "areactors s r = Some ar" "ar_ch ar = Some ch" "acceptors s (ar_owner ar) = Some acc" "fd < 0"
    and "e \<noteq> EWOULDBLOCK"
  shows "Handle strerror (fd, e) fre r s =
    Inr (EnqueueCompletionHandler (Complete ch (Inl (strerror e))) s
           \<lparr>areactors := (areactors s)(r \<mapsto> ar\<lparr>ar_ch := None\<rparr>)\<rparr>)"
  using assms by (simp add: Handle_def DoAsyncAcceptInitiation_def init_completed_def destroy_result_def
      EnqueueCompletionHandler_def Let_def)

text \<open>
  A connection accepted by \<^verbatim>\<open>AsyncAccept\<close> or by a later event is closed before its completion
  handler runs: the completion is queued with the descriptor, the kernel has closed it, and
  \<^verbatim>\<open>close\<close> has been called on it three times. When the completion runs it is closed three times more,
  whatever the number stands for by then.
\<close>

theorem accept_closes_connection:
  fixes s t :: v0
  assumes "areactors s r = Some ar" "ar_ch ar = Some ch" "acceptors s (ar_owner ar) = Some acc"
    and "0 < fd" "fre \<noteq> -1" "Handle strerror (fd, e) fre r s = Inr t"
  shows "completions t = completions s @ [Some (Complete ch (Inr fd))] \<and> \<not> kfd t fd
    \<and> close_log t = close_log s @ [fd, fd, fd]
    \<and> (\<forall>program (u :: v0) v. program ch (Inr fd) (u\<lparr>handled := handled u @ [(ch, Inr fd, kfd u fd)]\<rparr>) = Inr v \<longrightarrow>
        (\<exists>w. run_accept_completion program (Complete ch (Inr fd)) u = Inr w
          \<and> \<not> kfd w fd \<and> \<not> interest w fd \<and> close_log w = close_log v @ [fd, fd, fd]))"
  using assms(6) Handle_accepts [OF assms(1-5), of strerror e] assms(4)
  by (auto simp: EnqueueCompletionHandler_def sys_opens_def run_accept_completion_def Let_def destroy_result_def)

theorem accept_closes_connection_witness:
  "(let s = new_v0\<lparr>interest := (\<lambda>fd. fd = 4), io_handlers := (\<lambda>_. None)(4 \<mapsto> 0), kfd := (\<lambda>fd. fd = 4),
             acceptors := (\<lambda>_. None)(0 \<mapsto> \<lparr>acc_fd = 4, acc_reactor = Some 0\<rparr>),
             areactors := (\<lambda>_. None)(0 \<mapsto> \<lparr>ar_owner = 0, ar_ch = None\<rparr>)\<rparr>
    in \<exists>t. AsyncAccept (\<lambda>_. []) (5, 0) 0 9 0 s = Inr t
         \<and> completions t = [Some (Complete 9 (Inr 5))] \<and> \<not> kfd t 5 \<and> close_log t = [5, 5, 5])"
proof -
  define s where "s = new_v0\<lparr>interest := (\<lambda>fd. fd = 4), io_handlers := (\<lambda>_. None)(4 \<mapsto> 0), kfd := (\<lambda>fd. fd = 4),
             acceptors := (\<lambda>_. None)(0 \<mapsto> \<lparr>acc_fd = 4, acc_reactor = Some 0\<rparr>),
             areactors := (\<lambda>_. None)(0 \<mapsto> \<lparr>ar_owner = 0, ar_ch = None\<rparr>)\<rparr>"
  define s' where "s' = s\<lparr>areactors := (areactors s)(0 \<mapsto> \<lparr>ar_owner = 0, ar_ch = Some 9\<rparr>)\<rparr>"
  have acc: "AsyncAccept (\<lambda>_. []) (5, 0) 0 9 0 s = Handle (\<lambda>_. []) (5, 0) 0 0 s'"
    by (simp add: AsyncAccept_def s_def s'_def)
  obtain t where t: "Handle (\<lambda>_. []) (5, 0) 0 0 s' = Inr t"
    using Handle_accepts [of s' 0 "\<lparr>ar_owner = 0, ar_ch = Some 9\<rparr>" 9 _ 5 0] by (simp add: s'_def s_def new_v0_def)
  have "completions t = [Some (Complete 9 (Inr 5))] \<and> \<not> kfd t 5 \<and> close_log t = [5, 5, 5]"
    using accept_closes_connection [OF _ _ _ _ _ t, of "\<lparr>ar_owner = 0, ar_ch = Some 9\<rparr>" 9]
    by (simp add: s'_def s_def new_v0_def)
  with acc t show ?thesis by (simp add: Let_def flip: s_def)
qed

section \<open>The life of an acceptor\<close>

text \<open>The calls of a client and the events of the loop. An endpoint is given as the value of its \<^verbatim>\<open>port_\<close>,
  which the constructor of \<^verbatim>\<open>Endpoint\<close> leaves indeterminate (\<open>None\<close>).\<close>

datatype v0_call =
    VConstruct acceptor_answers "32 word option" nat nat
  | VAccept nat nat "int \<times> int" int
  | VEvent nat "int \<times> int" int
  | VClose nat
  | VDestroy nat

definition fd_of :: "nat \<Rightarrow> 'z v0_scheme \<Rightarrow> int" where
  "fd_of a s = (case acceptors s a of None \<Rightarrow> -1 | Some acc \<Rightarrow> acc_fd acc)"

fun v0_step :: "(int \<Rightarrow> string) \<Rightarrow> v0_call \<Rightarrow> 'z v0_scheme \<Rightarrow> fault + 'z v0_scheme" where
  "v0_step strerror (VConstruct ans ep a r) s =
     bind_res (Acceptor (ans\<lparr>ans_ctl := ctl_add_answer (ans_socket ans) s\<rparr>) ep a r s) (\<lambda>(e, t). Inr t)"
| "v0_step strerror (VAccept a ch answer fre) s = AsyncAccept strerror answer fre ch a s"
| "v0_step strerror (VEvent r answer fre) s = Handle strerror answer fre r s"
| "v0_step strerror (VClose a) s = Acceptor_Close (ctl_del_answer (fd_of a s) s) a s"
| "v0_step strerror (VDestroy a) s = Acceptor_destroy (ctl_del_answer (fd_of a s) s) a s"

text \<open>A turn is such a call, or one round of the loop of \<^verbatim>\<open>Poll\<close> over the queued completions
  (\<open>complete_loop\<close>), with the calls the client's handler makes.\<close>

datatype v0_turn =
    Call v0_call
  | RunCompletion "v0_call list"

definition take_front :: "accept_completion \<Rightarrow> accept_completion option list \<Rightarrow> 'z v0_scheme \<Rightarrow> 'z v0_scheme" where
  "take_front op later s = s\<lparr>completions := None # later, io_ran := io_ran s @ [op]\<rparr>"

fun v0_turn_step :: "(int \<Rightarrow> string) \<Rightarrow> v0_turn \<Rightarrow> 'z v0_scheme \<Rightarrow> fault + 'z v0_scheme" where
  "v0_turn_step strerror (Call c) s = v0_step strerror c s"
| "v0_turn_step strerror (RunCompletion cs) s =
     (case completions s of
        [] \<Rightarrow> Inr s
      | None # _ \<Rightarrow> Inl (Thrown ''bad_function_call'')
      | Some op # later \<Rightarrow>
          bind_res (run_accept_completion (\<lambda>_ _. run_ops (v0_step strerror) cs) op (take_front op later s))
            (\<lambda>s. Inr (s\<lparr>completions := tl (completions s)\<rparr>)))"

text \<open>The state in which the handler is called.\<close>

definition handler_state :: "accept_completion \<Rightarrow> accept_completion option list \<Rightarrow> 'z v0_scheme \<Rightarrow> 'z v0_scheme" where
  "handler_state op later s = (let s = take_front op later s in
     s\<lparr>handled := handled s @ [(done_ch op, done_result op,
         case done_result op of Inl _ \<Rightarrow> False | Inr fd \<Rightarrow> kfd s fd)]\<rparr>)"

text \<open>The calls that end in a fault, told from the state before: \<^verbatim>\<open>socket\<close> fails in the \<^verbatim>\<open>noexcept\<close>
  \<^verbatim>\<open>Create\<close>; the constructor reads a port that was never set; \<^verbatim>\<open>fcntl\<close> fails on an accepted
  descriptor in the \<^verbatim>\<open>noexcept\<close> \<^verbatim>\<open>DoAsyncAcceptInitiation\<close>; and \<^verbatim>\<open>AsyncAccept\<close> goes through the null
  reactor of a closed acceptor.\<close>

definition fcntl_kills :: "int \<times> int \<Rightarrow> int \<Rightarrow> bool" where
  "fcntl_kills answer fre \<longleftrightarrow> fst answer \<ge> 0 \<and> fre = -1"

definition waiting :: "nat \<Rightarrow> 'z v0_scheme \<Rightarrow> bool" where
  "waiting r s \<longleftrightarrow> (case areactors s r of None \<Rightarrow> False | Some ar \<Rightarrow> ar_ch ar \<noteq> None)"

fun call_fault :: "v0_call \<Rightarrow> 'z v0_scheme \<Rightarrow> fault option" where
  "call_fault (VConstruct ans ep a r) s =
     (if ans_socket ans < 0 then Some (Terminated ''socket error!'')
      else if ans_fcntl ans \<noteq> -1 \<and> IsOpen (ans_socket ans) \<and> ep = None
        then Some (Undefined ''read of an indeterminate value'') else None)"
| "call_fault (VAccept a ch answer fre) s =
     (if \<not> IsOpen (fd_of a s) then Some (Undefined ''null pointer'')
      else if fcntl_kills answer fre then Some (Terminated ''fcntl error!'') else None)"
| "call_fault (VEvent r answer fre) s =
     (if waiting r s \<and> fcntl_kills answer fre then Some (Terminated ''fcntl error!'') else None)"
| "call_fault (VClose a) s = None"
| "call_fault (VDestroy a) s = None"

fun turn_fault :: "(int \<Rightarrow> string) \<Rightarrow> v0_turn \<Rightarrow> 'z v0_scheme \<Rightarrow> fault option" where
  "turn_fault strerror (Call c) s = call_fault c s"
| "turn_fault strerror (RunCompletion cs) s =
     (case completions s of
        Some op # later \<Rightarrow> first_fault call_fault (v0_step strerror) cs (handler_state op later s)
      | _ \<Rightarrow> None)"

text \<open>What remains a condition: objects are used within their lifetime, the kernel hands out numbers
  that are not open, events come for registered handlers, and a completion whose connection is
  closed again after the handler (its number is stale) is run only while that number has not been opened again.\<close>

fun v0_pre :: "v0_call \<Rightarrow> 'z v0_scheme \<Rightarrow> bool" where
  "v0_pre (VConstruct ans ep a r) s =
     (\<not> kfd s (ans_socket ans) \<and> acceptors s a = None \<and> areactors s r = None)"
| "v0_pre (VAccept a ch answer fre) s = (acceptors s a \<noteq> None \<and> \<not> kfd s (fst answer))"
| "v0_pre (VEvent r answer fre) s = ((\<exists>fd. io_handlers s fd = Some r) \<and> \<not> kfd s (fst answer))"
| "v0_pre (VClose a) s = (acceptors s a \<noteq> None)"
| "v0_pre (VDestroy a) s = (acceptors s a \<noteq> None)"

definition stays_closed :: "string + int \<Rightarrow> 'z v0_scheme \<Rightarrow> bool" where
  "stays_closed re s \<longleftrightarrow> (case re of Inl _ \<Rightarrow> True | Inr fd \<Rightarrow> \<not> kfd s fd)"

fun turn_pre :: "(int \<Rightarrow> string) \<Rightarrow> v0_turn \<Rightarrow> 'z v0_scheme \<Rightarrow> bool" where
  "turn_pre strerror (Call c) s = v0_pre c s"
| "turn_pre strerror (RunCompletion cs) s =
     (case completions s of
        Some op # later \<Rightarrow>
          admissible v0_pre (v0_step strerror) cs (handler_state op later s)
          \<and> (case run_ops (v0_step strerror) cs (handler_state op later s) of
               Inl _ \<Rightarrow> True | Inr t \<Rightarrow> stays_closed (done_result op) t)
      | _ \<Rightarrow> True)"

definition acc_closed :: "acceptor \<Rightarrow> bool" where
  "acc_closed acc \<longleftrightarrow> acc_fd acc = -1 \<and> acc_reactor acc = None"

definition acc_open :: "'z v0_scheme \<Rightarrow> nat \<Rightarrow> acceptor \<Rightarrow> bool" where
  "acc_open s a acc \<longleftrightarrow> 0 < acc_fd acc \<and> kfd s (acc_fd acc)
     \<and> (\<exists>r ar. acc_reactor acc = Some r \<and> areactors s r = Some ar \<and> ar_owner ar = a
          \<and> io_handlers s (acc_fd acc) = Some r)"

definition acc_inv :: "'z v0_scheme \<Rightarrow> bool" where
  "acc_inv s \<longleftrightarrow> registrations_agree s
     \<and> (\<forall>a acc. acceptors s a = Some acc \<longrightarrow> acc_closed acc \<or> acc_open s a acc)
     \<and> (\<forall>fd r. io_handlers s fd = Some r \<longrightarrow>
          (\<exists>a acc. acceptors s a = Some acc \<and> acc_fd acc = fd \<and> acc_reactor acc = Some r))"

lemma acc_inv_new: "acc_inv new_v0"
  by (simp add: acc_inv_def new_v0_def registrations_agree_def)

text \<open>The owner of each live reactor is all the invariant reads of the reactors.\<close>

definition owner :: "'z v0_scheme \<Rightarrow> nat \<Rightarrow> nat option" where
  "owner s r = map_option ar_owner (areactors s r)"

lemma acc_open_owner:
  "acc_open s a acc \<longleftrightarrow> 0 < acc_fd acc \<and> kfd s (acc_fd acc)
     \<and> (\<exists>r. acc_reactor acc = Some r \<and> owner s r = Some a \<and> io_handlers s (acc_fd acc) = Some r)"
  by (auto simp: acc_open_def owner_def)

lemma acc_inv_frame:
  assumes "acc_inv s" "io_handlers t = io_handlers s" "interest t = interest s" "acceptors t = acceptors s"
    and "owner t = owner s" "\<And>fd. kfd s fd \<Longrightarrow> kfd t fd"
  shows "acc_inv t"
  using assms by (simp add: acc_inv_def registrations_agree_def acc_open_owner) blast

lemma acc_inv_cases: "acc_inv s \<Longrightarrow> acceptors s a = Some acc \<Longrightarrow> acc_closed acc \<or> acc_open s a acc"
  unfolding acc_inv_def by blast

lemma registered_open:
  assumes "acc_inv s" "io_handlers s fd = Some r"
  obtains a acc ar where "acceptors s a = Some acc" "acc_fd acc = fd" "0 < fd" "kfd s fd" "interest s fd"
    "areactors s r = Some ar" "ar_owner ar = a"
proof -
  obtain a acc where acc: "acceptors s a = Some acc" "acc_fd acc = fd" "acc_reactor acc = Some r"
    using assms unfolding acc_inv_def by blast
  then have "acc_open s a acc" using acc_inv_cases [OF assms(1) acc(1)] by (simp add: acc_closed_def)
  then obtain ar where ar: "areactors s r = Some ar" "ar_owner ar = a" "0 < fd" "kfd s fd"
    using acc by (auto simp: acc_open_def)
  have "interest s fd" using assms by (simp add: acc_inv_def registrations_agree_def)
  with acc ar show ?thesis by (intro that)
qed

lemma fresh_unregistered:
  assumes "acc_inv s" "\<not> kfd s fd"
  shows "io_handlers s fd = None" "\<not> interest s fd"
proof -
  show "io_handlers s fd = None"
  proof (rule ccontr)
    assume "io_handlers s fd \<noteq> None"
    then obtain r where "io_handlers s fd = Some r" by auto
    with registered_open [OF assms(1)] have "kfd s fd" by metis
    with assms(2) show False by simp
  qed
  then show "\<not> interest s fd" using assms(1) by (simp add: acc_inv_def registrations_agree_def)
qed

lemma owner_ch: "areactors s r = Some ar \<Longrightarrow>
    owner (s\<lparr>areactors := (areactors s)(r \<mapsto> ar\<lparr>ar_ch := x\<rparr>)\<rparr>) = owner s"
  by (auto simp: owner_def)

lemma acc_inv_ch: "acc_inv s \<Longrightarrow> areactors s r = Some ar \<Longrightarrow>
    acc_inv (s\<lparr>areactors := (areactors s)(r \<mapsto> ar\<lparr>ar_ch := x\<rparr>)\<rparr>)"
  by (erule acc_inv_frame) (simp_all add: owner_ch)

lemma Handle_dies:
  assumes "areactors s r = Some ar" "ar_ch ar = Some ch" "acceptors s (ar_owner ar) = Some acc" "fcntl_kills answer fre"
  shows "Handle strerror answer fre r s = Inl (Terminated ''fcntl error!'')"
  using assms by (cases answer)
    (simp add: Handle_def DoAsyncAcceptInitiation_def SocketBase_fd_def SetNonBlocking_def fcntl_kills_def Let_def)

lemma Handle_ok:
  assumes inv: "acc_inv s" and reg: "io_handlers s fd = Some r" and fresh: "\<not> kfd s (fst answer)"
    and alive: "\<not> (waiting r s \<and> fcntl_kills answer fre)"
  shows "\<exists>t. Handle strerror answer fre r s = Inr t \<and> acc_inv t"
proof -
  obtain c e where answer: "answer = (c, e)" by (cases answer)
  obtain a acc ar where r: "acceptors s (ar_owner ar) = Some acc" "areactors s r = Some ar"
    using registered_open [OF inv reg] by metis
  show ?thesis
  proof (cases "ar_ch ar")
    case None
    with r inv show ?thesis by (simp add: Handle_idle)
  next
    case (Some ch)
    with r alive answer have fre: "0 \<le> c \<Longrightarrow> fre \<noteq> -1" by (auto simp: waiting_def fcntl_kills_def)
    consider "0 < c" | "c = 0" | "c < 0" "e = EWOULDBLOCK" | "c < 0" "e \<noteq> EWOULDBLOCK" by linarith
    then show ?thesis
    proof cases
      case 1
      let ?t = "sys_close c (sys_close c (EnqueueCompletionHandler (Complete ch (Inr c)) (sys_close c (sys_opens c s))
           \<lparr>areactors := (areactors s)(r \<mapsto> ar\<lparr>ar_ch := None\<rparr>)\<rparr>))"
      have no: "\<not> kfd s c" using fresh answer by simp
      then have "interest s c = False" using fresh_unregistered [OF inv, of c] by simp
      then have "acc_inv ?t"
        using no r(2) by (intro acc_inv_frame [OF inv])
          (auto simp: EnqueueCompletionHandler_def sys_opens_def owner_def fun_upd_idem)
      then show ?thesis
        using Handle_accepts [OF r(2) Some r(1) 1, of fre strerror e] fre 1 answer by simp
    next
      case 2
      then have "Handle strerror answer fre r s = Inr (sys_opens 0 s)"
        using r Some answer fre by (simp add: Handle_def DoAsyncAcceptInitiation_def SocketBase_fd_def
            SetNonBlocking_def init_completed_def IsOpen_def destroy_result_def Let_def)
      moreover have "acc_inv (sys_opens 0 s)"
        by (rule acc_inv_frame [OF inv]) (auto simp: sys_opens_def owner_def)
      ultimately show ?thesis by simp
    next
      case 3
      with Handle_would_block [OF r(2) Some r(1)] inv answer show ?thesis by simp
    next
      case 4
      have "acc_inv (EnqueueCompletionHandler (Complete ch (Inl (strerror e))) s
           \<lparr>areactors := (areactors s)(r \<mapsto> ar\<lparr>ar_ch := None\<rparr>)\<rparr>)"
        using r(2) by (intro acc_inv_frame [OF inv]) (auto simp: EnqueueCompletionHandler_def owner_def)
      with Handle_error [OF r(2) Some r(1) 4] answer show ?thesis by simp
    qed
  qed
qed

lemma Handle_faults:
  assumes inv: "acc_inv s" and reg: "io_handlers s fd = Some r" and "waiting r s" "fcntl_kills answer fre"
  shows "Handle strerror answer fre r s = Inl (Terminated ''fcntl error!'')"
proof -
  obtain a acc ar where r: "acceptors s (ar_owner ar) = Some acc" "areactors s r = Some ar"
    using registered_open [OF inv reg] by metis
  with assms(3) obtain ch where "ar_ch ar = Some ch" by (auto simp: waiting_def)
  from Handle_dies [OF r(2) this r(1) assms(4)] show ?thesis .
qed

lemma AsyncAccept_ok:
  assumes inv: "acc_inv s" and acc: "acceptors s a = Some acc" and fresh: "\<not> kfd s (fst answer)"
  shows "case call_fault (VAccept a ch answer fre) s of
      Some f \<Rightarrow> AsyncAccept strerror answer fre ch a s = Inl f
    | None \<Rightarrow> \<exists>t. AsyncAccept strerror answer fre ch a s = Inr t \<and> acc_inv t"
proof (cases "IsOpen (fd_of a s)")
  case False
  with acc have "acc_closed acc" using acc_inv_cases [OF inv acc] by (auto simp: fd_of_def IsOpen_def acc_open_def)
  with acc False show ?thesis by (simp add: AsyncAccept_def acc_closed_def)
next
  case True
  with acc obtain r ar where r: "acc_reactor acc = Some r" "areactors s r = Some ar"
    "io_handlers s (acc_fd acc) = Some r"
    using acc_inv_cases [OF inv acc] by (auto simp: acc_closed_def acc_open_def fd_of_def IsOpen_def)
  let ?s = "s\<lparr>areactors := (areactors s)(r \<mapsto> ar\<lparr>ar_ch := Some ch\<rparr>)\<rparr>"
  have s: "acc_inv ?s" "io_handlers ?s (acc_fd acc) = Some r" "waiting r ?s" "\<not> kfd ?s (fst answer)"
    using acc_inv_ch [OF inv r(2)] r(3) fresh by (simp_all add: waiting_def)
  have call: "AsyncAccept strerror answer fre ch a s = Handle strerror answer fre r ?s"
    using acc r by (simp add: AsyncAccept_def)
  show ?thesis
    using True Handle_faults [OF s(1-3)] Handle_ok [OF s(1,2,4)] by (simp add: call)
qed

text \<open>Closing and destroying: the acceptor's descriptor is deregistered, then closed.\<close>

lemma acc_inv_close:
  assumes inv: "acc_inv s" and acc: "acceptors s a = Some acc" "acc_open s a acc" and r: "acc_reactor acc = Some r"
    and t: "io_handlers t = (io_handlers s)(acc_fd acc := None)" "interest t = (interest s)(acc_fd acc := False)"
      "kfd t = (kfd s)(acc_fd acc := False)" "areactors t = (areactors s)(r := None)"
      "acceptors t = (acceptors s)(a := x)" and x: "\<And>y. x = Some y \<Longrightarrow> acc_closed y"
  shows "acc_inv t"
proof -
  have open_other: "acc_open t b c"
    if b: "acceptors s b = Some c" "b \<noteq> a" "acc_open s b c" for b c
  proof -
    obtain q where q: "acc_reactor c = Some q" "owner s q = Some b" "io_handlers s (acc_fd c) = Some q" "0 < acc_fd c"
      using b(3) by (auto simp: acc_open_owner)
    have own: "owner s r = Some a" "io_handlers s (acc_fd acc) = Some r"
      using acc(2) r by (auto simp: acc_open_owner)
    with q b(2) have "q \<noteq> r" by auto
    moreover from this q own have "acc_fd c \<noteq> acc_fd acc" by auto
    ultimately show ?thesis
      using q b(3) t by (auto simp: acc_open_owner owner_def)
  qed
  have "registrations_agree t"
    using inv t(1,2) by (auto simp: acc_inv_def registrations_agree_def)
  moreover have "acc_closed c \<or> acc_open t b c" if "acceptors t b = Some c" for b c
    using that t(5) x acc_inv_cases [OF inv, of b c] open_other [of b c] by (cases "b = a") auto
  moreover have "\<exists>b c. acceptors t b = Some c \<and> acc_fd c = fd \<and> acc_reactor c = Some q"
    if "io_handlers t fd = Some q" for fd q
  proof -
    from that t(1) have fd: "io_handlers s fd = Some q" "fd \<noteq> acc_fd acc" by (auto split: if_splits)
    then obtain b c where b: "acceptors s b = Some c" "acc_fd c = fd" "acc_reactor c = Some q"
      using inv unfolding acc_inv_def by blast
    with fd(2) acc(1) have "b \<noteq> a" by auto
    with b t(5) show ?thesis by auto
  qed
  ultimately show ?thesis unfolding acc_inv_def by blast
qed

lemma DoCloseSuper_open:
  assumes "acc_inv s" "acceptors s a = Some acc" "acc_open s a acc" "acc_reactor acc = Some r"
  shows "DoCloseSuper (ctl_del_answer (acc_fd acc) s) acc s =
    Inr (acc\<lparr>acc_reactor := None\<rparr>, s\<lparr>interest := (interest s)(acc_fd acc := False),
       io_handlers := (io_handlers s)(acc_fd acc := None), areactors := (areactors s)(r := None)\<rparr>)"
  using assms by (auto simp: DoCloseSuper_def acc_open_def IsOpen_def DeregisterEventHandler_def
      ctl_del_answer_def acc_inv_def registrations_agree_def Let_def)

lemma DoCloseSuper_closed: "acc_closed acc \<Longrightarrow> DoCloseSuper ctl acc s = Inr (acc, s)"
  by (simp add: DoCloseSuper_def acc_closed_def IsOpen_def)

lemma Close_ok:
  assumes inv: "acc_inv s" and acc: "acceptors s a = Some acc"
  shows "\<exists>t. Acceptor_Close (ctl_del_answer (fd_of a s) s) a s = Inr t \<and> acc_inv t"
    "\<exists>t. Acceptor_destroy (ctl_del_answer (fd_of a s) s) a s = Inr t \<and> acc_inv t"
proof -
  consider "acc_closed acc" | r where "acc_open s a acc" "acc_reactor acc = Some r"
    using acc_inv_cases [OF inv acc] by (auto simp: acc_open_def)
  then show "\<exists>t. Acceptor_Close (ctl_del_answer (fd_of a s) s) a s = Inr t \<and> acc_inv t"
  proof cases
    case 1
    then have same: "(acceptors s)(a \<mapsto> acc\<lparr>acc_fd := -1\<rparr>) = acceptors s"
      using acc by (auto simp: acc_closed_def)
    have "acc_inv (s\<lparr>acceptors := (acceptors s)(a \<mapsto> acc\<lparr>acc_fd := -1\<rparr>)\<rparr>)"
      using inv by (simp only: same) (erule acc_inv_frame, auto simp: owner_def)
    with 1 acc show ?thesis
      by (simp add: Acceptor_Close_def DoCloseSuper_closed) (simp add: DoClose_def IsOpen_def acc_closed_def)
  next
    case 2
    then show ?thesis
      using acc DoCloseSuper_open [OF inv acc 2]
      by (simp add: Acceptor_Close_def fd_of_def DoClose_def IsOpen_def acc_open_def)
        (rule acc_inv_close [OF inv acc 2], simp_all add: acc_closed_def, auto)
  qed
  consider "acc_closed acc" | r where "acc_open s a acc" "acc_reactor acc = Some r"
    using acc_inv_cases [OF inv acc] by (auto simp: acc_open_def)
  then show "\<exists>t. Acceptor_destroy (ctl_del_answer (fd_of a s) s) a s = Inr t \<and> acc_inv t"
  proof cases
    case 1
    let ?t = "s\<lparr>acceptors := (acceptors s)(a := None)\<rparr>"
    have "acceptors ?t b = Some c \<Longrightarrow> acc_closed c \<or> acc_open ?t b c" for b c
      using acc_inv_cases [OF inv, of b c] by (auto simp: acc_open_owner owner_def split: if_splits)
    moreover have "\<exists>b c. acceptors ?t b = Some c \<and> acc_fd c = fd \<and> acc_reactor c = Some q"
      if q: "io_handlers s fd = Some q" for fd q
    proof -
      obtain b c where b: "acceptors s b = Some c" "acc_fd c = fd" "acc_reactor c = Some q"
        using inv q unfolding acc_inv_def by blast
      with 1 acc have "b \<noteq> a" by (auto simp: acc_closed_def)
      with b show ?thesis by auto
    qed
    moreover have "registrations_agree ?t" using inv by (simp add: acc_inv_def registrations_agree_def)
    ultimately have "acc_inv ?t" unfolding acc_inv_def by simp
    with 1 acc show ?thesis
      by (simp add: Acceptor_destroy_def DoCloseSuper_closed) (simp add: acc_closed_def)
  next
    case 2
    then show ?thesis
      using acc DoCloseSuper_open [OF inv acc 2]
      by (simp add: Acceptor_destroy_def fd_of_def acc_open_def)
        (rule acc_inv_close [OF inv acc 2], simp_all, auto)
  qed
qed

text \<open>Construction: on every failing answer the exception leaves the invariant, and a failed
  \<^verbatim>\<open>fcntl\<close> or a descriptor 0 leaves the socket open.\<close>

lemma acc_inv_opened:
  assumes "acc_inv s" "\<not> kfd s fd"
  shows "acc_inv (sys_opens fd s)" "acc_inv (SocketBase_destroy fd (sys_opens fd s))"
proof -
  show opened: "acc_inv (sys_opens fd s)"
    by (rule acc_inv_frame [OF assms(1)]) (auto simp: sys_opens_def owner_def)
  have "interest s fd = False" using fresh_unregistered [OF assms] by simp
  then show "acc_inv (SocketBase_destroy fd (sys_opens fd s))"
    using opened assms(2)
    by (cases "0 < fd") (auto intro!: acc_inv_frame [OF assms(1)] simp: sys_opens_def owner_def fun_upd_idem)
qed

lemma Acceptor_ok:
  assumes inv: "acc_inv s" and sock: "0 \<le> ans_socket ans" "\<not> kfd s (ans_socket ans)"
    and ep: "ans_fcntl ans = -1 \<or> \<not> IsOpen (ans_socket ans) \<or> ep = Some p"
    and new: "acceptors s a = None" "areactors s r = None" and ctl: "ans_ctl ans = ctl_add_answer (ans_socket ans) s"
  shows "\<exists>e t. Acceptor ans ep a r s = Inr (e, t) \<and> acc_inv t
    \<and> (e = None \<longrightarrow> fd_of a t = ans_socket ans)"
proof -
  let ?fd = "ans_socket ans"
  note opened = acc_inv_opened [OF inv sock(2)]
  note free = fresh_unregistered [OF inv sock(2)]
  show ?thesis
  proof (cases "ans_fcntl ans = -1 \<or> ?fd = 0 \<or> ans_bind ans < 0 \<or> ans_listen ans < 0")
    case True
    then show ?thesis
      using sock opened ep
      by (auto simp: Acceptor_def SocketBase_default_def SocketBase_Create_def SetNonBlocking_def IsOpen_def port_def)
  next
    case False
    let ?t = "(sys_opens ?fd s)\<lparr>areactors := (areactors s)(r \<mapsto> \<lparr>ar_owner = a, ar_ch = None\<rparr>),
      interest := (interest s)(?fd := True), io_handlers := (io_handlers s)(?fd \<mapsto> r),
      acceptors := (acceptors s)(a \<mapsto> \<lparr>acc_fd = ?fd, acc_reactor = Some r\<rparr>)\<rparr>"
    have "Acceptor ans ep a r s = Inr (None, ?t)"
      using False sock free ctl ep
      by (simp add: Acceptor_def SocketBase_default_def SocketBase_Create_def SetNonBlocking_def IsOpen_def
          port_def RegisterEventHandler_def ctl_add_answer_def sys_opens_def Let_def)
    moreover have "acc_inv ?t"
    proof -
      have "acc_closed c \<or> acc_open ?t b c" if b: "acceptors ?t b = Some c" for b c
      proof (cases "b = a")
        case True
        with b False sock show ?thesis by (auto simp: acc_open_def sys_opens_def)
      next
        case neq: False
        with b have "acc_closed c \<or> acc_open s b c" using acc_inv_cases [OF inv, of b c] by simp
        then show ?thesis
        proof
          assume op: "acc_open s b c"
          then have "acc_fd c \<noteq> ?fd" using sock(2) by (auto simp: acc_open_def)
          moreover from op new(2) have "acc_reactor c \<noteq> Some r" by (auto simp: acc_open_def)
          ultimately show ?thesis using op by (auto simp: acc_open_owner owner_def sys_opens_def)
        qed simp
      qed
      moreover have "\<exists>b c. acceptors ?t b = Some c \<and> acc_fd c = fd \<and> acc_reactor c = Some q"
        if q: "io_handlers ?t fd = Some q" for fd q
      proof (cases "fd = ?fd")
        case True
        with q show ?thesis by auto
      next
        case neq: False
        with q have "io_handlers s fd = Some q" by simp
        then obtain b c where b: "acceptors s b = Some c" "acc_fd c = fd" "acc_reactor c = Some q"
          using inv unfolding acc_inv_def by blast
        with new(1) have "b \<noteq> a" by auto
        with b show ?thesis by auto
      qed
      moreover have "registrations_agree ?t"
        using inv by (auto simp: acc_inv_def registrations_agree_def)
      ultimately show ?thesis unfolding acc_inv_def by blast
    qed
    ultimately show ?thesis by (simp add: fd_of_def)
  qed
qed

lemma Acceptor_faults:
  assumes "call_fault (VConstruct ans ep a r) s = Some f"
  shows "Acceptor (ans\<lparr>ans_ctl := x\<rparr>) ep a r s = Inl f"
  using assms by (auto simp: Acceptor_def SocketBase_default_def SocketBase_Create_def SetNonBlocking_def port_def
      split: if_splits)

lemma v0_step_checked:
  assumes inv: "acc_inv s" and pre: "v0_pre x s"
  shows "case call_fault x s of Some f \<Rightarrow> v0_step strerror x s = Inl f
    | None \<Rightarrow> \<exists>t. v0_step strerror x s = Inr t \<and> acc_inv t"
proof (cases x)
  case (VConstruct ans ep a r)
  show ?thesis
  proof (cases "call_fault x s")
    case None
    with VConstruct obtain p where "ans_fcntl ans = -1 \<or> \<not> IsOpen (ans_socket ans) \<or> ep = Some p" "0 \<le> ans_socket ans"
      by (cases ep) (auto split: if_splits)
    with Acceptor_ok [OF inv, of "ans\<lparr>ans_ctl := ctl_add_answer (ans_socket ans) s\<rparr>" ep p a r] pre VConstruct None
    show ?thesis by auto
  next
    case (Some f)
    with Acceptor_faults [of ans ep a r s f] VConstruct show ?thesis by (simp del: call_fault.simps)
  qed
next
  case (VAccept a ch answer fre)
  with pre obtain acc where "acceptors s a = Some acc" "\<not> kfd s (fst answer)" by auto
  from AsyncAccept_ok [OF inv this, where strerror = strerror and fre = fre and ch = ch] show ?thesis
    unfolding VAccept v0_step.simps .
next
  case (VEvent r answer fre)
  with pre obtain fd where fd: "io_handlers s fd = Some r" "\<not> kfd s (fst answer)" by auto
  with Handle_ok [OF inv fd] Handle_faults [OF inv fd(1)] VEvent show ?thesis by simp
next
  case (VClose a)
  with Close_ok(1) [OF inv] pre show ?thesis by auto
next
  case (VDestroy a)
  with Close_ok(2) [OF inv] pre show ?thesis by auto
qed

interpretation v0_calls: checked_machine "v0_step strerror" v0_pre acc_inv call_fault for strerror
  by unfold_locales (rule v0_step_checked)

text \<open>A round of the completions: the closes after the handler find the number closed.\<close>

lemma acc_inv_stale_close: "acc_inv s \<Longrightarrow> \<not> kfd s fd \<Longrightarrow> acc_inv (SocketBase_destroy fd s)"
proof (cases "0 < fd")
  case True
  assume inv: "acc_inv s" and no: "\<not> kfd s fd"
  have "acc_inv (sys_close fd s)"
    by (rule acc_inv_frame [OF inv]) (use no fresh_unregistered [OF inv no] in \<open>auto simp: owner_def fun_upd_idem\<close>)
  with True show ?thesis by simp
qed simp

lemma kfd_stale_close: "\<not> kfd s fd \<Longrightarrow> \<not> kfd (SocketBase_destroy fd s) fd"
  by (cases "0 < fd") simp_all

lemma stale_results:
  assumes "acc_inv s" "stays_closed re s"
  shows "acc_inv (destroy_result re (destroy_result re (destroy_result re s)))"
  using assms by (cases re) (simp_all add: destroy_result_def stays_closed_def acc_inv_stale_close kfd_stale_close)

lemma acc_inv_queue [simp]:
  "acc_inv (s\<lparr>completions := q\<rparr>) = acc_inv s" "acc_inv (s\<lparr>io_ran := l\<rparr>) = acc_inv s" "acc_inv (s\<lparr>handled := h\<rparr>) = acc_inv s"
  by (simp_all add: acc_inv_def registrations_agree_def acc_open_owner owner_def)

lemma run_turn:
  assumes "completions s = Some op # later"
  shows "v0_turn_step strerror (RunCompletion cs) s =
    bind_res (run_ops (v0_step strerror) cs (handler_state op later s)) (\<lambda>t.
      Inr ((\<lambda>u. u\<lparr>completions := tl (completions u)\<rparr>)
        (destroy_result (done_result op) (destroy_result (done_result op) (destroy_result (done_result op) t)))))"
proof -
  have start: "(take_front op later s)\<lparr>handled := handled (take_front op later s) @ [(done_ch op, done_result op,
      case done_result op of Inl _ \<Rightarrow> False | Inr fd \<Rightarrow> kfd (take_front op later s) fd)]\<rparr> = handler_state op later s"
    by (simp add: handler_state_def Let_def)
  show ?thesis
    using assms by (simp add: run_accept_completion_def Let_def start bind_res_assoc del: run_ops.simps)
qed

text \<open>A call only appends to the queue.\<close>

definition appended :: "'z v0_scheme \<Rightarrow> 'z v0_scheme \<Rightarrow> bool" where
  "appended s t \<longleftrightarrow> (\<exists>new. completions t = completions s @ new \<and> None \<notin> set new)"

lemma appended_refl: "completions t = completions s \<Longrightarrow> appended s t"
  by (simp add: appended_def)

lemma appended_trans [trans]: "appended s t \<Longrightarrow> appended t u \<Longrightarrow> appended s u"
  unfolding appended_def by (metis Un_iff append.assoc set_append)

lemma appended_cong: "completions s' = completions s \<Longrightarrow> appended s' t \<longleftrightarrow> appended s t"
  by (simp add: appended_def)

lemma queue_frame [simp]:
  "completions (sys_opens fd s) = completions s" "completions (SocketBase_destroy fd s) = completions s"
  "completions (destroy_result re s) = completions s" "completions (snd (DoClose fd s)) = completions s"
  by (simp_all add: sys_opens_def SocketBase_destroy_def DoClose_def destroy_result_def split: sum.split)

lemma Handle_appends: "Handle strerror answer fre r s = Inr t \<Longrightarrow> appended s t"
  by (auto simp: Handle_def DoAsyncAcceptInitiation_def Let_def EnqueueCompletionHandler_def appended_def
      bind_res_Inr_iff split: option.splits prod.splits if_splits sum.splits)

lemma DoClose_queue: "DoClose fd s = (fd', t) \<Longrightarrow> completions t = completions s"
  using queue_frame(4) [of fd s] by simp

lemma v0_step_appends:
  assumes "v0_step strerror x s = Inr t"
  shows "appended s t"
proof (cases x)
  case (VConstruct ans ep a r)
  with assms have "completions t = completions s"
    by (auto simp: Acceptor_def SocketBase_default_def SocketBase_Create_def SetNonBlocking_def port_def
        RegisterEventHandler_def Let_def bind_res_Inr_iff split: if_splits option.splits sum.splits prod.splits)
  then show ?thesis by (rule appended_refl)
next
  case (VAccept a ch answer fre)
  with assms obtain r ar where
    "Handle strerror answer fre r (s\<lparr>areactors := (areactors s)(r \<mapsto> ar\<lparr>ar_ch := Some ch\<rparr>)\<rparr>) = Inr t"
    by (auto simp: AsyncAccept_def split: option.splits)
  from Handle_appends [OF this] show ?thesis by (simp add: appended_def)
next
  case (VEvent r answer fre)
  with assms Handle_appends show ?thesis by simp
next
  case (VClose a)
  with assms have "completions t = completions s"
    by (auto simp: Acceptor_Close_def DoCloseSuper_def DeregisterEventHandler_def Let_def bind_res_Inr_iff
        split: option.splits if_splits prod.splits dest!: DoClose_queue)
  then show ?thesis by (rule appended_refl)
next
  case (VDestroy a)
  with assms have "completions t = completions s"
    by (auto simp: Acceptor_destroy_def DoCloseSuper_def DeregisterEventHandler_def Let_def bind_res_Inr_iff
        split: option.splits if_splits prod.splits)
  then show ?thesis by (rule appended_refl)
qed

lemma v0_calls_append: "run_ops (v0_step strerror) cs s = Inr t \<Longrightarrow> appended s t"
proof (induction cs arbitrary: s)
  case Nil
  then show ?case by (simp add: appended_refl)
next
  case (Cons c cs)
  then obtain u where "v0_step strerror c s = Inr u" "run_ops (v0_step strerror) cs u = Inr t"
    by (auto simp: bind_res_Inr_iff)
  with Cons.IH v0_step_appends appended_trans show ?case by metis
qed

definition turn_inv :: "'z v0_scheme \<Rightarrow> bool" where
  "turn_inv s \<longleftrightarrow> acc_inv s \<and> None \<notin> set (completions s)"

lemma acc_inv_handler_state [simp]: "acc_inv (handler_state op later s) = acc_inv s"
  by (simp add: handler_state_def take_front_def Let_def)

lemma turn_checked:
  assumes inv: "turn_inv s" and pre: "turn_pre strerror x s"
  shows "case turn_fault strerror x s of Some f \<Rightarrow> v0_turn_step strerror x s = Inl f
    | None \<Rightarrow> \<exists>t. v0_turn_step strerror x s = Inr t \<and> turn_inv t"
proof (cases x)
  case (Call c)
  have "turn_inv t" if "v0_step strerror c s = Inr t" "acc_inv t" for t
    using v0_step_appends [OF that(1)] that(2) inv by (auto simp: turn_inv_def appended_def)
  with v0_step_checked [of s c strerror] inv pre Call show ?thesis
    by (auto simp: turn_inv_def split: option.splits)
next
  case (RunCompletion cs)
  show ?thesis
  proof (cases "completions s")
    case Nil
    with RunCompletion inv show ?thesis by simp
  next
    case (Cons q later)
    with inv obtain op where q: "q = Some op" "None \<notin> set later" "acc_inv s" by (cases q) (auto simp: turn_inv_def)
    let ?s = "handler_state op later s"
    have pre': "admissible v0_pre (v0_step strerror) cs ?s"
      "\<And>t. run_ops (v0_step strerror) cs ?s = Inr t \<Longrightarrow> stays_closed (done_result op) t"
      using pre RunCompletion Cons q by auto
    have run: "case first_fault call_fault (v0_step strerror) cs ?s of
        Some f \<Rightarrow> run_ops (v0_step strerror) cs ?s = Inl f
      | None \<Rightarrow> \<exists>t. run_ops (v0_step strerror) cs ?s = Inr t \<and> acc_inv t"
      using v0_calls.run_checked [OF _ pre'(1)] q(3) by simp
    have turn: "v0_turn_step strerror x s = bind_res (run_ops (v0_step strerror) cs ?s) (\<lambda>t.
        Inr ((\<lambda>u. u\<lparr>completions := tl (completions u)\<rparr>)
          (destroy_result (done_result op) (destroy_result (done_result op) (destroy_result (done_result op) t)))))"
      using run_turn [of s op later strerror cs] Cons q(1) RunCompletion by simp
    show ?thesis
    proof (cases "first_fault call_fault (v0_step strerror) cs ?s")
      case (Some f)
      with run turn have "v0_turn_step strerror x s = Inl f" by simp
      with Some Cons q(1) RunCompletion show ?thesis by simp
    next
      case None
      with run obtain t where t: "run_ops (v0_step strerror) cs ?s = Inr t" "acc_inv t" by auto
      from v0_calls_append [OF t(1)] have "None \<notin> set (tl (completions t))"
        using q(2) by (auto simp: appended_def handler_state_def take_front_def Let_def)
      with stale_results [OF t(2) pre'(2) [OF t(1)]] have "turn_inv ((\<lambda>u. u\<lparr>completions := tl (completions u)\<rparr>)
          (destroy_result (done_result op) (destroy_result (done_result op) (destroy_result (done_result op) t))))"
        by (simp add: turn_inv_def)
      with turn t(1) None Cons q(1) RunCompletion show ?thesis by simp
    qed
  qed
qed

interpretation v0_machine: checked_machine "v0_turn_step strerror" "turn_pre strerror" turn_inv "turn_fault strerror"
  for strerror
  by unfold_locales (rule turn_checked)


lemmas v0_defs = new_v0_def Acceptor_def SocketBase_default_def SocketBase_Create_def SetNonBlocking_def
  IsOpen_def port_def RegisterEventHandler_def ctl_add_answer_def sys_opens_def Let_def fd_of_def
  AsyncAccept_def Handle_def DoAsyncAcceptInitiation_def EWOULDBLOCK_def SocketBase_fd_def init_completed_def
  destroy_result_def EnqueueCompletionHandler_def Acceptor_Close_def DoCloseSuper_def DeregisterEventHandler_def
  ctl_del_answer_def DoClose_def Acceptor_destroy_def handler_state_def take_front_def stays_closed_def
  run_accept_completion_def fcntl_kills_def waiting_def

text \<open>An acceptor serves a connection, accepts again from the handler, is closed, and is then asked once
  more; the endpoint here has a port.\<close>

definition v0_sample :: "v0_turn list" where
  "v0_sample = [Call (VConstruct \<lparr>ans_socket = 4, ans_fcntl = 0, ans_bind = 0, ans_listen = 0, ans_ctl = 0\<rparr> (Some 80) 0 0),
     Call (VAccept 0 9 (-1, 11) 0), Call (VEvent 0 (5, 0) 0), RunCompletion [VAccept 0 9 (-1, 11) 0],
     Call (VClose 0), Call (VAccept 0 9 (-1, 11) 0)]"


text \<open>Without the ports of \<^verbatim>\<open>Endpoint\<close> no acceptor is constructed without undefined behaviour.\<close>

lemma Acceptor_of_Endpoint:
  assumes "0 < ans_socket ans" "ans_fcntl ans \<noteq> -1"
  shows "Acceptor ans (Endpoint host p) a r s = Inl (Undefined ''read of an indeterminate value'')"
  using assms by (simp add: Acceptor_def Endpoint_def SocketBase_default_def SocketBase_Create_def
      SetNonBlocking_def IsOpen_def port_def)

section \<open>Connector\<close>

text \<open>
  The reactor is allocated by the member initialiser, before the checks of the body. The branch of
  \<^verbatim>\<open>ConnectorReactor::Handle\<close> for \<^verbatim>\<open>EPOLLOUT\<close> names an undeclared variable and
  \<^verbatim>\<open>DoAsyncConnectInitiation\<close> has no body to speak of: neither compiles, and they are a parameter
  (\<open>on_writable\<close>) here.
\<close>

definition Connector :: "acceptor_answers \<Rightarrow> nat \<Rightarrow> nat \<Rightarrow> 'z v0_scheme \<Rightarrow> fault + (string option \<times> 'z v0_scheme)" where
  "Connector ans c r s =
     bind_res (SocketBase_default (ans_socket ans) (ans_fcntl ans) s) (\<lambda>(re, s).
       case re of
         Inl e \<Rightarrow> Inr (Some e, s)
       | Inr fd \<Rightarrow>
           let s = s\<lparr>creactors := (creactors s)(r \<mapsto> \<lparr>cr_endpoint = None, cr_ch = None\<rparr>)\<rparr>
           in if \<not> IsOpen fd then Inr (Some ''failed to open connector'', SocketBase_destroy fd s)
              else
                let (re, s) = RegisterEventHandler (ans_ctl ans) fd r s
                in case re of
                     Inl e \<Rightarrow> Inr (Some e, SocketBase_destroy fd s)
                   | Inr _ \<Rightarrow> Inr (None, s\<lparr>connectors := (connectors s)(c \<mapsto> \<lparr>con_fd = fd, con_reactor = Some r\<rparr>)\<rparr>))"

definition Connector_Handle :: "(nat \<Rightarrow> 'z v0_scheme \<Rightarrow> fault + 'z v0_scheme) \<Rightarrow> 32 word \<Rightarrow> nat \<Rightarrow> 'z v0_scheme \<Rightarrow> fault + 'z v0_scheme" where
  "Connector_Handle on_writable events r s =
     (case creactors s r of
        None \<Rightarrow> Inl (Undefined ''use of a deleted object'')
      | Some cr \<Rightarrow>
          if cr_ch cr = None then Inr s
          else if and events EPOLLOUT \<noteq> 0 then on_writable r s
          else Inr s)"

definition AsyncConnect ::
    "(nat \<Rightarrow> 'z v0_scheme \<Rightarrow> fault + 'z v0_scheme) \<Rightarrow> 32 word option \<Rightarrow> nat \<Rightarrow> nat \<Rightarrow> 'z v0_scheme \<Rightarrow> fault + 'z v0_scheme" where
  "AsyncConnect on_writable ep ch c s =
     (case connectors s c of
        None \<Rightarrow> Inl (Undefined ''use of a destroyed object'')
      | Some con \<Rightarrow>
          (case con_reactor con of
             None \<Rightarrow> Inl (Undefined ''null pointer'')
           | Some r \<Rightarrow>
               (case creactors s r of
                  None \<Rightarrow> Inl (Undefined ''use of a deleted object'')
                | Some cr \<Rightarrow>
                    Connector_Handle on_writable 0 r
                      (s\<lparr>creactors := (creactors s)(r \<mapsto> \<lparr>cr_endpoint = Some ep, cr_ch = Some ch\<rparr>)\<rparr>))))"

definition Connector_DoCloseSuper :: "int \<Rightarrow> connector \<Rightarrow> 'z v0_scheme \<Rightarrow> fault + (connector \<times> 'z v0_scheme)" where
  "Connector_DoCloseSuper ctl con s =
     (if \<not> IsOpen (con_fd con) then Inr (con, s)
      else case con_reactor con of
             None \<Rightarrow> Inl (Undefined ''null pointer'')
           | Some r \<Rightarrow>
               let s = snd (DeregisterEventHandler ctl (con_fd con) s)
               in Inr (con\<lparr>con_reactor := None\<rparr>, s\<lparr>creactors := (creactors s)(r := None)\<rparr>))"

definition Connector_Close :: "int \<Rightarrow> nat \<Rightarrow> 'z v0_scheme \<Rightarrow> fault + 'z v0_scheme" where
  "Connector_Close ctl c s =
     (case connectors s c of
        None \<Rightarrow> Inl (Undefined ''use of a destroyed object'')
      | Some con \<Rightarrow>
          bind_res (Connector_DoCloseSuper ctl con s) (\<lambda>(con, s).
            let (fd, s) = DoClose (con_fd con) s
            in Inr (s\<lparr>connectors := (connectors s)(c \<mapsto> con\<lparr>con_fd := fd\<rparr>)\<rparr>)))"

definition Connector_destroy :: "int \<Rightarrow> nat \<Rightarrow> 'z v0_scheme \<Rightarrow> fault + 'z v0_scheme" where
  "Connector_destroy ctl c s =
     (case connectors s c of
        None \<Rightarrow> Inl (Undefined ''use of a destroyed object'')
      | Some con \<Rightarrow>
          bind_res (Connector_DoCloseSuper ctl con s) (\<lambda>(con, s).
            let s = SocketBase_destroy (con_fd con) s
            in Inr (s\<lparr>connectors := (connectors s)(c := None)\<rparr>)))"

text \<open>\<^verbatim>\<open>AsyncConnect\<close> makes no system call and completes nothing: the event it dispatches has no
  bit set. Nothing but an \<^verbatim>\<open>EPOLLOUT\<close> event ever reaches the handler.\<close>

lemma AsyncConnect_only_stores:
  assumes "connectors s c = Some con" "con_reactor con = Some r" "creactors s r = Some cr"
  shows "AsyncConnect on_writable ep ch c s =
    Inr (s\<lparr>creactors := (creactors s)(r \<mapsto> \<lparr>cr_endpoint = Some ep, cr_ch = Some ch\<rparr>)\<rparr>)"
  using assms by (simp add: AsyncConnect_def Connector_Handle_def)

lemma Connector_Handle_without_EPOLLOUT:
  assumes "creactors s r = Some cr" "and events EPOLLOUT = 0"
  shows "Connector_Handle on_writable events r s = Inr s"
  using assms by (simp add: Connector_Handle_def)

text \<open>A connector closed once can be closed again and destroyed; connecting on it dereferences null.\<close>

lemma Connector_Close_idempotent:
  assumes "connectors s c = Some con" "0 < con_fd con" "con_reactor con = Some r"
  shows "\<exists>t. Connector_Close ctl c s = Inr t \<and> Connector_Close ctl' c t = Inr t
    \<and> close_log t = close_log s @ [con_fd con] \<and> creactors t = (creactors s)(r := None)
    \<and> AsyncConnect on_writable ep ch c t = Inl (Undefined ''null pointer'')"
  using assms
  by (auto simp: Connector_Close_def Connector_DoCloseSuper_def DoClose_def IsOpen_def DeregisterEventHandler_def
      sys_close_def kernel_closes_def AsyncConnect_def Let_def)

end
