(* ===== verification/V0_Stream.thy ===== *)
theory V0_Stream
  imports V0_Acceptor
begin

text \<open>
  \<^verbatim>\<open>src/minaio/v0\<close>: the asynchronous operations of \<^verbatim>\<open>StreamSocket\<close>, whose bodies only print a trace
  line, and the forwarding functions of the event handlers and sockets.
\<close>

section \<open>Forwarding functions\<close>

definition EventHandler_Register ::
    "int \<Rightarrow> int \<Rightarrow> nat \<Rightarrow> ('op, 'z) io_context_scheme \<Rightarrow> (string + int) \<times> ('op, 'z) io_context_scheme" where
  "EventHandler_Register answer fd this io_ctx = RegisterEventHandler answer fd this io_ctx"

definition EventHandler_Deregister ::
    "int \<Rightarrow> int \<Rightarrow> ('op, 'z) io_context_scheme \<Rightarrow> (string + int) \<times> ('op, 'z) io_context_scheme" where
  "EventHandler_Deregister answer fd io_ctx = DeregisterEventHandler answer fd io_ctx"

definition Descriptor :: "int \<Rightarrow> int" where "Descriptor fd = fd"

definition SocketBase_Close :: "int \<Rightarrow> v0 \<Rightarrow> int \<times> v0" where "SocketBase_Close fd s = DoClose fd s"

definition AcceptorReactor_Destroy :: "nat \<Rightarrow> v0 \<Rightarrow> v0" where
  "AcceptorReactor_Destroy r s = s\<lparr>areactors := (areactors s)(r := None)\<rparr>"

section \<open>StreamSocket\<close>

text \<open>Both take the buffer's length and a completion handler, and drop them.\<close>

definition AsyncRead :: "nat \<Rightarrow> nat \<Rightarrow> v0 \<Rightarrow> v0" where
  "AsyncRead max_size ch s = s"

definition AsyncWrite :: "string \<Rightarrow> nat \<Rightarrow> v0 \<Rightarrow> v0" where
  "AsyncWrite data ch s = s"

text \<open>No completion is ever enqueued for them, so their handlers are never called.\<close>

lemma stream_never_completes:
  "completions (AsyncRead n ch s) = completions s" "completions (AsyncWrite data ch s) = completions s"
  by (simp_all add: AsyncRead_def AsyncWrite_def)

text \<open>The only socket a stream can be made of is one accepted, whose constructor checks the
  descriptor; a socket that is closed stays closed.\<close>

lemma SocketBase_Close_closes:
  assumes "SocketBase_Close fd s = (fd', s')"
  shows "\<not> IsOpen (Descriptor fd')" "SocketBase_Close fd' s' = (fd', s')"
  using assms by (auto simp: SocketBase_Close_def DoClose_def Descriptor_def IsOpen_def split: if_splits)

end
