(* ===== verification/V0_Server.thy ===== *)
theory V0_Server
  imports V0_Acceptor
begin

text \<open>
  \<^verbatim>\<open>src/minaio/v0/unittests/test_acceptor.cpp\<close>: the server of the test, on the acceptor and the event
  loop together. The state is the one of \<open>V0_Acceptor\<close> with the server's counter and the answers the
  kernel will give to \<^verbatim>\<open>accept\<close> (its result and \<^verbatim>\<open>errno\<close>, and the result of \<^verbatim>\<open>fcntl\<close> on the new
  descriptor); when they are used up nobody is waiting for a connection. The handler of the test takes
  a \<^verbatim>\<open>Result<StreamSocket, std::string>\<close>, which the result the acceptor stores does not convert to; it
  is taken here at the acceptor's own type. What it prints is left out. The endpoint is an argument: the
  constructor of \<^verbatim>\<open>Endpoint\<close> loses the port the test asks for, so that the server the test builds never gets past the
  constructor of its acceptor; \<open>start_fault\<close> says how the start can fail, for that endpoint and for one with a port.
\<close>

section \<open>The server\<close>

record server = v0 +
  arrivals :: "((int \<times> int) \<times> int) list"
  accepted :: int

definition exited :: fault where "exited = Terminated ''exit(0)''"

text \<open>\<^verbatim>\<open>fcntl\<close> failing on an accepted descriptor throws in a \<^verbatim>\<open>noexcept\<close> function.\<close>

definition died :: fault where "died = Terminated ''fcntl error!''"

definition next_arrival :: "server \<Rightarrow> (int \<times> int) \<times> int" where
  "next_arrival s = (case arrivals s of [] \<Rightarrow> ((-1, EWOULDBLOCK), 0) | x # _ \<Rightarrow> x)"

definition use_arrival :: "server \<Rightarrow> server" where
  "use_arrival s = s\<lparr>arrivals := tl (arrivals s)\<rparr>"

definition is_pending :: "nat \<Rightarrow> server \<Rightarrow> bool" where
  "is_pending r s \<longleftrightarrow> (case areactors s r of None \<Rightarrow> False | Some ar \<Rightarrow> ar_ch ar \<noteq> None)"

text \<open>What the event loop calls for an event: \<^verbatim>\<open>accept\<close> is asked only when an operation is pending.\<close>

definition server_Handle :: "(int \<Rightarrow> string) \<Rightarrow> nat \<Rightarrow> epoll_event \<Rightarrow> server \<Rightarrow> fault + server" where
  "server_Handle strerror r e s =
     (let (answer, fre) = next_arrival s
      in Handle strerror answer fre r (if is_pending r s then use_arrival s else s))"

text \<open>The acceptor is the object 0; the handler is the closure 0, the only one there is.\<close>

definition Server_DoAccept :: "(int \<Rightarrow> string) \<Rightarrow> server \<Rightarrow> fault + server" where
  "Server_DoAccept strerror s =
     (let (answer, fre) = next_arrival s in AsyncAccept strerror answer fre 0 0 (use_arrival s))"

definition Server_handler :: "(int \<Rightarrow> string) \<Rightarrow> nat \<Rightarrow> string + int \<Rightarrow> server \<Rightarrow> fault + server" where
  "Server_handler strerror ch re s =
     (case re of
        Inl e \<Rightarrow> Inr s
      | Inr fd \<Rightarrow>
          let s = s\<lparr>accepted := accepted s + 1\<rparr>
          in if accepted s = 5 then Inl exited else Server_DoAccept strerror s)"

definition new_server :: "((int \<times> int) \<times> int) list \<Rightarrow> server" where
  "new_server xs = v0.extend new_v0 \<lparr>arrivals = xs, accepted = 0\<rparr>"

definition server_construct ::
    "(int \<Rightarrow> string) \<Rightarrow> acceptor_answers \<Rightarrow> 32 word option \<Rightarrow> nat \<Rightarrow> server \<Rightarrow> fault + (string option \<times> server)" where
  "server_construct strerror ans ep r s =
     bind_res (Acceptor ans ep 0 r s) (\<lambda>(e, s).
       case e of Some e \<Rightarrow> Inr (Some e, s) | None \<Rightarrow> bind_res (Server_DoAccept strerror s) (\<lambda>s. Inr (None, s)))"

text \<open>One turn of \<^verbatim>\<open>for (;;) io_ctx.Poll();\<close>, with the answers of \<^verbatim>\<open>epoll_wait\<close>.\<close>

definition server_Poll ::
    "(int \<Rightarrow> string) \<Rightarrow> (int \<times> epoll_event list) list \<Rightarrow> server \<Rightarrow> (fault + server) option" where
  "server_Poll strerror = io_Poll (run_accept_completion (Server_handler strerror)) (server_Handle strerror)"

fun server_loop ::
    "(int \<Rightarrow> string) \<Rightarrow> (int \<times> epoll_event list) list list \<Rightarrow> server \<Rightarrow> (fault + server) option" where
  "server_loop strerror [] s = Some (Inr s)"
| "server_loop strerror (ws # polls) s =
     (case server_Poll strerror ws s of
        None \<Rightarrow> None
      | Some (Inl f) \<Rightarrow> Some (Inl f)
      | Some (Inr s) \<Rightarrow> server_loop strerror polls s)"

text \<open>\<^verbatim>\<open>Test0\<close>: the server, then the loop. Nothing catches an exception.\<close>

definition server_main ::
    "(int \<Rightarrow> string) \<Rightarrow> acceptor_answers \<Rightarrow> 32 word option \<Rightarrow> nat \<Rightarrow> ((int \<times> int) \<times> int) list
       \<Rightarrow> (int \<times> epoll_event list) list list \<Rightarrow> (fault + server) option" where
  "server_main strerror ans ep r xs polls =
     (case server_construct strerror ans ep r (new_server xs) of
        Inl f \<Rightarrow> Some (Inl f)
      | Inr (Some e, s) \<Rightarrow> Some (Inl (Thrown e))
      | Inr (None, s) \<Rightarrow> server_loop strerror polls s)"

section \<open>What it is meant to do\<close>

text \<open>\<open>serve c xs\<close>: the results seen by the handler from a call of \<^verbatim>\<open>DoAccept\<close> on, with \<open>c\<close> connections
  counted so far, up to the fifth connection, an error or an answer that has no connection.\<close>

datatype server_fate = Exits | Stops | Waits | Dies

fun serve :: "(int \<Rightarrow> string) \<Rightarrow> int \<Rightarrow> ((int \<times> int) \<times> int) list \<Rightarrow> (string + int) list \<times> server_fate" where
  "serve strerror c [] = ([], Waits)"
| "serve strerror c (((fd, e), fre) # xs) =
     (if fd < 0 then (if e \<noteq> EWOULDBLOCK then ([Inl (strerror e)], Stops) else ([], Waits))
      else if fre = -1 then ([], Dies)
      else if fd = 0 then ([], Waits)
      else if c + 1 = 5 then ([Inr fd], Exits)
      else map_prod ((#) (Inr fd)) id (serve strerror (c + 1) xs))"

text \<open>How the construction of the acceptor can fail: in \<^verbatim>\<open>SocketBase\<close>, at the port, in the body of
  \<^verbatim>\<open>Acceptor\<close>.\<close>

definition start_fault :: "acceptor_answers \<Rightarrow> 32 word option \<Rightarrow> fault option" where
  "start_fault ans ep =
     (if ans_socket ans < 0 then Some (Terminated ''socket error!'')
      else if ans_fcntl ans = -1 then Some (Thrown ''fcntl error!'')
      else if ans_socket ans = 0 then Some (Thrown ''accepting socket is not opened!'')
      else if ep = None then Some (Undefined ''read of an indeterminate value'')
      else if ans_bind ans < 0 then Some (Thrown ''bind error'')
      else if ans_listen ans < 0 then Some (Thrown ''listen error!'')
      else if ans_ctl ans = -1 then Some (Thrown ''epoll_ctl error'')
      else None)"

section \<open>The invariant\<close>

text \<open>The acceptor listens on \<open>l\<close> with the reactor \<open>r\<close>; the kernel never hands out \<open>l\<close> again; the
  descriptors of the queued results are closed already; \<open>k\<close> tells whether \<^verbatim>\<open>fcntl\<close> may fail.\<close>

definition server_inv :: "int \<Rightarrow> bool \<Rightarrow> nat \<Rightarrow> server \<Rightarrow> bool" where
  "server_inv l k r s \<longleftrightarrow> 0 < l \<and> kfd s l \<and> interest s l
     \<and> acceptors s 0 = Some \<lparr>acc_fd = l, acc_reactor = Some r\<rparr>
     \<and> (\<exists>ch. areactors s r = Some \<lparr>ar_owner = 0, ar_ch = ch\<rparr> \<and> (ch = None \<or> ch = Some 0))
     \<and> io_handlers s = [l \<mapsto> r]
     \<and> (\<forall>fd e fre. ((fd, e), fre) \<in> set (arrivals s) \<longrightarrow> fd \<noteq> l \<and> (fre = -1 \<longrightarrow> k))
     \<and> (\<forall>ch fd. Some (Complete ch (Inr fd)) \<in> set (completions s) \<longrightarrow> 0 < fd \<and> \<not> kfd s fd)
     \<and> length (epoll_events s) = kMaxEventsPerPoll"

definition server_ch :: "nat \<Rightarrow> server \<Rightarrow> nat option" where
  "server_ch r s = (case areactors s r of None \<Rightarrow> None | Some ar \<Rightarrow> ar_ch ar)"

lemma is_pending_ch: "is_pending r s \<longleftrightarrow> server_ch r s \<noteq> None"
  by (simp add: is_pending_def server_ch_def split: option.splits)

lemma server_invD:
  assumes "server_inv l k r s"
  shows "acceptors s 0 = Some \<lparr>acc_fd = l, acc_reactor = Some r\<rparr>"
    "areactors s r = Some \<lparr>ar_owner = 0, ar_ch = server_ch r s\<rparr>"
    "io_handlers s = [l \<mapsto> r]" "0 < l" "kfd s l" "interest s l" "length (epoll_events s) = kMaxEventsPerPoll"
    "\<And>fd e fre. ((fd, e), fre) \<in> set (arrivals s) \<Longrightarrow> fd \<noteq> l \<and> (fre = -1 \<longrightarrow> k)"
    "\<And>ch fd. Some (Complete ch (Inr fd)) \<in> set (completions s) \<Longrightarrow> 0 < fd \<and> \<not> kfd s fd"
    "server_ch r s = None \<or> server_ch r s = Some 0"
  using assms by (auto simp: server_inv_def server_ch_def)

text \<open>Two states that agree on what the invariant reads.\<close>

lemma server_inv_frame:
  assumes "server_inv l k r s" "kfd t l" "interest t l" "acceptors t = acceptors s"
    and "areactors t r = Some \<lparr>ar_owner = 0, ar_ch = ch\<rparr>" "ch = None \<or> ch = Some 0" "io_handlers t = io_handlers s"
    and "set (arrivals t) \<subseteq> set (arrivals s)" "length (epoll_events t) = length (epoll_events s)"
    and "\<And>ch fd. Some (Complete ch (Inr fd)) \<in> set (completions t) \<Longrightarrow> 0 < fd \<and> \<not> kfd t fd"
  shows "server_inv l k r t"
proof -
  have "fd \<noteq> l \<and> (fre = -1 \<longrightarrow> k)" if "((fd, e), fre) \<in> set (arrivals t)" for fd e fre
    using subsetD [OF assms(8) that] assms(1) by (auto simp: server_inv_def)
  then show ?thesis using assms(1-7,9,10) by (auto simp: server_inv_def)
qed

section \<open>One accept\<close>

fun completes :: "(int \<Rightarrow> string) \<Rightarrow> (int \<times> int) \<times> int \<Rightarrow> (string + int) option" where
  "completes strerror ((fd, e), fre) =
     (if fd > 0 then Some (Inr fd) else if fd < 0 \<and> e \<noteq> EWOULDBLOCK then Some (Inl (strerror e)) else None)"

lemma accept_answer:
  assumes inv: "server_inv l k r s" and pending: "server_ch r s = Some ch" and x: "x = ((fd, e), fre)" "fd \<noteq> l"
    and alive: "\<not> fcntl_kills (fd, e) fre"
  obtains t where "Handle strerror (fd, e) fre r s = Inr t" "server_inv l k r t"
    "arrivals t = arrivals s" "accepted t = accepted s" "handled t = handled s" "epoll_events t = epoll_events s"
    "completions t = completions s @ (case completes strerror x of None \<Rightarrow> [] | Some re \<Rightarrow> [Some (Complete ch re)])"
    "server_ch r t = (if completes strerror x = None then Some ch else None)"
proof -
  note I = server_invD [OF inv]
  have ar: "areactors s r = Some \<lparr>ar_owner = 0, ar_ch = Some ch\<rparr>" using I(2) pending by simp
  have fre: "0 \<le> fd \<Longrightarrow> fre \<noteq> -1" using alive by (simp add: fcntl_kills_def)
  consider "0 < fd" | "fd = 0" | "fd < 0" "e = EWOULDBLOCK" | "fd < 0" "e \<noteq> EWOULDBLOCK" by linarith
  then show ?thesis
  proof cases
    case 1
    have more: "arrivals (sys_close k u) = arrivals u" "accepted (sys_close k u) = accepted u"
      "epoll_events (sys_close k u) = epoll_events u" for k and u :: server
      by (simp_all add: sys_close_def kernel_closes_def)
    let ?t = "sys_close fd (sys_close fd (EnqueueCompletionHandler (Complete ch (Inr fd)) (sys_close fd (sys_opens fd s))
           \<lparr>areactors := (areactors s)(r \<mapsto> \<lparr>ar_owner = 0, ar_ch = None\<rparr>)\<rparr>))"
    have H: "Handle strerror (fd, e) fre r s = Inr ?t"
      using Handle_accepts [OF ar, of ch] I(1) 1 x fre by simp
    show ?thesis
    proof (rule that [OF H])
      show "server_inv l k r ?t"
        using I x(2) 1 by (intro server_inv_frame [OF inv, where ch = None])
          (auto simp: EnqueueCompletionHandler_def sys_opens_def more)
    qed (use 1 x in \<open>simp_all add: EnqueueCompletionHandler_def sys_opens_def more server_ch_def\<close>)
  next
    case 2
    then have H: "Handle strerror (fd, e) fre r s = Inr (sys_opens 0 s)"
      using ar I(1) x fre by (simp add: Handle_def DoAsyncAcceptInitiation_def SocketBase_fd_def
          SetNonBlocking_def init_completed_def IsOpen_def destroy_result_def Let_def)
    have "server_inv l k r (sys_opens 0 s)"
      using I(5,6,10) pending ar by (intro server_inv_frame [OF inv, where ch = "Some ch"]) (auto simp: sys_opens_def dest: I(9))
    then show ?thesis by (rule that [OF H]) (use 2 x pending in \<open>simp_all add: sys_opens_def server_ch_def\<close>)
  next
    case 3
    then show ?thesis
      using that [of s] Handle_would_block [OF ar] I(1) inv pending x by simp
  next
    case 4
    let ?t = "EnqueueCompletionHandler (Complete ch (Inl (strerror e))) s
           \<lparr>areactors := (areactors s)(r \<mapsto> \<lparr>ar_owner = 0, ar_ch = None\<rparr>)\<rparr>"
    have H: "Handle strerror (fd, e) fre r s = Inr ?t"
      using Handle_error [OF ar, of ch] I(1) 4 by simp
    show ?thesis
    proof (rule that [OF H])
      show "server_inv l k r ?t"
        using I by (intro server_inv_frame [OF inv, where ch = None]) (auto simp: EnqueueCompletionHandler_def)
    qed (use 4 x in \<open>simp_all add: EnqueueCompletionHandler_def server_ch_def\<close>)
  qed
qed

text \<open>\<^verbatim>\<open>DoAccept\<close> and an event take the next answer.\<close>

lemma use_arrival_sel [simp]:
  "arrivals (use_arrival s) = tl (arrivals s)" "accepted (use_arrival s) = accepted s" "handled (use_arrival s) = handled s"
  "completions (use_arrival s) = completions s" "epoll_events (use_arrival s) = epoll_events s"
  "areactors (use_arrival s) = areactors s" "acceptors (use_arrival s) = acceptors s"
  "io_handlers (use_arrival s) = io_handlers s" "kfd (use_arrival s) = kfd s" "interest (use_arrival s) = interest s"
  by (simp_all add: use_arrival_def)

lemma next_arrival_ok:
  assumes "server_inv l k r s" "next_arrival s = ((fd, e), fre)"
  shows "fd \<noteq> l" "fcntl_kills (fd, e) fre \<Longrightarrow> k"
  using assms(2) server_invD(4,8) [OF assms(1)]
  by (auto simp: next_arrival_def fcntl_kills_def split: list.splits)

definition arrival_dies :: "server \<Rightarrow> bool" where
  "arrival_dies s \<longleftrightarrow> fcntl_kills (fst (next_arrival s)) (snd (next_arrival s))"

definition arrival_result :: "(int \<Rightarrow> string) \<Rightarrow> server \<Rightarrow> (string + int) option" where
  "arrival_result strerror s = completes strerror (next_arrival s)"

lemma use_arrival_inv: "server_inv l k r s \<Longrightarrow> server_inv l k r (use_arrival s)"
  using server_invD [of l k r s]
  by (cases "arrivals s") (auto intro!: server_inv_frame [where s = s and ch = "server_ch r s"])

lemma Server_DoAccept_dies:
  assumes inv: "server_inv l k r s" and dies: "arrival_dies s"
  shows "Server_DoAccept strerror s = Inl died"
proof -
  note I = server_invD [OF inv]
  obtain answer fre where x: "next_arrival s = (answer, fre)" by fastforce
  let ?u = "(use_arrival s)\<lparr>areactors := (areactors s)(r \<mapsto> \<lparr>ar_owner = 0, ar_ch = Some 0\<rparr>)\<rparr>"
  have "Server_DoAccept strerror s = Handle strerror answer fre r ?u"
    using I(1,2) x by (simp add: Server_DoAccept_def AsyncAccept_def)
  also have "\<dots> = Inl died"
    unfolding died_def
    by (rule Handle_dies [where ar = "\<lparr>ar_owner = 0, ar_ch = Some 0\<rparr>" and ch = 0
          and acc = "\<lparr>acc_fd = l, acc_reactor = Some r\<rparr>"]) (use I(1) x dies in \<open>simp_all add: arrival_dies_def\<close>)
  finally show ?thesis .
qed

lemma Server_DoAccept_ok:
  assumes inv: "server_inv l k r s" and alive: "\<not> arrival_dies s"
  obtains t where "Server_DoAccept strerror s = Inr t" "server_inv l k r t"
    "arrivals t = tl (arrivals s)" "accepted t = accepted s" "handled t = handled s" "epoll_events t = epoll_events s"
    "completions t = completions s @
       (case arrival_result strerror s of None \<Rightarrow> [] | Some re \<Rightarrow> [Some (Complete 0 re)])"
    "server_ch r t = (if arrival_result strerror s = None then Some 0 else None)"
proof -
  note I = server_invD [OF inv]
  obtain fd e fre where x: "next_arrival s = ((fd, e), fre)" by (metis prod.exhaust)
  let ?u = "(use_arrival s)\<lparr>areactors := (areactors s)(r \<mapsto> \<lparr>ar_owner = 0, ar_ch = Some 0\<rparr>)\<rparr>"
  have u: "server_inv l k r ?u"
    using I by (intro server_inv_frame [OF use_arrival_inv [OF inv], where ch = "Some 0"]) auto
  have call: "Server_DoAccept strerror s = Handle strerror (fd, e) fre r ?u"
    using I(1,2) x by (simp add: Server_DoAccept_def AsyncAccept_def)
  have "server_ch r ?u = Some 0" by (simp add: server_ch_def)
  from accept_answer [OF u this refl next_arrival_ok(1) [OF inv x], where strerror = strerror] alive x obtain t where
    "Handle strerror (fd, e) fre r ?u = Inr t" "server_inv l k r t" "arrivals t = arrivals ?u"
    "accepted t = accepted ?u" "handled t = handled ?u" "epoll_events t = epoll_events ?u"
    "completions t = completions ?u @ (case completes strerror ((fd, e), fre) of None \<Rightarrow> [] | Some re \<Rightarrow> [Some (Complete 0 re)])"
    "server_ch r t = (if completes strerror ((fd, e), fre) = None then Some 0 else None)"
    unfolding arrival_dies_def by (metis fst_conv snd_conv)
  then show ?thesis using that [of t] call x by (simp add: arrival_result_def)
qed

section \<open>The queued completions\<close>

abbreviation run_server where "run_server strerror \<equiv> run_accept_completion (Server_handler strerror)"

lemma close_sel [simp]:
  "arrivals (sys_close fd s) = arrivals s" "accepted (sys_close fd s) = accepted s"
  "epoll_events (sys_close fd s) = epoll_events s" "server_ch r (sys_close fd s) = server_ch r s"
  by (simp_all add: sys_close_def kernel_closes_def server_ch_def)

lemma close_inv:
  assumes inv: "server_inv l k r s" and "fd \<noteq> l"
  shows "server_inv l k r (sys_close fd s)"
proof -
  note I = server_invD [OF inv]
  show ?thesis
    by (rule server_inv_frame [OF inv, where ch = "server_ch r s"]) (use I assms(2) in \<open>auto dest: I(9)\<close>)
qed

text \<open>The queue is read by the invariant only through its results.\<close>

lemma queue_inv:
  assumes inv: "server_inv l k r s" and "kfd t = kfd s" "interest t = interest s" "acceptors t = acceptors s"
    "areactors t = areactors s" "io_handlers t = io_handlers s" "arrivals t = arrivals s"
    "epoll_events t = epoll_events s" "set (completions t) \<subseteq> insert None (set (completions s))"
  shows "server_inv l k r t"
proof -
  note I = server_invD [OF inv]
  show ?thesis
    by (rule server_inv_frame [OF inv, where ch = "server_ch r s"]) (use I(1-8,10) assms in \<open>auto dest!: subsetD I(9)\<close>)
qed

lemma complete_stops:
  assumes inv: "server_inv l k r s" and q: "completions s = [Some (Complete ch (Inl e))]"
  obtains t where "complete_loop (run_server strerror) s = Some (Inr t)" "server_inv l k r t" "completions t = []"
    "handled t = handled s @ [(ch, Inl e, False)]" "server_ch r t = server_ch r s" "epoll_events t = epoll_events s"
proof -
  let ?t = "s\<lparr>io_ran := io_ran s @ [Complete ch (Inl e)], handled := handled s @ [(ch, Inl e, False)], completions := []\<rparr>"
  have "complete_loop (run_server strerror) s = complete_loop (run_server strerror) ?t"
    by (subst complete_loop.simps)
      (simp add: q run_accept_completion_def Server_handler_def destroy_result_def Let_def)
  also have "\<dots> = Some (Inr ?t)" by (simp add: complete_loop.simps)
  finally show ?thesis by (rule that) (simp_all add: queue_inv [OF inv] server_ch_def)
qed

lemma complete_exits:
  assumes "completions s = [Some (Complete ch (Inr fd))]" "accepted s = 4"
  shows "complete_loop (run_server strerror) s = Some (Inl exited)"
  using assms by (subst complete_loop.simps)
    (simp add: run_accept_completion_def Server_handler_def Let_def)

lemma complete_accepts:
  assumes inv: "server_inv l k r s" and q: "completions s = [Some (Complete ch (Inr fd))]" and more: "accepted s \<noteq> 4"
    and alive: "\<not> arrival_dies s"
  obtains t where "complete_loop (run_server strerror) s = complete_loop (run_server strerror) t" "server_inv l k r t"
    "completions t = (case arrival_result strerror s of None \<Rightarrow> [] | Some re \<Rightarrow> [Some (Complete 0 re)])"
    "server_ch r t = (if arrival_result strerror s = None then Some 0 else None)"
    "arrivals t = tl (arrivals s)" "accepted t = accepted s + 1"
    "handled t = handled s @ [(ch, Inr fd, False)]" "epoll_events t = epoll_events s"
proof -
  note I = server_invD [OF inv]
  have fd: "0 < fd" "\<not> kfd s fd" "fd \<noteq> l" using I(5) I(9) [of ch fd] q by auto
  let ?u = "s\<lparr>completions := [None], io_ran := io_ran s @ [Complete ch (Inr fd)],
    handled := handled s @ [(ch, Inr fd, False)], accepted := accepted s + 1\<rparr>"
  have u: "server_inv l k r ?u" by (rule queue_inv [OF inv]) simp_all
  have same: "arrival_result strerror ?u = arrival_result strerror s" "\<not> arrival_dies ?u"
    using alive by (simp_all add: arrival_result_def next_arrival_def arrival_dies_def)
  from Server_DoAccept_ok [OF u same(2), of strerror] obtain v where v: "Server_DoAccept strerror ?u = Inr v" "server_inv l k r v"
    "arrivals v = tl (arrivals s)" "accepted v = accepted s + 1" "handled v = handled s @ [(ch, Inr fd, False)]"
    "epoll_events v = epoll_events s"
    "completions v = None # (case arrival_result strerror s of None \<Rightarrow> [] | Some re \<Rightarrow> [Some (Complete 0 re)])"
    "server_ch r v = (if arrival_result strerror s = None then Some 0 else None)"
    unfolding same(1) by auto
  let ?w = "sys_close fd (sys_close fd (sys_close fd v))"
  let ?t = "?w\<lparr>completions := tl (completions v)\<rparr>"
  have "complete_loop (run_server strerror) s = complete_loop (run_server strerror) ?t"
    using more v(1) fd
    by (subst complete_loop.simps) (simp add: q run_accept_completion_def Server_handler_def Let_def destroy_result_def)
  moreover have "server_inv l k r ?t"
    using v(7) by (intro queue_inv [OF close_inv [OF close_inv [OF close_inv [OF v(2) fd(3)] fd(3)] fd(3)]]) auto
  moreover have "server_ch r ?t = server_ch r v" by (simp add: server_ch_def)
  ultimately show ?thesis by (intro that [of ?t]) (simp_all add: v)
qed

lemma complete_dies:
  assumes inv: "server_inv l k r s" and q: "completions s = [Some (Complete ch (Inr fd))]" and more: "accepted s \<noteq> 4"
    and dies: "arrival_dies s"
  shows "complete_loop (run_server strerror) s = Some (Inl died)"
proof -
  let ?u = "s\<lparr>completions := [None], io_ran := io_ran s @ [Complete ch (Inr fd)],
    handled := handled s @ [(ch, Inr fd, kfd s fd)], accepted := accepted s + 1\<rparr>"
  have "server_inv l k r ?u" by (rule queue_inv [OF inv]) simp_all
  moreover have "arrival_dies ?u" using dies by (simp add: arrival_dies_def next_arrival_def)
  ultimately have "Server_DoAccept strerror ?u = Inl died" by (rule Server_DoAccept_dies)
  with more show ?thesis
    by (subst complete_loop.simps) (simp add: q run_accept_completion_def Server_handler_def Let_def)
qed

text \<open>What is left to serve when the last answer of \<^verbatim>\<open>accept\<close> was \<open>res\<close>.\<close>

fun serve_from :: "(int \<Rightarrow> string) \<Rightarrow> int \<Rightarrow> (string + int) option \<Rightarrow> ((int \<times> int) \<times> int) list \<Rightarrow>
    (string + int) list \<times> server_fate" where
  "serve_from strerror c None xs = ([], Waits)"
| "serve_from strerror c (Some (Inl e)) xs = ([Inl e], Stops)"
| "serve_from strerror c (Some (Inr fd)) xs =
     (if c + 1 = 5 then ([Inr fd], Exits) else map_prod ((#) (Inr fd)) id (serve strerror (c + 1) xs))"

lemma serve_result:
  "serve strerror c (arrivals s) =
     (if arrival_dies s then ([], Dies) else serve_from strerror c (arrival_result strerror s) (tl (arrivals s)))"
proof (cases "arrivals s")
  case Nil
  then show ?thesis by (simp add: arrival_result_def next_arrival_def arrival_dies_def fcntl_kills_def)
next
  case (Cons x xs)
  obtain fd e fre where "x = ((fd, e), fre)" by (metis prod.exhaust)
  with Cons show ?thesis by (auto simp: arrival_result_def next_arrival_def arrival_dies_def fcntl_kills_def)
qed

definition queued :: "(string + int) option \<Rightarrow> accept_completion option list" where
  "queued res = (case res of None \<Rightarrow> [] | Some re \<Rightarrow> [Some (Complete 0 re)])"

lemma complete_loop_empty: "completions s = [] \<Longrightarrow> complete_loop run s = Some (Inr s)"
  by (simp add: complete_loop.simps)

lemma complete_loop_serves:
  assumes "server_inv l k r s" "completions s = queued res" "server_ch r s = (if res = None then Some 0 else None)"
    and "serve_from strerror (accepted s) res (arrivals s) = (seen, fin)"
  shows "if fin = Exits then complete_loop (run_server strerror) s = Some (Inl exited)
    else if fin = Dies then k \<and> complete_loop (run_server strerror) s = Some (Inl died)
    else \<exists>t. complete_loop (run_server strerror) s = Some (Inr t) \<and> server_inv l k r t \<and> completions t = []
      \<and> handled t = handled s @ map (\<lambda>re. (0, re, False)) seen \<and> epoll_events t = epoll_events s
      \<and> server_ch r t = (if fin = Waits then Some 0 else None)"
  using assms
proof (induction "length (arrivals s)" arbitrary: s res seen rule: less_induct)
  case less
  consider "res = None" | e where "res = Some (Inl e)" | fd where "res = Some (Inr fd)" "accepted s = 4"
    | fd where "res = Some (Inr fd)" "accepted s \<noteq> 4"
  proof (cases res)
    case (Some re)
    then show ?thesis using that by (cases re; cases "accepted s = 4") auto
  qed (use that in simp)
  then show ?case
  proof cases
    case 1
    with less.prems show ?thesis by (auto simp: queued_def complete_loop_empty)
  next
    case 2
    then have "completions s = [Some (Complete 0 (Inl e))]" using less.prems by (simp add: queued_def)
    from complete_stops [OF less.prems(1) this, of strerror] obtain t where
      "complete_loop (run_server strerror) s = Some (Inr t)" "server_inv l k r t" "completions t = []"
      "handled t = handled s @ [(0, Inl e, False)]" "server_ch r t = server_ch r s" "epoll_events t = epoll_events s" .
    with less.prems 2 show ?thesis by auto
  next
    case 3
    then show ?thesis using less.prems complete_exits [of s 0 fd strerror] by (auto simp: queued_def)
  next
    case 4
    then have q: "completions s = [Some (Complete 0 (Inr fd))]" using less.prems by (simp add: queued_def)
    show ?thesis
    proof (cases "arrival_dies s")
      case True
      obtain f e fre where x: "next_arrival s = ((f, e), fre)" by (metis prod.exhaust)
      have "fin = Dies" using less.prems(4) 4 True by (simp add: serve_result)
      moreover have k using next_arrival_ok(2) [OF less.prems(1) x] True x by (simp add: arrival_dies_def)
      ultimately show ?thesis using complete_dies [OF less.prems(1) q 4(2) True] by simp
    next
      case False
      from complete_accepts [OF less.prems(1) q 4(2) False, of strerror] obtain t where
        t: "complete_loop (run_server strerror) s = complete_loop (run_server strerror) t" "server_inv l k r t"
        "completions t = queued (arrival_result strerror s)"
        "server_ch r t = (if arrival_result strerror s = None then Some 0 else None)"
        "arrivals t = tl (arrivals s)" "accepted t = accepted s + 1"
        "handled t = handled s @ [(0, Inr fd, False)]" "epoll_events t = epoll_events s"
        unfolding queued_def by blast
      from less.prems(4) 4 False obtain rest where rest: "seen = Inr fd # rest"
        "serve_from strerror (accepted t) (arrival_result strerror s) (arrivals t) = (rest, fin)"
        by (cases "serve_from strerror (accepted t) (arrival_result strerror s) (arrivals t)") (auto simp: serve_result t(5,6))
      show ?thesis
      proof (cases "arrivals s")
        case Nil
        then have "arrival_result strerror s = None" by (simp add: arrival_result_def next_arrival_def)
        then show ?thesis using t rest by (auto simp: queued_def complete_loop_empty)
      next
        case (Cons x xs)
        then have "length (arrivals t) < length (arrivals s)" by (simp add: t(5))
        from less.hyps [OF this t(2-4) rest(2)] t rest(1) show ?thesis by auto
      qed
    qed
  qed
qed

section \<open>Events\<close>

text \<open>At most one completion is queued, and then no operation is pending.\<close>

definition server_state :: "int \<Rightarrow> bool \<Rightarrow> nat \<Rightarrow> server \<Rightarrow> bool" where
  "server_state l k r s \<longleftrightarrow> server_inv l k r s
     \<and> (completions s = [] \<or> (\<exists>re. completions s = queued (Some re) \<and> server_ch r s = None))"

lemma server_event:
  assumes "server_state l k r s"
  shows "(\<exists>t. server_Handle strerror r ev s = Inr t \<and> server_state l k r t \<and> epoll_events t = epoll_events s)
    \<or> (k \<and> server_Handle strerror r ev s = Inl died)"
proof -
  have inv: "server_inv l k r s" using assms by (simp add: server_state_def)
  obtain fd e fre where x: "next_arrival s = ((fd, e), fre)" by (metis prod.exhaust)
  show ?thesis
  proof (cases "server_ch r s")
    case None
    then have "server_Handle strerror r ev s = Inr s"
      using server_invD(2) [OF inv] x by (simp add: server_Handle_def is_pending_ch Handle_idle)
    with assms show ?thesis by simp
  next
    case (Some ch)
    then have ch: "server_ch r (use_arrival s) = Some 0" "completions s = []"
      using assms server_invD(10) [OF inv] by (auto simp: server_ch_def server_state_def)
    have call: "server_Handle strerror r ev s = Handle strerror (fd, e) fre r (use_arrival s)"
      using Some x by (simp add: server_Handle_def is_pending_ch)
    note inv' = use_arrival_inv [OF inv]
    show ?thesis
    proof (cases "fcntl_kills (fd, e) fre")
      case True
      have "Handle strerror (fd, e) fre r (use_arrival s) = Inl died"
        unfolding died_def using server_invD(1,2) [OF inv'] ch(1) True
        by (intro Handle_dies [where ar = "\<lparr>ar_owner = 0, ar_ch = Some 0\<rparr>"]) simp_all
      with call next_arrival_ok(2) [OF inv x True] show ?thesis by simp
    next
      case False
      from accept_answer [OF inv' ch(1) refl next_arrival_ok(1) [OF inv x] False, where strerror = strerror]
      obtain t where t: "Handle strerror (fd, e) fre r (use_arrival s) = Inr t" "server_inv l k r t"
        "epoll_events t = epoll_events (use_arrival s)"
        "completions t = completions (use_arrival s) @
           (case completes strerror ((fd, e), fre) of None \<Rightarrow> [] | Some re \<Rightarrow> [Some (Complete 0 re)])"
        "server_ch r t = (if completes strerror ((fd, e), fre) = None then Some 0 else None)" .
      have "server_state l k r t"
        using t(2,4,5) ch(2) by (cases "completes strerror ((fd, e), fre)") (auto simp: server_state_def queued_def simp del: completes.simps)
      with t(1,3) call show ?thesis by simp
    qed
  qed
qed

text \<open>Entries that were written are dispatched; the first that was not is read all the same.\<close>

definition unwritten :: fault where "unwritten = Undefined ''read of an indeterminate value''"

lemma server_dispatch:
  assumes "server_state l k r s"
  shows "(k \<and> dispatch_entries (server_Handle strerror) is s = Inl died)
    \<or> (if \<forall>i \<in> set is. epoll_events s ! i \<noteq> None
       then \<exists>t. dispatch_entries (server_Handle strerror) is s = Inr t \<and> server_state l k r t \<and> epoll_events t = epoll_events s
       else dispatch_entries (server_Handle strerror) is s = Inl unwritten)"
  using assms
proof (induction "is" arbitrary: s)
  case (Cons i "is")
  show ?case
  proof (cases "epoll_events s ! i")
    case None
    then show ?thesis by (simp add: unwritten_def)
  next
    case (Some e)
    have hs: "io_handlers s = [l \<mapsto> r]" using Cons.prems server_invD(3) by (auto simp: server_state_def)
    show ?thesis
    proof (cases "fst e = l")
      case False
      with Cons.IH [OF Cons.prems] Some hs show ?thesis by (auto split: if_splits)
    next
      case True
      from server_event [OF Cons.prems, of strerror e] show ?thesis
      proof (elim disjE exE conjE)
        fix t
        assume t: "server_Handle strerror r e s = Inr t" "server_state l k r t" "epoll_events t = epoll_events s"
        then have "dispatch_entries (server_Handle strerror) (i # is) s = dispatch_entries (server_Handle strerror) is t"
          using Some hs True by simp
        with Cons.IH [OF t(2), unfolded t(3)] Some show ?thesis by (simp only: list.set ball_simps) (simp split: if_splits)
      next
        assume "k" "server_Handle strerror r e s = Inl died"
        with Some hs True show ?thesis by simp
      qed
    qed
  qed
qed simp

text \<open>What \<^verbatim>\<open>epoll_wait\<close> answers: a failure, or the number of the events it stores, at most 100.\<close>

definition epoll_answer :: "int \<times> epoll_event list \<Rightarrow> bool" where
  "epoll_answer w \<longleftrightarrow> fst w = -1 \<or> (fst w = int (length (snd w)) \<and> length (snd w) \<le> kMaxEventsPerPoll)"

lemma server_state_events:
  assumes "server_state l k r s" "length es \<le> kMaxEventsPerPoll"
  shows "server_state l k r (s\<lparr>epoll_events := map Some es @ drop (length es) (epoll_events s)\<rparr>)"
proof -
  have inv: "server_inv l k r s" using assms(1) by (simp add: server_state_def)
  note I = server_invD [OF inv]
  have "server_inv l k r (s\<lparr>epoll_events := map Some es @ drop (length es) (epoll_events s)\<rparr>)"
    by (rule server_inv_frame [OF inv, where ch = "server_ch r s"]) (use I assms(2) in \<open>auto dest: I(9)\<close>)
  with assms(1) show ?thesis by (simp add: server_state_def server_ch_def)
qed

definition all_written :: "server \<Rightarrow> bool" where
  "all_written s \<longleftrightarrow> None \<notin> set (epoll_events s)"

definition failed_wait :: fault where "failed_wait = Thrown ''failed epoll_wait''"

lemmas server_faults = exited_def died_def unwritten_def failed_wait_def

text \<open>How calls of \<^verbatim>\<open>Poll\<close> from a good state can end; \<open>k\<close> and \<open>e\<close> tell whether \<^verbatim>\<open>fcntl\<close> and
  \<^verbatim>\<open>epoll_wait\<close> may fail.\<close>

definition poll_outcome :: "int \<Rightarrow> bool \<Rightarrow> bool \<Rightarrow> nat \<Rightarrow> server \<Rightarrow> fault + server \<Rightarrow> bool" where
  "poll_outcome l k e r s res \<longleftrightarrow> res = Inl exited \<or> (\<not> all_written s \<and> res = Inl unwritten)
     \<or> (k \<and> res = Inl died) \<or> (e \<and> res = Inl failed_wait)
     \<or> (\<exists>t. res = Inr t \<and> server_state l k r t \<and> (all_written s \<longrightarrow> all_written t))"

definition answers_ok :: "bool \<Rightarrow> (int \<times> epoll_event list) list \<Rightarrow> bool" where
  "answers_ok e ws \<longleftrightarrow> (\<forall>w \<in> set ws. epoll_answer w \<and> (fst w = -1 \<longrightarrow> e))"

lemma outcome_trans:
  "server_state l k r t \<Longrightarrow> (all_written s \<longrightarrow> all_written t) \<Longrightarrow> poll_outcome l k e r t res \<Longrightarrow> poll_outcome l k e r s res"
  by (auto simp: poll_outcome_def)

lemma event_loop_outcome:
  "server_state l k r s \<Longrightarrow> answers_ok e ws \<Longrightarrow> poll_outcome l k e r s (event_loop (server_Handle strerror) ws s)"
proof (induction ws arbitrary: s)
  case Nil
  then show ?case by (simp add: poll_outcome_def)
next
  case (Cons w ws)
  from Cons.prems(2) have ws: "answers_ok e ws" "epoll_answer w" "fst w = -1 \<longrightarrow> e" by (simp_all add: answers_ok_def)
  consider "fst w = -1" | "snd w = []" "fst w = 0"
    | "snd w \<noteq> []" "fst w = int (length (snd w))" "length (snd w) \<le> kMaxEventsPerPoll"
    using ws(2) by (cases "snd w") (auto simp: epoll_answer_def)
  then show ?case
  proof cases
    case 1
    with ws(3) show ?thesis by (simp add: MoreEvents_def Let_def poll_outcome_def failed_wait_def)
  next
    case 2
    with Cons.prems(1) show ?thesis by (simp add: MoreEvents_def Let_def poll_outcome_def)
  next
    case 3
    let ?s = "s\<lparr>epoll_events := map Some (snd w) @ drop (length (snd w)) (epoll_events s)\<rparr>"
    have s: "server_state l k r ?s" by (rule server_state_events [OF Cons.prems(1) 3(3)])
    then have len: "length (epoll_events ?s) = kMaxEventsPerPoll"
      unfolding server_state_def by (blast dest: server_invD(7))
    have more: "MoreEvents w s = Inr (True, ?s)"
      using MoreEvents_stores [of "snd w" s] 3 by (cases w) auto
    have written: "all_written s \<Longrightarrow> all_written ?s" by (auto simp: all_written_def dest: in_set_dropD)
    have entries: "(\<forall>i \<in> set [0..<kMaxEventsPerPoll]. epoll_events ?s ! i \<noteq> None) \<longleftrightarrow> all_written ?s"
      using len unfolding all_written_def in_set_conv_nth by auto
    note dispatch = server_dispatch [OF s, of strerror "[0..<kMaxEventsPerPoll]", unfolded entries]
    have loop: "event_loop (server_Handle strerror) (w # ws) s
        = bind_res (dispatch_entries (server_Handle strerror) [0..<kMaxEventsPerPoll] ?s) (event_loop (server_Handle strerror) ws)"
      by (simp add: more)
    show ?thesis
    proof (cases "all_written ?s")
      case True
      with dispatch consider "k" "dispatch_entries (server_Handle strerror) [0..<kMaxEventsPerPoll] ?s = Inl died"
        | t where "dispatch_entries (server_Handle strerror) [0..<kMaxEventsPerPoll] ?s = Inr t" "server_state l k r t"
          "epoll_events t = epoll_events ?s" by auto
      then show ?thesis
      proof cases
        case 1
        then show ?thesis unfolding loop by (simp add: poll_outcome_def)
      next
        case 2
        have "all_written t" using True 2(3) by (simp add: all_written_def)
        then show ?thesis
          using outcome_trans [OF 2(2) _ Cons.IH [OF 2(2) ws(1)]] unfolding loop 2(1) by simp
      qed
    next
      case False
      with dispatch written show ?thesis unfolding loop by (auto simp: poll_outcome_def)
    qed
  qed
qed

lemma server_Poll_outcome:
  assumes st: "server_state l k r s" and ws: "answers_ok e ws"
  shows "\<exists>res. server_Poll strerror ws s = Some res \<and> poll_outcome l k e r s res"
proof -
  have inv: "server_inv l k r s" using st by (simp add: server_state_def)
  have finish: "\<exists>res. server_Poll strerror ws s = Some res \<and> poll_outcome l k e r s res"
    if "complete_loop (run_server strerror) s = Some (Inr t)" "server_inv l k r t" "completions t = []"
      "epoll_events t = epoll_events s" for t
  proof -
    have t: "server_state l k r t" "all_written s \<longrightarrow> all_written t"
      using that by (simp_all add: server_state_def all_written_def)
    then show ?thesis using outcome_trans [OF t event_loop_outcome [OF t(1) ws]] that(1)
      by (simp add: server_Poll_def io_Poll_def)
  qed
  show ?thesis
  proof (cases "completions s = []")
    case True
    then show ?thesis by (intro finish [of s]) (simp_all add: inv complete_loop_empty)
  next
    case False
    then obtain re where re: "completions s = queued (Some re)" "server_ch r s = None"
      using st by (auto simp: server_state_def)
    obtain seen fin where "serve_from strerror (accepted s) (Some re) (arrivals s) = (seen, fin)" by (metis surj_pair)
    from complete_loop_serves [OF inv re(1) _ this] re(2)
    consider "complete_loop (run_server strerror) s = Some (Inl exited)"
      | "k" "complete_loop (run_server strerror) s = Some (Inl died)"
      | t where "complete_loop (run_server strerror) s = Some (Inr t)" "server_inv l k r t" "completions t = []"
        "epoll_events t = epoll_events s" by (auto split: if_splits)
    then show ?thesis
    proof cases
      case 3
      then show ?thesis by (rule finish)
    qed (simp_all add: server_Poll_def io_Poll_def poll_outcome_def)
  qed
qed

section \<open>The server end to end\<close>

text \<open>The kernel does not hand out the descriptor \<open>l\<close> of the acceptor, which stays open.\<close>

definition good_arrivals :: "int \<Rightarrow> ((int \<times> int) \<times> int) list \<Rightarrow> bool" where
  "good_arrivals l xs \<longleftrightarrow> (\<forall>((fd, e), fre) \<in> set xs. fd \<noteq> l)"

definition fcntl_fails :: "((int \<times> int) \<times> int) list \<Rightarrow> bool" where
  "fcntl_fails xs \<longleftrightarrow> (\<exists>x \<in> set xs. snd x = -1)"

lemma start_faults:
  assumes "start_fault ans ep = Some f"
  shows "server_main strerror ans ep r xs polls = Some (Inl f)"
  using assms
  by (auto simp: start_fault_def server_main_def server_construct_def Acceptor_def SocketBase_default_def
      SocketBase_Create_def SetNonBlocking_def port_def IsOpen_def RegisterEventHandler_def Let_def split: if_splits)

lemma acceptor_constructed:
  assumes "start_fault ans ep = None" "good_arrivals (ans_socket ans) xs"
  obtains s where "Acceptor ans ep 0 r (new_server xs) = Inr (None, s)"
    "server_inv (ans_socket ans) (fcntl_fails xs) r s" "completions s = []" "arrivals s = xs" "accepted s = 0"
    "handled s = []" "epoll_events s = replicate kMaxEventsPerPoll None"
proof -
  let ?l = "ans_socket ans"
  let ?s = "(sys_opens ?l (new_server xs))\<lparr>interest := (\<lambda>_. False)(?l := True), io_handlers := [?l \<mapsto> r],
      acceptors := (\<lambda>_. None)(0 \<mapsto> \<lparr>acc_fd = ?l, acc_reactor = Some r\<rparr>),
      areactors := (\<lambda>_. None)(r \<mapsto> \<lparr>ar_owner = 0, ar_ch = None\<rparr>)\<rparr>"
  from assms(1) obtain p where ep: "ep = Some p" "0 < ?l"
    by (auto simp: start_fault_def split: if_splits)
  have ok: "ans_fcntl ans \<noteq> -1" "0 \<le> ans_bind ans" "0 \<le> ans_listen ans" "ans_ctl ans \<noteq> -1"
    using assms(1) by (auto simp: start_fault_def split: if_splits)
  show ?thesis
  proof (rule that [of ?s])
    show "Acceptor ans ep 0 r (new_server xs) = Inr (None, ?s)"
      using ep ok by (simp add: Acceptor_def SocketBase_default_def SocketBase_Create_def SetNonBlocking_def port_def
          IsOpen_def RegisterEventHandler_def new_server_def new_v0_def v0.defs sys_opens_def Let_def)
    have "fd \<noteq> ?l \<and> (fre = -1 \<longrightarrow> fcntl_fails xs)" if "((fd, e), fre) \<in> set xs" for fd e fre
      using assms(2) that by (force simp: good_arrivals_def fcntl_fails_def)
    then show "server_inv ?l (fcntl_fails xs) r ?s"
      using ep(2) unfolding server_inv_def
      by (auto simp: new_server_def new_v0_def v0.defs sys_opens_def kMaxEventsPerPoll_def)
  qed (simp_all add: new_server_def new_v0_def v0.defs sys_opens_def)
qed

lemma server_started:
  assumes "start_fault ans ep = None" "good_arrivals (ans_socket ans) xs"
  obtains "fcntl_fails xs" "serve strerror 0 xs = ([], Dies)" "\<And>polls. server_main strerror ans ep r xs polls = Some (Inl died)"
  | s res where "\<And>polls. server_main strerror ans ep r xs polls = server_loop strerror polls s"
    "server_inv (ans_socket ans) (fcntl_fails xs) r s" "completions s = queued res" "handled s = []"
    "server_ch r s = (if res = None then Some 0 else None)" "epoll_events s = replicate kMaxEventsPerPoll None"
    "serve strerror 0 xs = serve_from strerror (accepted s) res (arrivals s)"
proof -
  from acceptor_constructed [OF assms, of r] obtain s0 where s0: "Acceptor ans ep 0 r (new_server xs) = Inr (None, s0)"
    "server_inv (ans_socket ans) (fcntl_fails xs) r s0" "completions s0 = []" "arrivals s0 = xs" "accepted s0 = 0"
    "handled s0 = []" "epoll_events s0 = replicate kMaxEventsPerPoll None" .
  have serve: "serve strerror 0 xs =
     (if arrival_dies s0 then ([], Dies) else serve_from strerror 0 (arrival_result strerror s0) (tl xs))"
    using serve_result [of strerror 0 s0] s0(4) by simp
  show ?thesis
  proof (cases "arrival_dies s0")
    case True
    obtain fd e fre where "next_arrival s0 = ((fd, e), fre)" by (metis prod.exhaust)
    with next_arrival_ok(2) [OF s0(2) this] True have "fcntl_fails xs" by (simp add: arrival_dies_def)
    moreover have "server_main strerror ans ep r xs polls = Some (Inl died)" for polls
      using s0(1) Server_DoAccept_dies [OF s0(2) True, of strerror] by (simp add: server_main_def server_construct_def)
    ultimately show ?thesis using that(1) serve True by simp
  next
    case False
    from Server_DoAccept_ok [OF s0(2) False, of strerror] obtain t where t: "Server_DoAccept strerror s0 = Inr t"
      "server_inv (ans_socket ans) (fcntl_fails xs) r t" "arrivals t = tl xs" "accepted t = 0" "handled t = []"
      "epoll_events t = replicate kMaxEventsPerPoll None" "completions t = queued (arrival_result strerror s0)"
      "server_ch r t = (if arrival_result strerror s0 = None then Some 0 else None)"
      unfolding queued_def s0(3-7) by auto
    have "server_main strerror ans ep r xs polls = server_loop strerror polls t" for polls
      using s0(1) t(1) by (simp add: server_main_def server_construct_def)
    then show ?thesis using that(2) [of t, OF _ t(2,7,5,8,6)] serve False t(3,4) by simp
  qed
qed

lemma server_loop_outcome:
  assumes "server_state l k r s" "\<forall>ws \<in> set polls. answers_ok e ws"
  shows "\<exists>res. server_loop strerror polls s = Some res \<and> poll_outcome l k e r s res"
  using assms
proof (induction polls arbitrary: s)
  case Nil
  then show ?case by (simp add: poll_outcome_def)
next
  case (Cons ws polls)
  from server_Poll_outcome [OF Cons.prems(1), of e ws strerror] Cons.prems(2) obtain res where
    res: "server_Poll strerror ws s = Some res" "poll_outcome l k e r s res" by auto
  show ?case
  proof (cases res)
    case (Inl f)
    with res show ?thesis by simp
  next
    case (Inr t)
    with res(2) have t: "server_state l k r t" "all_written s \<longrightarrow> all_written t" by (auto simp: poll_outcome_def)
    from Cons.IH [OF t(1)] Cons.prems(2) obtain res' where
      "server_loop strerror polls t = Some res'" "poll_outcome l k e r t res'" by auto
    then show ?thesis using res(1) Inr outcome_trans [OF t] by simp
  qed
qed

lemma idle_loop:
  assumes "completions t = []"
  shows "server_loop strerror (replicate n []) t = Some (Inr t)"
  using assms by (induction n) (simp_all add: server_Poll_def io_Poll_def complete_loop_empty)

text \<open>An event that fills less than the whole array.\<close>

lemma first_event:
  assumes t: "server_inv l k r t" "completions t = []" "epoll_events t = replicate kMaxEventsPerPoll None"
    and es: "0 < length es" "length es < 100"
  shows "server_loop strerror (((int (length es), es) # ws) # polls) t = Some (Inl unwritten)
    \<or> (k \<and> server_loop strerror (((int (length es), es) # ws) # polls) t = Some (Inl died))"
proof -
  let ?t = "t\<lparr>epoll_events := map Some es @ drop (length es) (epoll_events t)\<rparr>"
  have st: "server_state l k r ?t"
    using t es by (intro server_state_events) (simp_all add: server_state_def kMaxEventsPerPoll_def)
  have "epoll_events ?t ! 99 = None" using es t(3) by (simp add: nth_append kMaxEventsPerPoll_def)
  moreover have "99 \<in> set [0..<kMaxEventsPerPoll]" by (simp add: kMaxEventsPerPoll_def)
  ultimately have "\<not> (\<forall>i \<in> set [0..<kMaxEventsPerPoll]. epoll_events ?t ! i \<noteq> None)" by blast
  with server_dispatch [OF st, of strerror "[0..<kMaxEventsPerPoll]"]
  have "dispatch_entries (server_Handle strerror) [0..<kMaxEventsPerPoll] ?t = Inl unwritten
    \<or> (k \<and> dispatch_entries (server_Handle strerror) [0..<kMaxEventsPerPoll] ?t = Inl died)" by presburger
  then show ?thesis
    using MoreEvents_stores [OF es(1), of t] by (auto simp: server_Poll_def io_Poll_def complete_loop_empty t(2))
qed

text \<open>One connection is waiting when the server starts, on descriptor 5.\<close>

definition one_socket :: acceptor_answers where
  "one_socket = \<lparr>ans_socket = 4, ans_fcntl = 0, ans_bind = 0, ans_listen = 0, ans_ctl = 0\<rparr>"

lemma one_socket_starts: "start_fault one_socket (Some 80) = None"
  by (simp add: start_fault_def one_socket_def)





end
