(* ===== verification/Lang_CondVar.thy ===== *)
theory Lang_CondVar
  imports Prelude
begin

text \<open>
  \<^verbatim>\<open>src/random/test_unique_lock_0.cpp\<close>, \<^verbatim>\<open>test_condition_var_0.cpp\<close> and
  \<^verbatim>\<open>src/lang/random/test_condition_var_0.cpp\<close>: two threads, one mutex, one condition variable. A thread is
  the list of its accesses to what is shared; \<open>cv_steps\<close> are the steps the threads can take, in any
  order, and a spurious wake-up is one too, counted apart. Every access to the variables is made under
  the mutex, so that steps are atomic. Sleeping only delays a thread and is left out.
\<close>

section \<open>Threads, the mutex and the condition variable\<close>

datatype 'g instr =
    Lock
  | Unlock
  | WaitUntil "'g \<Rightarrow> bool"
  | Wait
  | NotifyOne
  | Do "'g \<Rightarrow> 'g"
  | Join nat

datatype status = Running | Blocked | Relocking

record 'g threads =
  pc :: "nat list"
  status :: "status list"
  owner :: "nat option"
  shared :: "'g"
  misused :: bool

type_synonym 'g program = "'g instr list list"

definition start_threads :: "'g program \<Rightarrow> 'g \<Rightarrow> 'g threads" where
  "start_threads prog g = \<lparr>pc = map (\<lambda>_. 0) prog, status = map (\<lambda>_. Running) prog, owner = None, shared = g, misused = False\<rparr>"

definition pass_instr :: "nat \<Rightarrow> 'g threads \<Rightarrow> 'g threads" where
  "pass_instr t s = s\<lparr>pc := (pc s)[t := Suc (pc s ! t)]\<rparr>"

definition set_status :: "nat \<Rightarrow> status \<Rightarrow> 'g threads \<Rightarrow> 'g threads" where
  "set_status t x s = s\<lparr>status := (status s)[t := x]\<rparr>"

text \<open>\<^verbatim>\<open>cv.wait\<close> releases the mutex and blocks in one step; a woken thread locks the mutex again, and
  with a predicate tests it again. Unlocking or waiting without the mutex is undefined: \<open>misused\<close>.\<close>

definition block :: "nat \<Rightarrow> 'g threads \<Rightarrow> 'g threads" where
  "block t s = set_status t Blocked (s\<lparr>owner := None\<rparr>)"

definition blocked :: "'g threads \<Rightarrow> nat list" where
  "blocked s = filter (\<lambda>u. status s ! u = Blocked) [0..<length (status s)]"

definition misuse :: "'g threads \<Rightarrow> 'g threads" where
  "misuse s = s\<lparr>misused := True\<rparr>"

fun perform :: "'g program \<Rightarrow> nat \<Rightarrow> 'g instr \<Rightarrow> 'g threads \<Rightarrow> 'g threads list" where
  "perform prog t Lock s = (if owner s = None then [pass_instr t (s\<lparr>owner := Some t\<rparr>)] else [])"
| "perform prog t Unlock s = (if owner s = Some t then [pass_instr t (s\<lparr>owner := None\<rparr>)] else [pass_instr t (misuse s)])"
| "perform prog t (WaitUntil p) s =
     (if owner s \<noteq> Some t then [pass_instr t (misuse s)] else if p (shared s) then [pass_instr t s] else [block t s])"
| "perform prog t Wait s = (if owner s \<noteq> Some t then [pass_instr t (misuse s)] else [block t s])"
| "perform prog t NotifyOne s =
     (if blocked s = [] then [pass_instr t s] else map (\<lambda>u. pass_instr t (set_status u Relocking s)) (blocked s))"
| "perform prog t (Do f) s = [pass_instr t (s\<lparr>shared := f (shared s)\<rparr>)]"
| "perform prog t (Join u) s = (if pc s ! u = length (prog ! u) then [pass_instr t s] else [])"

fun is_wait :: "'g instr \<Rightarrow> bool" where
  "is_wait Wait = True"
| "is_wait _ = False"

definition relock :: "'g program \<Rightarrow> nat \<Rightarrow> 'g threads \<Rightarrow> 'g threads" where
  "relock prog t s =
     (let s' = set_status t Running (s\<lparr>owner := Some t\<rparr>)
      in if is_wait (prog ! t ! (pc s ! t)) then pass_instr t s' else s')"

definition thread_steps :: "'g program \<Rightarrow> 'g threads \<Rightarrow> nat \<Rightarrow> 'g threads list" where
  "thread_steps prog s t =
     (case status s ! t of
        Running \<Rightarrow> if pc s ! t < length (prog ! t) then perform prog t (prog ! t ! (pc s ! t)) s else []
      | Blocked \<Rightarrow> []
      | Relocking \<Rightarrow> if owner s = None then [relock prog t s] else [])"

definition cv_steps :: "'g program \<Rightarrow> 'g threads \<Rightarrow> 'g threads list" where
  "cv_steps prog s = concat (map (thread_steps prog s) [0..<length prog])"

definition spurious_steps :: "'g threads \<Rightarrow> 'g threads list" where
  "spurious_steps s = map (\<lambda>u. set_status u Relocking s) (blocked s)"

definition finished :: "'g program \<Rightarrow> 'g threads \<Rightarrow> bool" where
  "finished prog s \<longleftrightarrow> pc s = map length prog"

text \<open>\<open>cv_run prog g n k s\<close>: some schedule leads to \<open>s\<close> in \<open>n\<close> steps and \<open>k\<close> spurious wake-ups.\<close>

inductive cv_run :: "'g program \<Rightarrow> 'g \<Rightarrow> nat \<Rightarrow> nat \<Rightarrow> 'g threads \<Rightarrow> bool" for prog g where
  start: "cv_run prog g 0 0 (start_threads prog g)"
| step: "cv_run prog g n k s \<Longrightarrow> s' \<in> set (cv_steps prog s) \<Longrightarrow> cv_run prog g (Suc n) k s'"
| spurious: "cv_run prog g n k s \<Longrightarrow> s' \<in> set (spurious_steps s) \<Longrightarrow> cv_run prog g n (Suc k) s'"

section \<open>The programs\<close>

text \<open>\<^verbatim>\<open>random/test_unique_lock_0.cpp\<close>: thread 0 is \<^verbatim>\<open>main\<close> after it has started thread 1. The printed
  numbers are \<^verbatim>\<open>__LINE__\<close>.\<close>

record handshake =
  g_done_1 :: bool
  g_done_2 :: bool
  printed :: "nat list"

definition print_line :: "nat \<Rightarrow> handshake \<Rightarrow> handshake" where
  "print_line n g = g\<lparr>printed := printed g @ [n]\<rparr>"

definition handshake_main :: "handshake instr list" where
  "handshake_main =
     [Lock, Do (g_done_1_update (\<lambda>_. True)), Do (print_line 32), Unlock, NotifyOne,
      Lock, WaitUntil g_done_2, Do (print_line 41), Unlock, Join 1]"

definition WaitingThreadRunner :: "handshake instr list" where
  "WaitingThreadRunner =
     [Lock, WaitUntil g_done_1, Do (print_line 15), Unlock,
      Lock, Do (g_done_2_update (\<lambda>_. True)), Do (print_line 21), Unlock, NotifyOne]"

definition handshake_program :: "handshake program" where
  "handshake_program = [handshake_main, WaitingThreadRunner]"

definition handshake_start :: handshake where
  "handshake_start = \<lparr>g_done_1 = False, g_done_2 = False, printed = []\<rparr>"

text \<open>\<^verbatim>\<open>random/test_condition_var_0.cpp\<close>: the thread waits without a predicate.\<close>

definition notify_main :: "nat list instr list" where
  "notify_main = [NotifyOne, Do (\<lambda>out. out @ [24]), Join 1]"

definition plain_wait_thread :: "nat list instr list" where
  "plain_wait_thread = [Lock, Wait, Unlock, Do (\<lambda>out. out @ [16])]"

definition notify_program :: "nat list program" where
  "notify_program = [notify_main, plain_wait_thread]"

text \<open>\<^verbatim>\<open>lang/random/test_condition_var_0.cpp\<close>: the threads \<^verbatim>\<open>one\<close> and \<^verbatim>\<open>two\<close>, and
  \<^verbatim>\<open>Test0\<close>, which joins both. A string is kept as the literals it is made of.\<close>

datatype worker_text = WorkerProcessing | DoneProcessing | SomeData | AfterProcessing

fun text_of :: "worker_text \<Rightarrow> string" where
  "text_of WorkerProcessing = ''worker thread is processing''"
| "text_of DoneProcessing = ''done processing''"
| "text_of SomeData = ''some data ''"
| "text_of AfterProcessing = ''after processing''"

record worker =
  data :: "worker_text list"
  ready :: bool
  processed :: bool
  out_lines :: "worker_text list list"

definition put_line :: "worker_text list \<Rightarrow> worker \<Rightarrow> worker" where
  "put_line x g = g\<lparr>out_lines := out_lines g @ [x]\<rparr>"

definition worker_one :: "worker instr list" where
  "worker_one =
     [Lock, WaitUntil ready, Do (put_line [WorkerProcessing]),
      Do (\<lambda>g. g\<lparr>data := data g @ [AfterProcessing]\<rparr>), Do (processed_update (\<lambda>_. True)),
      Do (put_line [DoneProcessing]), Unlock, NotifyOne]"

definition worker_two :: "worker instr list" where
  "worker_two =
     [Lock, Do (\<lambda>g. g\<lparr>data := [SomeData]\<rparr>), Do (ready_update (\<lambda>_. True)), Unlock, NotifyOne,
      Lock, WaitUntil processed, Do (\<lambda>g. put_line (data g) g), Unlock]"

definition worker_program :: "worker program" where
  "worker_program = [worker_one, worker_two, [Join 0, Join 1]]"

definition worker_start :: worker where
  "worker_start = \<lparr>data = [], ready = False, processed = False, out_lines = []\<rparr>"

section \<open>Every schedule ends\<close>

text \<open>A step either passes an instruction or goes one down in \<open>weight\<close>; only a wake-up goes up, and a
  notifying thread pays for it with its instruction.\<close>

fun weight :: "status \<Rightarrow> nat" where
  "weight Running = 1"
| "weight Blocked = 0"
| "weight Relocking = 2"

definition rank :: "'g program \<Rightarrow> 'g threads \<Rightarrow> nat" where
  "rank prog s = (\<Sum>t < length prog. 3 * (length (prog ! t) - pc s ! t) + weight (status s ! t))"

definition threads_wf :: "'g program \<Rightarrow> 'g threads \<Rightarrow> bool" where
  "threads_wf prog s \<longleftrightarrow> length (pc s) = length prog \<and> length (status s) = length prog
     \<and> (\<forall>t < length prog. pc s ! t \<le> length (prog ! t)
          \<and> (status s ! t \<noteq> Running \<longrightarrow> pc s ! t < length (prog ! t)))"

lemma sum_one_changed:
  fixes f f' :: "nat \<Rightarrow> nat"
  assumes "t < n" "\<And>u. u < n \<Longrightarrow> u \<noteq> t \<Longrightarrow> f' u = f u"
  shows "sum f' {..<n} + f t = sum f {..<n} + f' t"
proof -
  have "sum f' ({..<n} - {t}) = sum f ({..<n} - {t})" by (rule sum.cong) (use assms in auto)
  then show ?thesis using assms(1) by (simp add: sum.remove [of "{..<n}" t])
qed

lemma rank_pass_instr:
  assumes "threads_wf prog s" "t < length prog" "pc s ! t < length (prog ! t)"
  shows "rank prog (pass_instr t s) + 3 = rank prog s"
proof -
  have "rank prog (pass_instr t s) + (3 * (length (prog ! t) - pc s ! t) + weight (status s ! t))
      = rank prog s + (3 * (length (prog ! t) - Suc (pc s ! t)) + weight (status s ! t))"
    unfolding rank_def by (rule sum_one_changed [OF assms(2), THEN trans])
      (use assms in \<open>simp_all add: pass_instr_def threads_wf_def\<close>)
  with assms(3) show ?thesis by simp
qed

lemma rank_status:
  assumes "threads_wf prog s" "t < length prog"
  shows "rank prog (set_status t x s) + weight (status s ! t) = rank prog s + weight x"
proof -
  have "rank prog (set_status t x s) + (3 * (length (prog ! t) - pc s ! t) + weight (status s ! t))
      = rank prog s + (3 * (length (prog ! t) - pc s ! t) + weight x)"
    unfolding rank_def by (rule sum_one_changed [OF assms(2), THEN trans])
      (use assms in \<open>simp_all add: set_status_def threads_wf_def\<close>)
  then show ?thesis by simp
qed

lemma pass_instr_wf:
  "threads_wf prog s \<Longrightarrow> t < length prog \<Longrightarrow> pc s ! t < length (prog ! t) \<Longrightarrow> status s ! t = Running \<Longrightarrow>
     threads_wf prog (pass_instr t s)"
  by (auto simp: threads_wf_def pass_instr_def nth_list_update)

lemma set_status_wf:
  "threads_wf prog s \<Longrightarrow> t < length prog \<Longrightarrow> pc s ! t < length (prog ! t) \<Longrightarrow> threads_wf prog (set_status t x s)"
  by (auto simp: threads_wf_def set_status_def nth_list_update)

lemma rank_other [simp]:
  "rank prog (s\<lparr>owner := w\<rparr>) = rank prog s" "rank prog (s\<lparr>shared := g\<rparr>) = rank prog s" "rank prog (misuse s) = rank prog s"
  "threads_wf prog (s\<lparr>owner := w\<rparr>) = threads_wf prog s" "threads_wf prog (s\<lparr>shared := g\<rparr>) = threads_wf prog s"
  "threads_wf prog (misuse s) = threads_wf prog s" "pc (misuse s) = pc s" "status (misuse s) = status s"
  by (simp_all add: rank_def threads_wf_def misuse_def)

lemma pass_instr_ok:
  assumes "threads_wf prog s" "t < length prog" "pc s ! t < length (prog ! t)" "status s ! t = Running"
  shows "threads_wf prog (pass_instr t s)" "rank prog (pass_instr t s) < rank prog s"
  using pass_instr_wf [OF assms] rank_pass_instr [OF assms(1-3)] by simp_all

lemma blockedD: "u \<in> set (blocked s) \<Longrightarrow> u < length (status s) \<and> status s ! u = Blocked"
  by (simp add: blocked_def)

lemma perform_ok:
  assumes wf: "threads_wf prog s" and t: "t < length prog" "pc s ! t < length (prog ! t)" "status s ! t = Running"
    and "s' \<in> set (perform prog t i s)"
  shows "threads_wf prog s' \<and> rank prog s' < rank prog s"
proof -
  have adv: "threads_wf prog (pass_instr t u) \<and> rank prog (pass_instr t u) < rank prog s"
    if "threads_wf prog u" "rank prog u = rank prog s" "pc u = pc s" "status u = status s" for u
    using pass_instr_ok [OF that(1) t(1)] t that(2-4) by simp
  have blk: "threads_wf prog (block t s) \<and> rank prog (block t s) < rank prog s"
  proof -
    have "threads_wf prog (s\<lparr>owner := None\<rparr>)" using wf by simp
    from rank_status [OF this t(1), of Blocked] set_status_wf [OF this t(1), of Blocked] t
    show ?thesis by (simp add: block_def)
  qed
  show ?thesis
  proof (cases i)
    case NotifyOne
    show ?thesis
    proof (cases "blocked s = []")
      case True
      with NotifyOne assms(5) adv [OF wf] show ?thesis by simp
    next
      case False
      with NotifyOne assms(5) obtain u where u: "u \<in> set (blocked s)" "s' = pass_instr t (set_status u Relocking s)" by auto
      have ul: "u < length prog" "status s ! u = Blocked" using blockedD [OF u(1)] wf by (simp_all add: threads_wf_def)
      then have "pc s ! u < length (prog ! u)" "u \<noteq> t" using wf t(3) by (auto simp: threads_wf_def)
      then have w: "threads_wf prog (set_status u Relocking s)" using set_status_wf [OF wf ul(1)] by simp
      have "status (set_status u Relocking s) ! t = Running" "pc (set_status u Relocking s) = pc s"
        using t(3) \<open>u \<noteq> t\<close> by (simp_all add: set_status_def)
      with rank_pass_instr [OF w t(1)] pass_instr_wf [OF w t(1)] rank_status [OF wf ul(1), of Relocking] t(2) ul(2) u(2)
      show ?thesis by simp
    qed
  qed (use assms(5) adv wf blk in \<open>auto split: if_splits\<close>)
qed

lemma relock_ok:
  assumes wf: "threads_wf prog s" and t: "t < length prog" "status s ! t = Relocking"
  shows "threads_wf prog (relock prog t s) \<and> rank prog (relock prog t s) < rank prog s"
proof -
  let ?u = "s\<lparr>owner := Some t\<rparr>"
  let ?s = "set_status t Running ?u"
  have pc: "pc s ! t < length (prog ! t)" using wf t by (auto simp: threads_wf_def)
  have u: "threads_wf prog ?u" using wf by simp
  have s: "threads_wf prog ?s" "rank prog ?s < rank prog s"
    using set_status_wf [OF u t(1)] rank_status [OF u t(1), of Running] t(2) pc by simp_all
  have "status ?s ! t = Running" "pc ?s ! t < length (prog ! t)"
    using pc wf t(1) by (simp_all add: set_status_def threads_wf_def)
  with pass_instr_ok [OF s(1) t(1)] s show ?thesis by (simp add: relock_def Let_def)
qed

lemma cv_steps_ok:
  assumes "threads_wf prog s" "s' \<in> set (cv_steps prog s)"
  shows "threads_wf prog s' \<and> rank prog s' < rank prog s"
proof -
  obtain t where t: "t < length prog" "s' \<in> set (thread_steps prog s t)"
    using assms(2) by (auto simp: cv_steps_def)
  then show ?thesis
    using perform_ok [OF assms(1) t(1)] relock_ok [OF assms(1) t(1)]
    by (cases "status s ! t") (auto simp: thread_steps_def split: if_splits)
qed

lemma spurious_ok:
  assumes wf: "threads_wf prog s" and "s' \<in> set (spurious_steps s)"
  shows "threads_wf prog s' \<and> rank prog s' = rank prog s + 2"
proof -
  obtain u where u: "u \<in> set (blocked s)" "s' = set_status u Relocking s" using assms(2) by (auto simp: spurious_steps_def)
  have ul: "u < length prog" "status s ! u = Blocked" using blockedD [OF u(1)] wf by (simp_all add: threads_wf_def)
  then have "pc s ! u < length (prog ! u)" using wf by (auto simp: threads_wf_def)
  with set_status_wf [OF wf ul(1)] rank_status [OF wf ul(1), of Relocking] ul(2) u(2) show ?thesis by simp
qed

lemma start_threads_wf: "threads_wf prog (start_threads prog g)"
  by (simp add: threads_wf_def start_threads_def)

lemma cv_run_rank:
  "cv_run prog g n k s \<Longrightarrow> threads_wf prog s \<and> rank prog s + n \<le> rank prog (start_threads prog g) + 2 * k"
proof (induction rule: cv_run.induct)
  case (step n k s s')
  with cv_steps_ok [of prog s s'] show ?case by simp
next
  case (spurious n k s s')
  with spurious_ok [of prog s s'] show ?case by simp
qed (simp add: start_threads_wf)

lemma rank_start: "rank prog (start_threads prog g) = 3 * length (concat prog) + length prog"
proof -
  have "rank prog (start_threads prog g) = (\<Sum>t < length prog. 3 * length (prog ! t) + 1)"
    unfolding rank_def by (rule sum.cong) (simp_all add: start_threads_def)
  also have "\<dots> = 3 * (\<Sum>t < length prog. length (prog ! t)) + length prog"
    by (simp only: sum.distrib sum_distrib_left [symmetric]) simp
  also have "(\<Sum>t < length prog. length (prog ! t)) = length (concat prog)"
    by (simp add: length_concat sum_list_sum_nth atLeast0LessThan)
  finally show ?thesis .
qed

text \<open>No schedule goes on for ever: the number of steps is bounded by the size of the program and the
  number of spurious wake-ups.\<close>

lemma cv_run_bounded:
  "cv_run prog g n k s \<Longrightarrow> n \<le> 3 * length (concat prog) + length prog + 2 * k"
  using cv_run_rank [of prog g n k s] by (simp add: rank_start)

section \<open>Schedules\<close>

fun follow :: "'g program \<Rightarrow> nat list \<Rightarrow> 'g threads \<Rightarrow> 'g threads option" where
  "follow prog [] s = Some s"
| "follow prog (t # ts) s =
     (if t < length prog then case thread_steps prog s t of [] \<Rightarrow> None | s' # _ \<Rightarrow> follow prog ts s' else None)"

lemma follow_run:
  "cv_run prog g n k s \<Longrightarrow> follow prog ts s = Some s' \<Longrightarrow> cv_run prog g (n + length ts) k s'"
proof (induction ts arbitrary: n s)
  case (Cons t ts)
  then obtain u rest where u: "t < length prog" "thread_steps prog s t = u # rest" "follow prog ts u = Some s'"
    by (auto split: if_splits list.splits)
  then have "u \<in> set (cv_steps prog s)" by (auto simp: cv_steps_def intro!: bexI [of _ t])
  from Cons.IH [OF cv_run.step [OF Cons.prems(1) this] u(3)] show ?case by simp
qed simp

section \<open>Exploring the states\<close>

definition all_steps :: "'g program \<Rightarrow> 'g threads \<Rightarrow> 'g threads list" where
  "all_steps prog s = cv_steps prog s @ spurious_steps s"

fun explore :: "'g program \<Rightarrow> nat \<Rightarrow> 'g threads list \<Rightarrow> 'g threads list \<Rightarrow> 'g threads list" where
  "explore prog 0 seen todo = seen"
| "explore prog (Suc n) seen [] = seen"
| "explore prog (Suc n) seen (s # todo) =
     (if s \<in> set seen then explore prog n seen todo
      else explore prog n (s # seen) (all_steps prog s @ todo))"

definition closed_under :: "'g program \<Rightarrow> 'g \<Rightarrow> 'g threads list \<Rightarrow> bool" where
  "closed_under prog g L \<longleftrightarrow> start_threads prog g \<in> set L
     \<and> list_all (\<lambda>s. list_all (\<lambda>s'. s' \<in> set L) (all_steps prog s)) L"

lemma closed_reachable:
  assumes "closed_under prog g L"
  shows "cv_run prog g n k s \<Longrightarrow> s \<in> set L"
proof (induction rule: cv_run.induct)
  case (step n k s s')
  then show ?case using assms by (auto simp: closed_under_def all_steps_def list_all_iff)
next
  case (spurious n k s s')
  then show ?case using assms by (auto simp: closed_under_def all_steps_def list_all_iff)
qed (use assms in \<open>simp add: closed_under_def\<close>)

definition check_states :: "'g program \<Rightarrow> 'g \<Rightarrow> nat \<Rightarrow> ('g threads \<Rightarrow> bool) \<Rightarrow> bool" where
  "check_states prog g n P = (let L = explore prog n [] [start_threads prog g] in closed_under prog g L \<and> list_all P L)"

lemma check_states_sound: "check_states prog g n P \<Longrightarrow> cv_run prog g m k s \<Longrightarrow> P s"
  using closed_reachable [of prog g "explore prog n [] [start_threads prog g]" m k s]
  by (simp add: check_states_def Let_def list_all_iff)

text \<open>Not stuck: finished, or some thread can take a step that is not a spurious wake-up.\<close>

definition live :: "'g program \<Rightarrow> 'g threads \<Rightarrow> bool" where
  "live prog s \<longleftrightarrow> \<not> misused s \<and> (finished prog s \<or> cv_steps prog s \<noteq> [])"

lemma handshake_states:
  "check_states handshake_program handshake_start 1000
     (\<lambda>s. live handshake_program s \<and> (finished handshake_program s \<longrightarrow> printed (shared s) = [32, 15, 21, 41]))"
  by code_simp

lemma worker_states:
  "check_states worker_program worker_start 1000
     (\<lambda>s. live worker_program s \<and> (finished worker_program s \<longrightarrow> out_lines (shared s) =
        [[WorkerProcessing], [DoneProcessing], [SomeData, AfterProcessing]]))"
  by code_simp

section \<open>What the programs do\<close>

definition texts_of :: "worker_text list list \<Rightarrow> string list" where
  "texts_of = map (\<lambda>l. concat (map text_of l))"

text \<open>The one way \<open>notify_program\<close> can be stuck, and a wake-up that lets it finish.\<close>

definition lost :: "nat list threads \<Rightarrow> bool" where
  "lost s \<longleftrightarrow> pc s = [2, 1] \<and> status s = [Running, Blocked] \<and> shared s = [24]"

definition rescued :: "nat list threads \<Rightarrow> bool" where
  "rescued s \<longleftrightarrow> list_ex (\<lambda>s'. case follow notify_program [1, 1, 1, 0] s' of None \<Rightarrow> False
     | Some u \<Rightarrow> finished notify_program u \<and> shared u = [24, 16]) (spurious_steps s)"

lemma notify_states:
  "check_states notify_program [] 1000
     (\<lambda>s. \<not> misused s \<and> (cv_steps notify_program s = [] \<longrightarrow>
        finished notify_program s \<and> (shared s = [24, 16] \<or> shared s = [16, 24]) \<or> lost s \<and> rescued s))"
  by code_simp

lemma rescued_run:
  assumes "cv_run notify_program [] n k s" "rescued s"
  shows "\<exists>u. cv_run notify_program [] (n + 4) (Suc k) u \<and> finished notify_program u"
proof -
  from assms(2) obtain s' u where u: "s' \<in> set (spurious_steps s)" "follow notify_program [1, 1, 1, 0] s' = Some u"
    "finished notify_program u"
    unfolding rescued_def list_ex_iff by (auto simp del: follow.simps split: option.splits)
  from follow_run [OF cv_run.spurious [OF assms(1) u(1)] u(2)]
  have "cv_run notify_program [] (n + 4) (Suc k) u" by (simp add: eval_nat_numeral)
  with u(3) show ?thesis by blast
qed

text \<open>
  C24. The handshake of two threads through two flags works under every schedule: the mutex is never
  misused, the number of steps is bounded, and when no thread can take a step both have ended and
  the four lines have been printed in one order.
\<close>

theorem handshake_completes:
  assumes "cv_run handshake_program handshake_start n k s"
  shows "\<not> misused s \<and> n \<le> 59 + 2 * k
    \<and> (cv_steps handshake_program s = [] \<longrightarrow>
        finished handshake_program s \<and> printed (shared s) = [32, 15, 21, 41])"
proof -
  have "length (concat handshake_program) = 19" "length handshake_program = 2"
    by (simp_all add: handshake_program_def handshake_main_def WaitingThreadRunner_def)
  then show ?thesis
    using check_states_sound [OF handshake_states assms] cv_run_bounded [OF assms] by (auto simp: live_def)
qed

theorem handshake_completes_witness:
  "\<exists>s. cv_run handshake_program handshake_start 23 0 s \<and> \<not> misused s \<and> printed (shared s) = [32, 15, 21, 41]"
proof -
  have "map_option (cv_steps handshake_program)
      (follow handshake_program [1,1,0,0,0,0,0,1,1,1,1,0,0,1,1,1,1,1,0,0,0,0,0] (start_threads handshake_program handshake_start))
    = Some []"
    by code_simp
  then obtain s where s: "follow handshake_program [1,1,0,0,0,0,0,1,1,1,1,0,0,1,1,1,1,1,0,0,0,0,0]
      (start_threads handshake_program handshake_start) = Some s" "cv_steps handshake_program s = []" by auto
  from follow_run [OF cv_run.start s(1)] have "cv_run handshake_program handshake_start 23 0 s" by (simp add: eval_nat_numeral)
  with handshake_completes [OF this] s(2) show ?thesis by blast
qed

text \<open>The worker and the thread that hands it its data: the same, with the texts they print.\<close>

theorem worker_completes:
  assumes "cv_run worker_program worker_start n k s"
  shows "\<not> misused s \<and> n \<le> 60 + 2 * k
    \<and> (cv_steps worker_program s = [] \<longrightarrow> finished worker_program s \<and> texts_of (out_lines (shared s)) =
        [''worker thread is processing'', ''done processing'', ''some data after processing''])"
proof -
  have "length (concat worker_program) = 19" "length worker_program = 3"
    by (simp_all add: worker_program_def worker_one_def worker_two_def)
  then show ?thesis
    using check_states_sound [OF worker_states assms] cv_run_bounded [OF assms] by (auto simp: live_def texts_of_def)
qed

text \<open>
  C25. A thread that waits without testing a condition can miss its notification: when \<^verbatim>\<open>main\<close> notifies
  before it waits, the program never ends unless the thread wakes up spuriously. Every schedule that
  comes to a stop has either finished, with the two lines in either order, or is stuck like this, and
  a stuck program finishes after one spurious wake-up.
\<close>

theorem wakeup_lost:
  "(\<exists>s. cv_run notify_program [] 4 0 s \<and> cv_steps notify_program s = [] \<and> \<not> finished notify_program s)
   \<and> (\<forall>n k s. cv_run notify_program [] n k s \<longrightarrow> cv_steps notify_program s = [] \<longrightarrow>
        finished notify_program s \<and> (shared s = [24, 16] \<or> shared s = [16, 24])
        \<or> lost s \<and> (\<exists>u. cv_run notify_program [] (n + 4) (Suc k) u \<and> finished notify_program u))"
proof (intro conjI allI impI)
  have "map_option (\<lambda>s. (cv_steps notify_program s, finished notify_program s))
      (follow notify_program [0, 0, 1, 1] (start_threads notify_program [])) = Some ([], False)"
    by code_simp
  then obtain s where s: "follow notify_program [0, 0, 1, 1] (start_threads notify_program []) = Some s"
    "cv_steps notify_program s = []" "\<not> finished notify_program s" by auto
  from follow_run [OF cv_run.start s(1)] have "cv_run notify_program [] 4 0 s" by (simp add: eval_nat_numeral)
  with s show "\<exists>s. cv_run notify_program [] 4 0 s \<and> cv_steps notify_program s = [] \<and> \<not> finished notify_program s" by blast
next
  fix n k s
  assume s: "cv_run notify_program [] n k s" "cv_steps notify_program s = []"
  with check_states_sound [OF notify_states s(1)]
  show "finished notify_program s \<and> (shared s = [24, 16] \<or> shared s = [16, 24])
      \<or> lost s \<and> (\<exists>u. cv_run notify_program [] (n + 4) (Suc k) u \<and> finished notify_program u)"
    using rescued_run [OF s(1)] by blast
qed

text \<open>The schedule in which the thread waits first.\<close>

theorem wakeup_lost_witness:
  "\<exists>s. cv_run notify_program [] 8 0 s \<and> cv_steps notify_program s = []
    \<and> (finished notify_program s \<and> (shared s = [24, 16] \<or> shared s = [16, 24]) \<or> lost s)"
proof -
  have "map_option (cv_steps notify_program)
      (follow notify_program [1, 1, 0, 0, 1, 1, 1, 0] (start_threads notify_program [])) = Some []" by code_simp
  then obtain s where s: "follow notify_program [1, 1, 0, 0, 1, 1, 1, 0] (start_threads notify_program []) = Some s"
    "cv_steps notify_program s = []" by auto
  from follow_run [OF cv_run.start s(1)] have run: "cv_run notify_program [] 8 0 s" by (simp add: eval_nat_numeral)
  from wakeup_lost [THEN conjunct2, rule_format, OF run s(2)] run s(2) show ?thesis by blast
qed

end
