(* ===== verification/Lang_Linkage.thy ===== *)
theory Lang_Linkage
  imports Main
begin

text \<open>
  \<^verbatim>\<open>src/lang/linkage/static_members\<close>: two shared libraries that include the same class template with
  static members, and the test that compares the addresses they see. An address is the entity with the
  translation unit that owns it, or none for an entity the whole program shares. A translation
  unit defines what is \<^verbatim>\<open>inline\<close> or \<^verbatim>\<open>static\<close> in the header; a static member that is only declared in the
  class has no definition anywhere.
\<close>

section \<open>The header\<close>

datatype unit_name = Src1 | Src2

datatype entity = SMem | SStringView | NonAddressable | SomeFunction

definition internal_linkage :: "entity \<Rightarrow> bool" where
  "internal_linkage e \<longleftrightarrow> e = SomeFunction"

definition defined_in_header :: "entity \<Rightarrow> bool" where
  "defined_in_header e \<longleftrightarrow> e \<noteq> NonAddressable"

type_synonym address = "unit_name option \<times> entity"

definition address_of :: "unit_name \<Rightarrow> entity \<Rightarrow> address" where
  "address_of u e = (if internal_linkage e then Some u else None, e)"

section \<open>The two units\<close>

definition one_getStaticMember :: address where
  "one_getStaticMember = address_of Src1 SMem"

definition two_getStaticMember :: address where
  "two_getStaticMember = address_of Src2 SMem"

text \<open>What is printed, and the address of the result.\<close>

definition one_getStaticMemberStringView :: "address list \<times> address" where
  "one_getStaticMemberStringView =
     (map (address_of Src1) [SStringView, SomeFunction, NonAddressable], address_of Src1 SStringView)"

definition two_getStaticMemberStringView :: "address list \<times> address" where
  "two_getStaticMemberStringView =
     (map (address_of Src2) [SStringView, SomeFunction, NonAddressable], address_of Src2 SStringView)"

definition linkage_Test0 :: "address list" where
  "linkage_Test0 = [one_getStaticMember, two_getStaticMember]"

definition linkage_Test1 :: "address list" where
  "linkage_Test1 =
     (let (p, a) = one_getStaticMemberStringView; (q, b) = two_getStaticMemberStringView in p @ [a] @ q @ [b])"

text \<open>The entities whose address is taken without a definition: the symbols the linker cannot resolve.\<close>

definition unresolved :: "address list \<Rightarrow> entity list" where
  "unresolved as = remdups (filter (\<lambda>e. \<not> defined_in_header e) (map snd as))"

section \<open>What the test shows\<close>

lemmas linkage_defs = linkage_Test0_def linkage_Test1_def one_getStaticMember_def two_getStaticMember_def
  one_getStaticMemberStringView_def two_getStaticMemberStringView_def address_of_def internal_linkage_def
  unresolved_def defined_in_header_def

text \<open>The static members are one object in both units and the static function is not; but the program
  does not link, because of \<^verbatim>\<open>non_addressable\<close>, and only because of it.\<close>

lemma static_members_shared:
  "one_getStaticMember = two_getStaticMember"
  "snd one_getStaticMemberStringView = snd two_getStaticMemberStringView"
  "address_of Src1 SomeFunction \<noteq> address_of Src2 SomeFunction"
  by (simp_all add: linkage_defs)

lemma static_members_unresolved: "unresolved (linkage_Test0 @ linkage_Test1) = [NonAddressable]"
  by (simp add: linkage_defs)

end
