(* ===== verification/Posix_Servers.thy ===== *)
theory Posix_Servers
  imports Prelude "HOL-Library.Word"
begin

unbundle bit_operations_syntax

text \<open>
  \<^verbatim>\<open>src/posix_test/unix/test_nonblocking_accept.cpp\<close>, \<^verbatim>\<open>test_poll.cpp\<close> and
  \<^verbatim>\<open>src/posix_test/linux/test_epoll.cpp\<close>: three programs that wait for one connection on a non-blocking
  socket. The answers of the system calls are arguments: one element of a list for every round of a
  loop, and a loop that has used up its list has not returned yet (\<open>None\<close>). What the programs print on
  the way is left out. \<^verbatim>\<open>EAGAIN\<close> and \<^verbatim>\<open>EWOULDBLOCK\<close> are the same number.
\<close>

section \<open>Opening the socket\<close>

datatype server_end =
    Connected int
  | CallFailed string
  | UnknownDescriptor int
  | ReadsUnwritten

definition posix_EAGAIN :: int where "posix_EAGAIN = 11"
definition posix_POLLIN :: "16 word" where "posix_POLLIN = 1"

record open_answers =
  a_socket :: int
  a_fcntl :: int
  a_bind :: int
  a_listen :: int

definition open_server :: "open_answers \<Rightarrow> server_end + int" where
  "open_server a =
     (if a_socket a < 0 then Inl (CallFailed ''socket'')
      else if a_fcntl a = -1 then Inl (CallFailed ''fcntl'')
      else if a_bind a < 0 then Inl (CallFailed ''bind'')
      else if a_listen a < 0 then Inl (CallFailed ''listen'')
      else Inr (a_socket a))"

text \<open>One call of \<^verbatim>\<open>accept\<close>: its result and \<^verbatim>\<open>errno\<close>; nothing means that the loop goes on.\<close>

definition try_accept :: "int \<times> int \<Rightarrow> server_end option" where
  "try_accept answer =
     (if fst answer = -1 then if snd answer \<noteq> posix_EAGAIN then Some (CallFailed ''accept'') else None
      else Some (Connected (fst answer)))"

section \<open>The loops\<close>

fun accept_loop :: "(int \<times> int) list \<Rightarrow> server_end option" where
  "accept_loop [] = None"
| "accept_loop (x # xs) = (case try_accept x of Some r \<Rightarrow> Some r | None \<Rightarrow> accept_loop xs)"

record poll_round =
  ready :: int
  revents :: "16 word"
  answer :: "int \<times> int"

fun poll_loop :: "poll_round list \<Rightarrow> server_end option" where
  "poll_loop [] = None"
| "poll_loop (x # xs) =
     (if ready x = -1 then Some (CallFailed ''poll'')
      else if ready x = 0 then poll_loop xs
      else if revents x AND posix_POLLIN \<noteq> 0 then
        (case try_accept (answer x) of Some r \<Rightarrow> Some r | None \<Rightarrow> poll_loop xs)
      else poll_loop xs)"

text \<open>\<^verbatim>\<open>for (auto& e : events)\<close> walks the whole array; an entry is the descriptor it names, and \<open>answers\<close>
  are those of the successive calls of \<^verbatim>\<open>accept\<close>.\<close>

fun walk_events :: "int \<Rightarrow> int option list \<Rightarrow> (int \<times> int) list \<Rightarrow> server_end option" where
  "walk_events fd [] answers = None"
| "walk_events fd (None # es) answers = Some ReadsUnwritten"
| "walk_events fd (Some d # es) answers =
     (if d \<noteq> fd then Some (UnknownDescriptor d)
      else case answers of
        [] \<Rightarrow> None
      | x # xs \<Rightarrow> (case try_accept x of Some r \<Rightarrow> Some r | None \<Rightarrow> walk_events fd es xs))"

record epoll_round =
  nfds :: int
  stored :: "int list"
  answers :: "(int \<times> int) list"

fun epoll_loop :: "int \<Rightarrow> int option list \<Rightarrow> epoll_round list \<Rightarrow> server_end option" where
  "epoll_loop fd events [] = None"
| "epoll_loop fd events (x # xs) =
     (if nfds x \<le> -1 then Some (CallFailed ''epoll_wait'')
      else if nfds x = 0 then epoll_loop fd events xs
      else
        let events = map Some (stored x) @ drop (length (stored x)) events
        in case walk_events fd events (answers x) of
             Some r \<Rightarrow> Some r
           | None \<Rightarrow> epoll_loop fd events xs)"

definition accept_server :: "open_answers \<Rightarrow> (int \<times> int) list \<Rightarrow> server_end option" where
  "accept_server a xs = (case open_server a of Inl e \<Rightarrow> Some e | Inr fd \<Rightarrow> accept_loop xs)"

definition poll_server :: "open_answers \<Rightarrow> poll_round list \<Rightarrow> server_end option" where
  "poll_server a xs = (case open_server a of Inl e \<Rightarrow> Some e | Inr fd \<Rightarrow> poll_loop xs)"

definition epoll_server :: "open_answers \<Rightarrow> int \<Rightarrow> int \<Rightarrow> epoll_round list \<Rightarrow> server_end option" where
  "epoll_server a epollfd ctl xs =
     (case open_server a of
        Inl e \<Rightarrow> Some e
      | Inr fd \<Rightarrow>
          if epollfd = -1 then Some (CallFailed ''epoll_create1'')
          else if ctl = -1 then Some (CallFailed ''epoll_ctl'')
          else epoll_loop fd (replicate 100 None) xs)"

text \<open>\<^verbatim>\<open>return 0\<close> for a connection, 1 for everything else; \<^verbatim>\<open>RunServer\<close> of the first program returns
  nothing and its \<^verbatim>\<open>main\<close> always 0.\<close>

definition exit_status :: "server_end \<Rightarrow> int" where
  "exit_status r = (case r of Connected _ \<Rightarrow> 0 | _ \<Rightarrow> 1)"

section \<open>What they wait for\<close>

lemma accept_loop_find:
  "accept_loop xs = (case dropWhile (\<lambda>x. x = (-1, posix_EAGAIN)) xs of [] \<Rightarrow> None | x # _ \<Rightarrow> try_accept x)"
  by (induction xs) (auto simp: try_accept_def)

definition reports :: "poll_round \<Rightarrow> bool" where
  "reports x \<longleftrightarrow> ready x \<noteq> 0 \<and> revents x AND posix_POLLIN \<noteq> 0"

text \<open>
  The server that polls is the server that accepts, on the answers of the rounds in which the socket
  is readable; and it ends at the first answer that is not \<^verbatim>\<open>EAGAIN\<close>.
\<close>

theorem poll_server_accepts:
  assumes "\<forall>x \<in> set xs. ready x \<noteq> -1"
  shows "poll_server a xs = accept_server a (map answer (filter reports xs))
    \<and> (open_server a = Inr fd \<longrightarrow> poll_server a xs =
        (case dropWhile (\<lambda>x. x = (-1, posix_EAGAIN)) (map answer (filter reports xs)) of [] \<Rightarrow> None | x # _ \<Rightarrow> try_accept x))"
proof -
  have "poll_loop xs = accept_loop (map answer (filter reports xs))"
    using assms by (induction xs) (auto simp: reports_def split: option.splits)
  then show ?thesis by (auto simp: poll_server_def accept_server_def accept_loop_find split: sum.splits)
qed

theorem poll_server_accepts_witness:
  "poll_server \<lparr>a_socket = 3, a_fcntl = 0, a_bind = 0, a_listen = 0\<rparr>
     [\<lparr>ready = 0, revents = 0, answer = (-1, 9)\<rparr>, \<lparr>ready = 1, revents = 1, answer = (-1, 11)\<rparr>,
      \<lparr>ready = 1, revents = 1, answer = (4, 0)\<rparr>] = Some (Connected 4)"
  using poll_server_accepts [of "[\<lparr>ready = 0, revents = 0, answer = (-1, 9)\<rparr>, \<lparr>ready = 1, revents = 1, answer = (-1, 11)\<rparr>,
      \<lparr>ready = 1, revents = 1, answer = (4, 0)\<rparr>]" "\<lparr>a_socket = 3, a_fcntl = 0, a_bind = 0, a_listen = 0\<rparr>"]
  by (simp add: accept_server_def open_server_def reports_def posix_POLLIN_def try_accept_def posix_EAGAIN_def)

text \<open>
  The server on epoll looks at all 100 entries of its array. In the first round with events, all of the
  socket and fewer than 100, it ends at the first answer that is not \<^verbatim>\<open>EAGAIN\<close>; if there is none,
  because the client is gone again, it reads an entry that was never written.
\<close>

theorem epoll_server_first_round:
  assumes "open_server a = Inr fd" "0 < n" "n < 100" "length xs = n"
  shows "epoll_server a 5 0 (replicate k \<lparr>nfds = 0, stored = [], answers = []\<rparr>
       @ \<lparr>nfds = int n, stored = replicate n fd, answers = xs\<rparr> # rest)
    = Some (case accept_loop xs of Some r \<Rightarrow> r | None \<Rightarrow> ReadsUnwritten)"
proof -
  have walk: "walk_events fd (map Some (replicate m fd) @ None # es) ys =
      Some (case accept_loop ys of Some r \<Rightarrow> r | None \<Rightarrow> ReadsUnwritten)" if "length ys = m" for m es ys
    using that by (induction m arbitrary: ys) (auto simp: length_Suc_conv split: option.splits)
  have "drop n (replicate 100 None) = (None :: int option) # replicate (99 - n) None"
    using assms(3) by (simp add: Suc_diff_Suc flip: replicate_Suc)
  with walk [OF assms(4)] assms(1-2)
  show ?thesis by (induction k) (simp_all add: epoll_server_def)
qed

end
