(* ===== verification/Timtim_Loops.thy ===== *)
theory Timtim_Loops
  imports Prelude "HOL-Library.Multiset"
begin

text \<open>
  Three programs of \<^verbatim>\<open>src/timtim\<close>: \<^verbatim>\<open>fibonacci_0.cpp\<close>, \<^verbatim>\<open>string_bracket_balance.cpp\<close> and
  \<^verbatim>\<open>nondeclining_sequences.cpp\<close>. An \<^verbatim>\<open>int\<close> is an integer whose additions are checked
  (\<open>add_int\<close>: signed overflow is undefined behaviour); the data the programs have as literals
  are arguments.
\<close>

section \<open>Checked arithmetic\<close>

definition int_range :: "int \<Rightarrow> bool" where
  "int_range i \<longleftrightarrow> - (2 ^ 31) \<le> i \<and> i < 2 ^ 31"

definition add_int :: "int \<Rightarrow> int \<Rightarrow> fault + int" where
  "add_int a b = (if int_range (a + b) then Inr (a + b) else Inl (Undefined ''signed overflow''))"

lemma add_int_ok [simp]: "int_range (a + b) \<Longrightarrow> add_int a b = Inr (a + b)"
  by (simp add: add_int_def)

lemma add_int_overflow [simp]: "2 ^ 31 \<le> a + b \<Longrightarrow> add_int a b = Inl (Undefined ''signed overflow'')"
  by (simp add: add_int_def int_range_def)

definition newline :: string where "newline = [CHR 0x0A]"

section \<open>fibonacci-0.cpp\<close>

partial_function (option) fib_loop ::
    "int \<Rightarrow> int \<Rightarrow> int \<Rightarrow> int \<Rightarrow> int \<Rightarrow> (fault + int \<times> int) option" where
  "fib_loop A f_n_2 f_n_1 n f_n =
     (if f_n < A then
        (let f_n_2 = f_n_1; f_n_1 = f_n in
         case add_int f_n_1 f_n_2 of
           Inl e \<Rightarrow> Some (Inl e)
         | Inr f_n \<Rightarrow>
             (case add_int n 1 of
                Inl e \<Rightarrow> Some (Inl e)
              | Inr n \<Rightarrow> fib_loop A f_n_2 f_n_1 n f_n))
      else Some (Inr (n, f_n)))"

definition fibonacci :: "int \<Rightarrow> (fault + string) option" where
  "fibonacci A =
     (case fib_loop A 0 1 2 1 of
        None \<Rightarrow> None
      | Some r \<Rightarrow> Some (bind_res r (\<lambda>(n, f_n).
          Inr (if f_n = A then show_int n @ newline else show_int (-1) @ newline))))"

fun fib :: "nat \<Rightarrow> int" where
  "fib 0 = 0"
| "fib (Suc 0) = 1"
| "fib (Suc (Suc n)) = fib (Suc n) + fib n"

declare fib.simps(3) [simp del]

lemma fib_pair: "((\<lambda>(a, b). (b, a + b)) ^^ n) (0, 1) = (fib n, fib (Suc n))"
  by (induction n) (simp_all add: fib.simps(3))

lemma fib_values: "fib 45 = 1134903170" "fib 46 = 1836311903" "fib 47 = 2971215073"
proof -
  have "(fib 45, fib (Suc 45)) = (1134903170, 1836311903)"
    unfolding fib_pair [symmetric] by (simp add: numeral_eq_Suc)
  then show v: "fib 45 = 1134903170" "fib 46 = 1836311903" by simp_all
  have "fib 47 = fib 46 + fib 45" using fib.simps(3) [of 45] by simp
  with v show "fib 47 = 2971215073" by simp
qed

lemma fib_nonneg: "0 \<le> fib n"
  by (induction n rule: fib.induct) (simp_all add: fib.simps(3))

lemma fib_pos: "0 < n \<Longrightarrow> 0 < fib n"
proof (induction n rule: fib.induct)
  case (3 n)
  then show ?case using fib_nonneg [of n] by (simp add: fib.simps(3))
qed simp_all

lemma fib_mono: "m \<le> n \<Longrightarrow> fib m \<le> fib n"
proof (induction n)
  case (Suc n)
  have "fib n \<le> fib (Suc n)" by (cases n) (simp_all add: fib.simps(3) fib_nonneg)
  with Suc show ?case by (cases "m = Suc n") auto
qed simp

lemma fib_strict: "2 \<le> m \<Longrightarrow> m < n \<Longrightarrow> fib m < fib n"
proof -
  assume mn: "2 \<le> m" "m < n"
  then obtain k where k: "m = Suc (Suc k)" by (metis add_2_eq_Suc le_Suc_ex)
  have "fib m < fib (Suc m)" using fib_pos [of "Suc k"] fib.simps(3) [of "Suc k"] k by simp
  also have "\<dots> \<le> fib n" using mn by (intro fib_mono) simp
  finally show ?thesis .
qed

text \<open>One round keeps \<^verbatim>\<open>f_n = fib n\<close>, up to the last Fibonacci number below \<open>2\<^sup>3\<^sup>1\<close>.\<close>

lemma fib_loop_round:
  "fib_loop A (fib k) (fib (Suc k)) (int k + 2) (fib (Suc (Suc k))) =
     (if fib (Suc (Suc k)) < A then
        if 44 \<le> k then Some (Inl (Undefined ''signed overflow''))
        else fib_loop A (fib (Suc k)) (fib (Suc (Suc k))) (int (Suc k) + 2) (fib (Suc (Suc (Suc k))))
      else Some (Inr (int k + 2, fib (Suc (Suc k)))))"
proof (cases "fib (Suc (Suc k)) < A \<and> k < 44")
  case True
  then have "fib (Suc (Suc (Suc k))) \<le> fib 46" by (intro fib_mono) simp
  with True have "int_range (fib (Suc (Suc k)) + fib (Suc k))" "int_range (int k + 2 + 1)"
    using fib_nonneg [of "Suc (Suc (Suc k))"] fib_values fib.simps(3) [of "Suc k"] by (simp_all add: int_range_def)
  with True show ?thesis by (subst fib_loop.simps) (simp add: Let_def fib.simps(3) [of "Suc k"] add.commute add.left_commute)
next
  case False
  show ?thesis
  proof (cases "fib (Suc (Suc k)) < A")
    case True
    with False have "fib 47 \<le> fib (Suc (Suc (Suc k)))" by (intro fib_mono) simp
    then have "2 ^ 31 \<le> fib (Suc (Suc k)) + fib (Suc k)" using fib_values fib.simps(3) [of "Suc k"] by simp
    with True False show ?thesis by (subst fib_loop.simps) (simp add: Let_def)
  qed (simp add: fib_loop.simps)
qed

lemma fib_loop_finds:
  assumes "k \<le> m" "m \<le> 44" "A \<le> fib (Suc (Suc m))" "\<forall>j. k \<le> j \<and> j < m \<longrightarrow> fib (Suc (Suc j)) < A"
  shows "fib_loop A (fib k) (fib (Suc k)) (int k + 2) (fib (Suc (Suc k))) = Some (Inr (int m + 2, fib (Suc (Suc m))))"
  using assms
proof (induction "m - k" arbitrary: k)
  case 0
  then have eq: "k = m" by simp
  with 0 show ?case unfolding eq fib_loop_round [of A m] by simp
next
  case (Suc d)
  then have "fib (Suc (Suc k)) < A" "\<not> 44 \<le> k" by auto
  moreover have "fib_loop A (fib (Suc k)) (fib (Suc (Suc k))) (int (Suc k) + 2) (fib (Suc (Suc (Suc k))))
      = Some (Inr (int m + 2, fib (Suc (Suc m))))"
    using Suc.prems Suc.hyps(2) by (intro Suc.hyps(1)) auto
  ultimately show ?case unfolding fib_loop_round [of A k] by simp
qed

lemma fib_loop_overflows:
  assumes "fib 46 < A" "k \<le> 44"
  shows "fib_loop A (fib k) (fib (Suc k)) (int k + 2) (fib (Suc (Suc k))) = Some (Inl (Undefined ''signed overflow''))"
  using assms(2)
proof (induction "44 - k" arbitrary: k)
  case 0
  then have "Suc (Suc k) = 46" by simp
  with assms(1) 0 show ?case unfolding fib_loop_round [of A k] by simp
next
  case (Suc d)
  have "fib (Suc (Suc k)) \<le> fib 46" using Suc.prems by (intro fib_mono) simp
  with assms(1) have "fib (Suc (Suc k)) < A" by simp
  moreover have "d = 44 - Suc k" "Suc k \<le> 44" "\<not> 44 \<le> k" using Suc.hyps(2) by auto
  moreover note Suc.hyps(1) [of "Suc k"]
  ultimately show ?case unfolding fib_loop_round [of A k] by simp
qed

text \<open>
  The Fibonacci program always returns. Up to 1836311903 (\<open>fib 46\<close>) it prints the index
  \<open>n \<ge> 2\<close> of its input when that is a Fibonacci number and -1 otherwise (so -1 for 0); above that
  bound the loop overflows a signed \<^verbatim>\<open>int\<close> before it can stop.
\<close>

theorem fibonacci_bounds:
  "(\<forall>n. 2 \<le> n \<and> n \<le> 46 \<longrightarrow> fibonacci (fib n) = Some (Inr (show_nat n @ newline)))
   \<and> (\<forall>A \<le> fib 46. (\<forall>n \<ge> 2. fib n \<noteq> A) \<longrightarrow> fibonacci A = Some (Inr (''-1'' @ newline)))
   \<and> (\<forall>A > fib 46. fibonacci A = Some (Inl (Undefined ''signed overflow'')))"
proof -
  have start: "fib_loop A 0 1 2 1 = fib_loop A (fib 0) (fib (Suc 0)) (int 0 + 2) (fib (Suc (Suc 0)))" for A
    by (simp add: fib.simps(3))
  have found: "\<exists>m \<le> 44. fib_loop A 0 1 2 1 = Some (Inr (int m + 2, fib (Suc (Suc m))))
      \<and> A \<le> fib (Suc (Suc m)) \<and> (\<forall>j<m. fib (Suc (Suc j)) < A)" if A: "A \<le> fib 46" for A
  proof -
    define m where "m = (LEAST m. A \<le> fib (Suc (Suc m)))"
    have ex: "A \<le> fib (Suc (Suc 44))" using A by (simp add: numeral_eq_Suc)
    have m: "A \<le> fib (Suc (Suc m))" "m \<le> 44"
      unfolding m_def by (rule LeastI, rule ex, rule Least_le, rule ex)
    have less: "\<forall>j<m. fib (Suc (Suc j)) < A"
      unfolding m_def using not_less_Least by (meson not_le)
    then have "fib_loop A 0 1 2 1 = Some (Inr (int m + 2, fib (Suc (Suc m))))"
      unfolding start using m by (intro fib_loop_finds) auto
    with m less show ?thesis by blast
  qed
  show ?thesis
  proof (intro conjI allI impI)
    fix n :: nat assume n: "2 \<le> n \<and> n \<le> 46"
    then have "fib n \<le> fib 46" by (intro fib_mono) simp
    from found [OF this] obtain m where m: "m \<le> 44" "fib_loop (fib n) 0 1 2 1 = Some (Inr (int m + 2, fib (Suc (Suc m))))"
      "fib n \<le> fib (Suc (Suc m))" "\<forall>j<m. fib (Suc (Suc j)) < fib n" by blast
    have eq: "Suc (Suc m) = n"
    proof (rule linorder_cases [of "Suc (Suc m)" n])
      assume "Suc (Suc m) < n"
      then show ?thesis using fib_strict [of "Suc (Suc m)" n] m(3) by simp
    next
      assume "n < Suc (Suc m)"
      moreover from n obtain j where "n = Suc (Suc j)" by (metis add_2_eq_Suc le_Suc_ex)
      ultimately show ?thesis using m(4) by auto
    qed
    then have "nat (int m + 2) = n" by simp
    with m(2) eq show "fibonacci (fib n) = Some (Inr (show_nat n @ newline))"
      by (simp add: fibonacci_def show_int_def)
  next
    fix A assume A: "A \<le> fib 46" "\<forall>n\<ge>2. fib n \<noteq> A"
    from found [OF A(1)] obtain m where "fib_loop A 0 1 2 1 = Some (Inr (int m + 2, fib (Suc (Suc m))))" by blast
    moreover have "fib (Suc (Suc m)) \<noteq> A" using A(2) by simp
    ultimately show "fibonacci A = Some (Inr (''-1'' @ newline))"
      by (simp add: fibonacci_def show_int_def show_nat.simps)
  next
    fix A assume A: "fib 46 < A"
    then show "fibonacci A = Some (Inl (Undefined ''signed overflow''))"
      unfolding fibonacci_def start using fib_loop_overflows [OF A, of 0] by simp
  qed
qed

theorem fibonacci_bounds_witness:
  "fibonacci 1836311903 = Some (Inr (show_nat 46 @ newline))
   \<and> fibonacci 4 = Some (Inr (''-1'' @ newline))
   \<and> fibonacci 2147483647 = Some (Inl (Undefined ''signed overflow''))"
proof -
  have "fib n \<noteq> 4" if "2 \<le> n" for n
  proof (cases "n \<le> 4")
    case True
    with that have "n = 2 \<or> n = 3 \<or> n = 4" by auto
    then show ?thesis by (auto simp: numeral_eq_Suc fib.simps(3))
  next
    case False
    then have "fib 5 \<le> fib n" by (intro fib_mono) simp
    then show ?thesis by (simp add: numeral_eq_Suc fib.simps(3))
  qed
  moreover note fibonacci_bounds [THEN conjunct1, rule_format, of 46]
    fibonacci_bounds [THEN conjunct2, THEN conjunct1, rule_format, of 4]
    fibonacci_bounds [THEN conjunct2, THEN conjunct2, rule_format, of 2147483647]
  ultimately show ?thesis by (simp add: fib_values)
qed

section \<open>string-bracket-balance.cpp\<close>

text \<open>\<open>arr\<close> is the character array, terminating NUL included; reading behind it is undefined.
  The first loop counts up to the NUL, the second one up to the size.\<close>

function size_loop :: "string \<Rightarrow> nat \<Rightarrow> fault + nat" where
  "size_loop arr sz =
     (if sz < length arr then
        if arr ! sz \<noteq> CHR 0x00 then size_loop arr (sz + 1) else Inr (sz + 1)
      else Inl (Undefined ''read past the end''))"
  by pat_completeness auto
termination by (relation "measure (\<lambda>(arr, sz). length arr - sz)") auto

function bracket_loop :: "string \<Rightarrow> nat \<Rightarrow> nat \<Rightarrow> int \<Rightarrow> int" where
  "bracket_loop arr sz i n =
     (if i < sz then
        let n = (if arr ! i = CHR ''('' then n + 1 else n);
            n = (if arr ! i = CHR '')'' then n - 1 else n)
        in if n < 0 then n else bracket_loop arr sz (i + 1) n
      else n)"
  by pat_completeness auto
termination by (relation "measure (\<lambda>(arr, sz, i, n). sz - i)") auto

declare size_loop.simps [simp del] bracket_loop.simps [simp del]

definition bracket_balance :: "string \<Rightarrow> fault + string" where
  "bracket_balance arr =
     bind_res (size_loop arr 0) (\<lambda>sz.
       let sz = sz - 1; n = bracket_loop arr sz 0 0
       in Inr (if n \<noteq> 0 then ''no'' @ newline else ''yes'' @ newline))"

inductive balanced :: "string \<Rightarrow> bool" where
  empty: "balanced []"
| other: "c \<noteq> CHR ''('' \<Longrightarrow> c \<noteq> CHR '')'' \<Longrightarrow> balanced s \<Longrightarrow> balanced (c # s)"
| nest: "balanced s \<Longrightarrow> balanced t \<Longrightarrow> balanced (CHR ''('' # s @ CHR '')'' # t)"

text \<open>The loop on the characters still to be read.\<close>

fun depth :: "string \<Rightarrow> int \<Rightarrow> int" where
  "depth [] n = n"
| "depth (c # s) n =
     (let n = (if c = CHR ''('' then n + 1 else n); n = (if c = CHR '')'' then n - 1 else n)
      in if n < 0 then n else depth s n)"

lemma size_loop_finds:
  "CHR 0x00 \<notin> set s \<Longrightarrow> size_loop (r @ s @ CHR 0x00 # rest) (length r) = Inr (length r + length s + 1)"
proof (induction s arbitrary: r)
  case Nil
  then show ?case by (simp add: size_loop.simps [of "r @ CHR 0x00 # rest"])
next
  case (Cons c s)
  from Cons.IH [of "r @ [c]"] Cons.prems show ?case
    by (subst size_loop.simps) auto
qed

lemma bracket_loop_depth:
  "bracket_loop (r @ s @ rest) (length r + length s) (length r) n = depth s n"
proof (induction s arbitrary: r n)
  case Nil
  then show ?case by (simp add: bracket_loop.simps)
next
  case (Cons c s)
  from Cons.IH [of "r @ [c]"] show ?case
    by (subst bracket_loop.simps) (simp add: Let_def nth_append)
qed

lemma balanced_depth: "balanced s \<Longrightarrow> 0 \<le> n \<Longrightarrow> depth (s @ t) n = depth t n"
  by (induction arbitrary: n t rule: balanced.induct) simp_all

text \<open>\<open>closes k s\<close>: \<open>s\<close> closes \<open>k\<close> open brackets and is balanced apart from that.\<close>

fun closes :: "nat \<Rightarrow> string \<Rightarrow> bool" where
  "closes 0 s = balanced s"
| "closes (Suc k) s = (\<exists>a b. s = a @ CHR '')'' # b \<and> balanced a \<and> closes k b)"

lemma closes_other:
  "c \<noteq> CHR ''('' \<Longrightarrow> c \<noteq> CHR '')'' \<Longrightarrow> closes k s \<Longrightarrow> closes k (c # s)"
proof (induction k s rule: closes.induct)
  case (2 k s)
  then obtain a b where s: "s = a @ CHR '')'' # b" "balanced a" "closes k b" by auto
  then have "c # s = (c # a) @ CHR '')'' # b" "balanced (c # a)"
    using 2 by (auto intro: balanced.other)
  with s(3) show ?case unfolding closes.simps by blast
qed (auto intro: balanced.other)

lemma closes_open: "closes (Suc k) s \<Longrightarrow> closes k (CHR ''('' # s)"
proof (cases k)
  case 0
  assume "closes (Suc k) s"
  with 0 show ?thesis by (auto intro: balanced.nest)
next
  case (Suc j)
  assume "closes (Suc k) s"
  then obtain a b c where s: "s = a @ CHR '')'' # b @ CHR '')'' # c" "balanced a" "balanced b" "closes j c"
    using Suc by auto
  have "balanced (CHR ''('' # a @ CHR '')'' # b)" using s by (intro balanced.nest)
  moreover have "CHR ''('' # s = (CHR ''('' # a @ CHR '')'' # b) @ CHR '')'' # c" using s(1) by simp
  ultimately show ?thesis unfolding Suc closes.simps using s(4) by blast
qed

lemma depth_closes: "depth s (int k) = 0 \<Longrightarrow> closes k s"
proof (induction s arbitrary: k)
  case Nil
  then show ?case by (auto intro: balanced.empty)
next
  case (Cons c s)
  consider "c = CHR ''(''" | "c = CHR '')''" | "c \<noteq> CHR ''(''" "c \<noteq> CHR '')''" by blast
  then show ?case
  proof cases
    case 1
    with Cons.prems have "depth s (int (Suc k)) = 0" by (simp add: add.commute)
    from closes_open [OF Cons.IH [OF this]] 1 show ?thesis by simp
  next
    case 2
    with Cons.prems obtain j where j: "k = Suc j" by (cases k) auto
    with 2 Cons.prems have "depth s (int j) = 0" by simp
    then have "closes j s" by (rule Cons.IH)
    moreover have "c # s = [] @ CHR '')'' # s" using 2 by simp
    ultimately show ?thesis unfolding j closes.simps using balanced.empty by blast
  next
    case 3
    with Cons.prems have "depth s (int k) = 0" by (simp split: if_splits)
    from closes_other [OF 3 Cons.IH [OF this]] show ?thesis .
  qed
qed



section \<open>nondeclining-sequences.cpp\<close>

text \<open>The output array has room for \<open>cap\<close> numbers; \<open>out\<close> are those written so far, so \<^verbatim>\<open>k\<close> is its
  length.\<close>

definition put :: "nat \<Rightarrow> int \<Rightarrow> int list \<Rightarrow> fault + int list" where
  "put cap x out =
     (if length out < cap then Inr (out @ [x]) else Inl (Undefined ''write past the end''))"

function merge_loop :: "int list \<Rightarrow> int list \<Rightarrow> nat \<Rightarrow> nat \<Rightarrow> nat \<Rightarrow> int list \<Rightarrow> fault + (nat \<times> nat \<times> int list)" where
  "merge_loop seq1 seq2 cap i j out =
     (if i < length seq1 \<and> j < length seq2 then
        if seq1 ! i < seq2 ! j then
          bind_res (put cap (seq1 ! i) out) (merge_loop seq1 seq2 cap (i + 1) j)
        else bind_res (put cap (seq2 ! j) out) (merge_loop seq1 seq2 cap i (j + 1))
      else Inr (i, j, out))"
  by pat_completeness auto
termination by (relation "measure (\<lambda>(s1, s2, cap, i, j, out). length s1 + length s2 - i - j)") auto

function rest1_loop :: "int list \<Rightarrow> nat \<Rightarrow> nat \<Rightarrow> int list \<Rightarrow> fault + int list" where
  "rest1_loop seq1 cap ii out =
     (if ii < length seq1 then bind_res (put cap (seq1 ! ii) out) (rest1_loop seq1 cap (ii + 1))
      else Inr out)"
  by pat_completeness auto
termination by (relation "measure (\<lambda>(s1, cap, ii, out). length s1 - ii)") auto

text \<open>The third loop steps \<^verbatim>\<open>j\<close> and tests \<^verbatim>\<open>jj\<close>, which never changes.\<close>

function rest2_loop :: "int list \<Rightarrow> nat \<Rightarrow> nat \<Rightarrow> nat \<Rightarrow> int list \<Rightarrow> fault + int list" where
  "rest2_loop seq2 cap jj j out =
     (if jj < length seq2 then bind_res (put cap (seq2 ! jj) out) (rest2_loop seq2 cap jj (j + 1))
      else Inr out)"
  by pat_completeness auto
termination
  by (relation "measure (\<lambda>(s2, cap, jj, j, out). cap - length out)") (auto simp: put_def split: if_splits)

declare merge_loop.simps [simp del] rest1_loop.simps [simp del] rest2_loop.simps [simp del]

definition nondeclining :: "int list \<Rightarrow> int list \<Rightarrow> fault + string" where
  "nondeclining seq1 seq2 =
     (let cap = length seq1 + length seq2 in
      bind_res (merge_loop seq1 seq2 cap 0 0 []) (\<lambda>(i, j, out).
      bind_res (rest1_loop seq1 cap i out) (\<lambda>out.
      bind_res (rest2_loop seq2 cap j j out) (\<lambda>out.
        Inr (concat (map (\<lambda>x. show_int x @ '' '') out) @ newline)))))"

text \<open>The first loop as a function of the numbers still to be merged: what it writes and what it
  leaves of both sequences.\<close>

fun merged :: "int list \<Rightarrow> int list \<Rightarrow> int list \<times> int list \<times> int list" where
  "merged [] ys = ([], [], ys)"
| "merged (x # xs) [] = ([], x # xs, [])"
| "merged (x # xs) (y # ys) =
     (if x < y then let (c, r) = merged xs (y # ys) in (x # c, r)
      else let (c, r) = merged (x # xs) ys in (y # c, r))"

lemma drop_nth: "i < length xs \<Longrightarrow> drop i xs = xs ! i # drop (Suc i) xs"
  by (simp add: Cons_nth_drop_Suc)

lemma merge_loop_merged:
  assumes "i \<le> length s1" "j \<le> length s2" "length out = i + j" "length s1 + length s2 \<le> cap"
    and "merged (drop i s1) (drop j s2) = (c, r1, r2)"
  shows "\<exists>i' j'. merge_loop s1 s2 cap i j out = Inr (i', j', out @ c)
    \<and> i' \<le> length s1 \<and> j' \<le> length s2 \<and> drop i' s1 = r1 \<and> drop j' s2 = r2 \<and> length (out @ c) = i' + j'"
  using assms
proof (induction s1 s2 cap i j out arbitrary: c rule: merge_loop.induct)
  case (1 s1 s2 cap i j out)
  show ?case
  proof (cases "i < length s1 \<and> j < length s2")
    case False
    then have "drop i s1 = [] \<or> drop j s2 = []" by auto
    then have "c = []" "r1 = drop i s1" "r2 = drop j s2"
      using 1(7) by (auto elim: merged.elims)
    moreover from False have "merge_loop s1 s2 cap i j out = Inr (i, j, out)"
      by (subst merge_loop.simps) auto
    ultimately show ?thesis using 1(3-5) by simp
  next
    case True
    then have heads: "drop i s1 = s1 ! i # drop (Suc i) s1" "drop j s2 = s2 ! j # drop (Suc j) s2"
      by (simp_all add: drop_nth)
    have room: "length out < cap" using True 1(5,6) by simp
    show ?thesis
    proof (cases "s1 ! i < s2 ! j")
      case less: True
      obtain c' where c: "c = s1 ! i # c'" "merged (drop (Suc i) s1) (drop j s2) = (c', r1, r2)"
        using 1(7) less heads by (auto split: prod.splits)
      have "\<exists>i' j'. merge_loop s1 s2 cap (i + 1) j (out @ [s1 ! i]) = Inr (i', j', (out @ [s1 ! i]) @ c')
        \<and> i' \<le> length s1 \<and> j' \<le> length s2 \<and> drop i' s1 = r1 \<and> drop j' s2 = r2
        \<and> length ((out @ [s1 ! i]) @ c') = i' + j'"
        using True 1(4-6) c by (intro 1(1) [OF True less]) (auto simp: put_def room)
      then show ?thesis
        using True less room c by (simp add: merge_loop.simps [of s1 s2 cap i j] put_def)
    next
      case ge: False
      obtain c' where c: "c = s2 ! j # c'" "merged (drop i s1) (drop (Suc j) s2) = (c', r1, r2)"
        using 1(7) ge heads by (auto split: prod.splits)
      have "\<exists>i' j'. merge_loop s1 s2 cap i (j + 1) (out @ [s2 ! j]) = Inr (i', j', (out @ [s2 ! j]) @ c')
        \<and> i' \<le> length s1 \<and> j' \<le> length s2 \<and> drop i' s1 = r1 \<and> drop j' s2 = r2
        \<and> length ((out @ [s2 ! j]) @ c') = i' + j'"
        using True 1(3,5,6) c by (intro 1(2) [OF True ge]) (auto simp: put_def room)
      then show ?thesis
        using True ge room c by (simp add: merge_loop.simps [of s1 s2 cap i j] put_def)
    qed
  qed
qed

lemma rest1_loop_copies:
  "length out + (length s1 - ii) \<le> cap \<Longrightarrow> rest1_loop s1 cap ii out = Inr (out @ drop ii s1)"
proof (induction s1 cap ii out rule: rest1_loop.induct)
  case (1 s1 cap ii out)
  then show ?case
    by (cases "ii < length s1") (simp_all add: rest1_loop.simps [of s1 cap ii] put_def drop_nth)
qed

lemma rest2_loop_diverges:
  "rest2_loop s2 cap jj j out =
     (if jj < length s2 then Inl (Undefined ''write past the end'') else Inr out)"
proof (induction s2 cap jj j out rule: rest2_loop.induct)
  case (1 s2 cap jj j out)
  then show ?case
    by (cases "length out < cap") (simp_all add: rest2_loop.simps [of s2 cap jj j] put_def)
qed

lemma merged_facts:
  assumes "sorted xs" "sorted ys" "merged xs ys = (c, r1, r2)"
  shows "mset (c @ r1 @ r2) = mset xs + mset ys \<and> (r1 = [] \<or> r2 = []) \<and> sorted (c @ r1 @ r2)
    \<and> (r2 = [] \<longleftrightarrow> ys = [] \<or> (xs \<noteq> [] \<and> last ys \<le> last xs))"
  using assms
proof (induction xs ys arbitrary: c r1 r2 rule: merged.induct)
  case (3 x xs y ys)
  have last_ge: "y \<le> last (y # ys)" "x \<le> last (x # xs)"
    using 3(3,4) by auto
  show ?case
  proof (cases "x < y")
    case True
    then obtain c' where c: "c = x # c'" "merged xs (y # ys) = (c', r1, r2)"
      using 3(5) by (auto split: prod.splits)
    note IH = 3(1) [OF True _ 3(4) c(2)]
    have "sorted xs" using 3(3) by simp
    note IH = IH [OF this]
    have "\<forall>z \<in> set (c' @ r1 @ r2). x \<le> z"
    proof
      fix z assume "z \<in> set (c' @ r1 @ r2)"
      then have "z \<in># mset xs + mset (y # ys)" using IH by (metis set_mset_mset)
      then have "z \<in> set xs \<or> z \<in> set (y # ys)" by auto
      then show "x \<le> z" using 3(3,4) True by auto
    qed
    with IH c True last_ge show ?thesis by (cases "xs = []") auto
  next
    case False
    then obtain c' where c: "c = y # c'" "merged (x # xs) ys = (c', r1, r2)"
      using 3(5) by (auto split: prod.splits)
    have "sorted ys" using 3(4) by simp
    note IH = 3(2) [OF False 3(3) this c(2)]
    have "\<forall>z \<in> set (c' @ r1 @ r2). y \<le> z"
    proof
      fix z assume "z \<in> set (c' @ r1 @ r2)"
      then have "z \<in># mset (x # xs) + mset ys" using IH by (metis set_mset_mset)
      then have "z \<in> set (x # xs) \<or> z \<in> set ys" by auto
      then show "y \<le> z" using 3(3,4) False by auto
    qed
    with IH c False last_ge show ?thesis by (cases "ys = []") auto
  qed
qed auto

text \<open>
  On non-declining sequences the merge program prints the sorted merge, each number followed by a
  space, exactly when the first sequence ends with the greater number (ties included). Otherwise
  its third loop, which steps the wrong variable, writes past the end of the output array.
\<close>

theorem nondeclining_merges:
  assumes "sorted seq1" "sorted seq2"
  shows "nondeclining seq1 seq2 =
    (if seq2 = [] \<or> (seq1 \<noteq> [] \<and> last seq2 \<le> last seq1)
     then Inr (concat (map (\<lambda>x. show_int x @ '' '') (sort (seq1 @ seq2))) @ newline)
     else Inl (Undefined ''write past the end''))"
proof -
  obtain c r1 r2 where m: "merged seq1 seq2 = (c, r1, r2)" by (cases "merged seq1 seq2")
  note facts = merged_facts [OF assms m]
  obtain i j where loop: "merge_loop seq1 seq2 (length seq1 + length seq2) 0 0 [] = Inr (i, j, c)"
    "i \<le> length seq1" "j \<le> length seq2" "drop i seq1 = r1" "drop j seq2 = r2" "length c = i + j"
    using merge_loop_merged [of 0 seq1 0 seq2 "[]" "length seq1 + length seq2" c r1 r2] m by auto
  have rest1: "rest1_loop seq1 (length seq1 + length seq2) i c = Inr (c @ r1)"
    using rest1_loop_copies [of c seq1 i] loop by auto
  have rest2: "rest2_loop seq2 (length seq1 + length seq2) j j (c @ r1) =
      (if r2 \<noteq> [] then Inl (Undefined ''write past the end'') else Inr (c @ r1))"
    using loop by (auto simp: rest2_loop_diverges)
  have "c @ r1 = sort (seq1 @ seq2)" if "r2 = []"
    using facts that by (intro properties_for_sort [symmetric]) auto
  then show ?thesis
    using facts loop rest1 rest2 by (auto simp: nondeclining_def Let_def)
qed

theorem nondeclining_merges_witness:
  "nondeclining [1, 2, 3, 4, 5, 100, 1000] [6, 7, 8, 9, 10, 30, 120, 300, 500, 800] =
     Inr (''1 2 3 4 5 6 7 8 9 10 30 100 120 300 500 800 1000 '' @ newline)
   \<and> nondeclining [1] [2] = Inl (Undefined ''write past the end'')"
  using nondeclining_merges [of "[1, 2, 3, 4, 5, 100, 1000]" "[6, 7, 8, 9, 10, 30, 120, 300, 500, 800]"]
    nondeclining_merges [of "[1]" "[2]"]
  by (simp add: show_int_def show_nat.simps)

end
