(* ===== verification/Timtim_Matrix.thy ===== *)
theory Timtim_Matrix
  imports Timtim_Loops "HOL-Library.Signed_Division"
begin

text \<open>
  The matrix programs of \<^verbatim>\<open>src/timtim\<close>: \<^verbatim>\<open>matrix_average_column_sorting.cpp\<close> (its 3 by 3 matrix
  is an argument, \<open>N\<close> rows and columns), \<^verbatim>\<open>ex_1.cpp\<close>, and the stub \<^verbatim>\<open>SimpleVector.cpp\<close> with
  its tests. An array is a function of its indices; every loop stays below its bounds.
\<close>

section \<open>matrix-average-column-sorting.cpp\<close>

type_synonym matrix = "nat \<Rightarrow> nat \<Rightarrow> int"

fun sum_int :: "int list \<Rightarrow> int \<Rightarrow> fault + int" where
  "sum_int [] acc = Inr acc"
| "sum_int (x # xs) acc = bind_res (add_int acc x) (sum_int xs)"

definition column_average :: "matrix \<Rightarrow> nat \<Rightarrow> nat \<Rightarrow> fault + int" where
  "column_average m N col =
     bind_res (sum_int (map (\<lambda>row. m row col) [0..<N]) 0) (\<lambda>sum. Inr (signed_divide sum (int N)))"

fun compute_averages :: "matrix \<Rightarrow> nat \<Rightarrow> nat list \<Rightarrow> (nat \<Rightarrow> int) \<Rightarrow> fault + (nat \<Rightarrow> int)" where
  "compute_averages m N [] avg = Inr avg"
| "compute_averages m N (col # cols) avg =
     bind_res (column_average m N col) (\<lambda>a. compute_averages m N cols (avg(col := a)))"

definition max_pos :: "(nat \<Rightarrow> int) \<Rightarrow> nat \<Rightarrow> nat \<Rightarrow> nat" where
  "max_pos avg N i_col = fold (\<lambda>j p. if avg j > avg p then j else p) [Suc i_col..<N] i_col"

definition swap_columns :: "nat \<Rightarrow> nat \<Rightarrow> nat \<Rightarrow> matrix \<Rightarrow> matrix" where
  "swap_columns N a b m = (\<lambda>row. if row < N then (m row)(a := m row b, b := m row a) else m row)"

definition sort_column :: "nat \<Rightarrow> nat \<Rightarrow> matrix \<times> (nat \<Rightarrow> int) \<Rightarrow> matrix \<times> (nat \<Rightarrow> int)" where
  "sort_column N i_col s =
     (let (m, avg) = s; p = max_pos avg N i_col
      in if p \<noteq> i_col then (swap_columns N i_col p m, avg(i_col := avg p, p := avg i_col)) else (m, avg))"

definition print_matrix :: "nat \<Rightarrow> matrix \<Rightarrow> string" where
  "print_matrix N m =
     concat (map (\<lambda>row. (if row \<noteq> 0 then newline else [])
       @ concat (map (\<lambda>col. show_int (m row col) @ (if col \<noteq> N - 1 then '' '' else [])) [0..<N])) [0..<N])
     @ newline"

definition matrix_sort :: "nat \<Rightarrow> matrix \<Rightarrow> fault + string" where
  "matrix_sort N m =
     bind_res (compute_averages m N [0..<N] (\<lambda>_. 0)) (\<lambda>avg.
       let (m, avg) = fold (sort_column N) [0..<N] (m, avg) in Inr (print_matrix N m))"

lemma compute_averages_spec:
  "compute_averages m N cols avg = Inr avg' \<Longrightarrow>
     (\<forall>c \<in> set cols. column_average m N c = Inr (avg' c)) \<and> (\<forall>c. c \<notin> set cols \<longrightarrow> avg' c = avg c)"
proof (induction cols arbitrary: avg)
  case (Cons c cols)
  then obtain a where a: "column_average m N c = Inr a" "compute_averages m N cols (avg(c := a)) = Inr avg'"
    by (auto simp: bind_res_Inr_iff)
  with Cons.IH [OF a(2)] show ?case by (cases "c \<in> set cols") auto
qed simp

lemma max_pos_fold:
  "let q = fold (\<lambda>j p. if avg j > avg p then j else p) js p
   in q \<in> set (p # js) \<and> (\<forall>j \<in> set (p # js). (avg :: nat \<Rightarrow> int) j \<le> avg q)"
proof (induction js arbitrary: p)
  case (Cons j js)
  show ?case
    using Cons.IH [of j] Cons.IH [of p] by (auto simp: Let_def intro: order.trans less_imp_le)
qed simp

lemma max_pos_spec:
  assumes "i < N"
  shows "i \<le> max_pos avg N i" "max_pos avg N i < N" "i \<le> j \<Longrightarrow> j < N \<Longrightarrow> avg j \<le> avg (max_pos avg N i)"
proof -
  have set: "set (i # [Suc i..<N]) = {i..<N}" using assms by auto
  show "i \<le> max_pos avg N i" "max_pos avg N i < N" "i \<le> j \<Longrightarrow> j < N \<Longrightarrow> avg j \<le> avg (max_pos avg N i)"
    using max_pos_fold [of avg "[Suc i..<N]" i] unfolding set by (auto simp: Let_def max_pos_def)
qed

text \<open>The state of the selection sort: a permutation \<open>p\<close> of the columns, the first \<open>i\<close> in place.\<close>

definition permuted :: "nat \<Rightarrow> matrix \<Rightarrow> (nat \<Rightarrow> int) \<Rightarrow> nat \<Rightarrow> matrix \<times> (nat \<Rightarrow> int) \<Rightarrow> bool" where
  "permuted N m avg i s \<longleftrightarrow>
     (\<exists>p. bij_betw p {..<N} {..<N} \<and> (\<forall>row<N. \<forall>c<N. fst s row c = m row (p c)) \<and> (\<forall>c<N. snd s c = avg (p c))
       \<and> (\<forall>a b. a < i \<and> a \<le> b \<and> b < N \<longrightarrow> avg (p b) \<le> avg (p a)))"

lemma sort_column_permuted:
  assumes "permuted N m avg i s" "i < N"
  shows "permuted N m avg (Suc i) (sort_column N i s)"
proof -
  obtain p where p: "bij_betw p {..<N} {..<N}" "\<forall>row<N. \<forall>c<N. fst s row c = m row (p c)"
    "\<forall>c<N. snd s c = avg (p c)" "\<forall>a b. a < i \<and> a \<le> b \<and> b < N \<longrightarrow> avg (p b) \<le> avg (p a)"
    using assms(1) by (auto simp: permuted_def)
  define q where "q = max_pos (snd s) N i"
  have q: "i \<le> q" "q < N" "\<And>j. i \<le> j \<Longrightarrow> j < N \<Longrightarrow> avg (p j) \<le> avg (p q)"
    using max_pos_spec [OF assms(2), where avg = "snd s"] p(3) assms(2) unfolding q_def by auto
  have step: "sort_column N i s =
      (if q \<noteq> i then (swap_columns N i q (fst s), (snd s)(i := snd s q, q := snd s i)) else s)"
    by (cases s) (simp add: sort_column_def q_def Let_def)
  define p' where "p' = p(i := p q, q := p i)"
  have "bij_betw p' {..<N} {..<N}"
  proof -
    have "inj_on p' {..<N}"
      using p(1) assms(2) q(2) by (auto simp: p'_def inj_on_def bij_betw_def)
    moreover have "p' ` {..<N} \<subseteq> {..<N}"
      using p(1) assms(2) q(2) by (auto simp: p'_def bij_betw_def)
    ultimately show ?thesis by (simp add: bij_betw_def endo_inj_surj)
  qed
  moreover have "\<forall>row<N. \<forall>c<N. fst (sort_column N i s) row c = m row (p' c)"
    using p(2) assms(2) q(2)
    by (auto simp: step swap_columns_def p'_def)
  moreover have "\<forall>c<N. snd (sort_column N i s) c = avg (p' c)"
    using p(3) assms(2) q(2)
    by (auto simp: step p'_def)
  moreover have "avg (p' b) \<le> avg (p' a)" if "a < Suc i" "a \<le> b" "b < N" for a b
  proof (cases "a < i")
    case True
    then show ?thesis using p(4) that q(1,2) assms(2) by (auto simp: p'_def)
  next
    case False
    then have "a = i" using that by simp
    then show ?thesis using q(3) that assms(2) by (auto simp: p'_def)
  qed
  ultimately show ?thesis by (auto simp: permuted_def)
qed

lemma sort_columns_permuted:
  "i \<le> N \<Longrightarrow> permuted N m avg i (fold (sort_column N) [0..<i] (m, avg))"
proof (induction i)
  case 0
  then show ?case by (auto simp: permuted_def intro!: exI [of _ id])
next
  case (Suc i)
  then show ?case using sort_column_permuted by simp
qed

lemma print_matrix_cong:
  "(\<forall>row<N. \<forall>c<N. m row c = m' row c) \<Longrightarrow> print_matrix N m = print_matrix N m'"
  by (auto simp: print_matrix_def intro!: arg_cong [where f = concat] map_cong)

text \<open>
  The matrix program prints its matrix with the columns permuted such that their averages
  (rounded toward zero) do not increase, when no column sum overflows.
\<close>

theorem matrix_sort_sorts:
  assumes "\<And>c. c < N \<Longrightarrow> column_average m N c = Inr (avg c)"
  shows "\<exists>p. bij_betw p {..<N} {..<N} \<and> (\<forall>a b. a \<le> b \<and> b < N \<longrightarrow> avg (p b) \<le> avg (p a))
    \<and> matrix_sort N m = Inr (print_matrix N (\<lambda>row c. m row (p c)))"
proof -
  have total: "\<exists>avg'. compute_averages m N cols av = Inr avg'" if "set cols \<subseteq> {..<N}" for cols av
    using that assms by (induction cols arbitrary: av) auto
  have "set [0..<N] \<subseteq> {..<N}" by auto
  from total [OF this] obtain avg' where avg': "compute_averages m N [0..<N] (\<lambda>_. 0) = Inr avg'" by blast
  have same: "avg' c = avg c" if "c < N" for c
    using compute_averages_spec [OF avg'] assms that by auto
  obtain p where p: "bij_betw p {..<N} {..<N}"
    "\<forall>row<N. \<forall>c<N. fst (fold (sort_column N) [0..<N] (m, avg')) row c = m row (p c)"
    "\<forall>a b. a < N \<and> a \<le> b \<and> b < N \<longrightarrow> avg' (p b) \<le> avg' (p a)"
    using sort_columns_permuted [of N N m avg'] by (auto simp: permuted_def)
  have "p c < N" if "c < N" for c using p(1) that by (auto simp: bij_betw_def)
  then have "\<forall>a b. a \<le> b \<and> b < N \<longrightarrow> avg (p b) \<le> avg (p a)" using p(3) same by auto
  moreover have "matrix_sort N m = Inr (print_matrix N (\<lambda>row c. m row (p c)))"
    using avg' print_matrix_cong [OF p(2)]
    by (cases "fold (sort_column N) [0..<N] (m, avg')") (simp add: matrix_sort_def)
  ultimately show ?thesis using p(1) by blast
qed

theorem matrix_sort_sorts_witness:
  "\<exists>p. bij_betw p {..<3} {..<3} \<and> (\<forall>a b. a \<le> b \<and> b < 3 \<longrightarrow> int (p b) + 4 \<le> int (p a) + 4)
    \<and> matrix_sort 3 (\<lambda>row c. int (3 * row + c + 1)) = Inr (print_matrix 3 (\<lambda>row c. int (3 * row + p c + 1)))"
proof (rule matrix_sort_sorts)
  fix c :: nat assume "c < 3"
  then have "c = 0 \<or> c = 1 \<or> c = 2" by auto
  then show "column_average (\<lambda>row c. int (3 * row + c + 1)) 3 c = Inr (int c + 4)"
    by (auto simp: column_average_def upt_rec int_range_def add_int_def signed_divide_int_def)
qed

section \<open>ex-1.cpp\<close>

text \<open>\<open>input\<close> are the numbers that can still be extracted from the standard input. Extraction leaves
  its variable alone at the end of the input: the two sizes are initialised to 0, \<^verbatim>\<open>value\<close> is
  not initialised.\<close>

fun read_matrix :: "nat list \<Rightarrow> nat list \<Rightarrow> int list \<Rightarrow> matrix \<Rightarrow> int \<Rightarrow> fault + (matrix \<times> int)" where
  "read_matrix [] icols input arr sum_all = Inr (arr, sum_all)"
| "read_matrix (irow # irows) icols input arr sum_all =
     bind_res (fold (\<lambda>icol r. bind_res r (\<lambda>(input, arr, sum_all).
         case input of
           [] \<Rightarrow> Inl (Undefined ''read of an indeterminate value'')
         | value # input \<Rightarrow>
             bind_res (add_int sum_all value) (\<lambda>sum_all.
               Inr (input, arr(irow := (arr irow)(icol := value)), sum_all))))
       icols (Inr (input, arr, sum_all)))
     (\<lambda>(input, arr, sum_all). read_matrix irows icols input arr sum_all)"

text \<open>\<^verbatim>\<open>arr[irow][icol] > average\<close> with \<^verbatim>\<open>average = (double)sum_all / (nrows * ncols)\<close>: the quotient
  of an \<^verbatim>\<open>int\<close> by at most 100, rounded to a \<^verbatim>\<open>double\<close>, compares with an \<^verbatim>\<open>int\<close> as the exact
  quotient does. \<open>show_double\<close> prints it.\<close>

definition above_average :: "int \<Rightarrow> int \<Rightarrow> nat \<Rightarrow> bool" where
  "above_average v sum_all cells \<longleftrightarrow> v * int cells > sum_all"

definition column_above :: "matrix \<Rightarrow> int \<Rightarrow> nat \<Rightarrow> nat \<Rightarrow> nat \<Rightarrow> bool" where
  "column_above arr sum_all nrows ncols icol =
     fold (\<lambda>irow found. found \<and> above_average (arr irow icol) sum_all (nrows * ncols)) [0..<nrows] True"

definition ex1_columns :: "(int \<Rightarrow> nat \<Rightarrow> string) \<Rightarrow> matrix \<Rightarrow> int \<Rightarrow> nat \<Rightarrow> nat \<Rightarrow> bool \<times> string" where
  "ex1_columns show_double arr sum_all nrows ncols =
     fold (\<lambda>icol (found_one, out).
         if column_above arr sum_all nrows ncols icol then
           (True, out @ (if \<not> found_one then show_double sum_all (nrows * ncols) else []) @ ''  '' @ show_nat icol)
         else (found_one, out))
       [0..<ncols] (False, [])"

definition ex1 :: "(int \<Rightarrow> nat \<Rightarrow> string) \<Rightarrow> int list \<Rightarrow> fault + string" where
  "ex1 show_double input =
     (let (nrows, input) = (case input of [] \<Rightarrow> (0, []) | x # xs \<Rightarrow> (x, xs));
          (ncols, input) = (case input of [] \<Rightarrow> (0, []) | x # xs \<Rightarrow> (x, xs))
      in if nrows > 10 \<or> nrows \<le> 0 then Inr (''0'' @ newline)
         else if ncols > 10 \<or> ncols \<le> 0 then Inr (''0'' @ newline)
         else
           bind_res (read_matrix [0..<nat nrows] [0..<nat ncols] input (\<lambda>_ _. 0) 0) (\<lambda>(arr, sum_all).
             let (found_one, out) = ex1_columns show_double arr sum_all (nat nrows) (nat ncols)
             in Inr (out @ (if \<not> found_one then ''0'' else []) @ newline)))"

lemma column_above_all:
  "column_above arr sum_all nrows ncols icol
     \<longleftrightarrow> (\<forall>irow<nrows. above_average (arr irow icol) sum_all (nrows * ncols))"
proof -
  have "fold (\<lambda>irow found. found \<and> P irow) xs b \<longleftrightarrow> b \<and> (\<forall>x \<in> set xs. P x)"
    for P :: "nat \<Rightarrow> bool" and xs b
    by (induction xs arbitrary: b) auto
  then show ?thesis by (auto simp: column_above_def)
qed

lemma ex1_columns_filter:
  "ex1_columns show_double arr sum_all nrows ncols =
     (let cols = filter (column_above arr sum_all nrows ncols) [0..<ncols]
      in (cols \<noteq> [], if cols = [] then []
          else show_double sum_all (nrows * ncols) @ concat (map (\<lambda>c. ''  '' @ show_nat c) cols)))"
proof -
  have "fold (\<lambda>icol (found_one, out). if P icol then
          (True, out @ (if \<not> found_one then pre else []) @ ''  '' @ show_nat icol) else (found_one, out)) xs (b, out)
      = (b \<or> filter P xs \<noteq> [], out @ (if b \<or> filter P xs = [] then [] else pre)
           @ concat (map (\<lambda>c. ''  '' @ show_nat c) (filter P xs)))" for P pre xs b out
    by (induction xs arbitrary: b out) auto
  from this [of "column_above arr sum_all nrows ncols" "show_double sum_all (nrows * ncols)" "[0..<ncols]" False "[]"]
  show ?thesis by (simp add: ex1_columns_def Let_def)
qed

text \<open>The columns printed can never be all of them: their entries would add up to more than the sum.\<close>

lemma ex1_not_all_columns:
  assumes "0 < nrows" "0 < ncols" "sum_all = (\<Sum>r<nrows. \<Sum>c<ncols. arr r c)"
  shows "\<exists>c<ncols. \<not> column_above arr sum_all nrows ncols c"
proof (rule ccontr)
  assume "\<not> ?thesis"
  then have above: "sum_all < arr r c * int (nrows * ncols)" if "r < nrows" "c < ncols" for r c
    using that by (auto simp: column_above_all above_average_def)
  have "int nrows * int ncols * sum_all = (\<Sum>r<nrows. \<Sum>c<ncols. sum_all)" by simp
  also have "\<dots> < (\<Sum>r<nrows. \<Sum>c<ncols. arr r c * int (nrows * ncols))"
    using assms(1,2) above by (intro sum_strict_mono) auto
  also have "\<dots> = int nrows * int ncols * sum_all"
    by (simp add: assms(3) sum_distrib_right sum_distrib_left mult_ac)
  finally show False by simp
qed

section \<open>SimpleVector.cpp\<close>

text \<open>Every operation is a stub; a vector has no state. A failed \<^verbatim>\<open>assert\<close> terminates the program.\<close>

datatype simple_vector = SimpleVector

definition ReserveTag :: "nat \<Rightarrow> nat option" where "ReserveTag capacity = None"

definition Reserve_vector :: "nat option \<Rightarrow> simple_vector" where "Reserve_vector tag = SimpleVector"

definition sv_Reserve :: "nat \<Rightarrow> simple_vector \<Rightarrow> simple_vector" where "sv_Reserve capacity v = v"

definition sv_GetCapacity :: "simple_vector \<Rightarrow> nat" where "sv_GetCapacity v = 0"

definition sv_IsEmpty :: "simple_vector \<Rightarrow> bool" where "sv_IsEmpty v = True"

definition sv_GetSize :: "simple_vector \<Rightarrow> nat" where "sv_GetSize v = 0"

definition sv_PushBack :: "int \<Rightarrow> simple_vector \<Rightarrow> simple_vector" where "sv_PushBack x v = v"

definition sv_index :: "simple_vector \<Rightarrow> nat \<Rightarrow> int" where "sv_index v i = 0"

definition assert :: "bool \<Rightarrow> string \<Rightarrow> fault + string" where
  "assert b out = (if b then Inr out else Inl (Terminated ''assertion failed''))"

definition TestReserveConstructor :: "string \<Rightarrow> fault + string" where
  "TestReserveConstructor out =
     (let out = out @ ''TestReserveConstructor'' @ newline; v = Reserve_vector (ReserveTag 5)
      in bind_res (assert (sv_GetCapacity v = 5) out) (\<lambda>out.
         bind_res (assert (sv_IsEmpty v) out) (\<lambda>out. Inr (out @ ''Done!'' @ newline))))"

definition TestReserveMethod :: "string \<Rightarrow> fault + string" where
  "TestReserveMethod out =
     (let out = out @ ''TestReserveMethod'' @ newline; v = sv_Reserve 5 SimpleVector
      in bind_res (assert (sv_GetCapacity v = 5) out) (\<lambda>out.
         bind_res (assert (sv_IsEmpty v) out) (\<lambda>out.
         let v = sv_Reserve 1 v in bind_res (assert (sv_GetCapacity v = 5) out) (\<lambda>out.
         let v = fold (\<lambda>i. sv_PushBack (int i)) [0..<10] v
         in bind_res (assert (sv_GetSize v = 10) out) (\<lambda>out.
         let v = sv_Reserve 100 v in bind_res (assert (sv_GetSize v = 10) out) (\<lambda>out.
         bind_res (assert (sv_GetCapacity v = 100) out) (\<lambda>out.
         bind_res (fold (\<lambda>i r. bind_res r (assert (sv_index v i = int i))) [0..<10] (Inr out)) (\<lambda>out.
           Inr (out @ ''Done!'' @ newline)))))))))"

definition simple_vector_main :: "fault + string" where
  "simple_vector_main = bind_res (TestReserveConstructor []) TestReserveMethod"

lemma simple_vector_aborts: "simple_vector_main = Inl (Terminated ''assertion failed'')"
  by (simp add: simple_vector_main_def TestReserveConstructor_def assert_def sv_GetCapacity_def Let_def)

end
