(* ===== verification/Mystd_Vector.thy ===== *)
theory Mystd_Vector
  imports Prelude
begin

text \<open>
  \<^verbatim>\<open>src/mystd/vector.h\<close> and \<^verbatim>\<open>array.h\<close>: the only member functions of \<^verbatim>\<open>Vector\<close> with a body are
  the constructors; of \<^verbatim>\<open>Array\<close> the size and the two subscript operators. The allocator is the
  template's parameter: \<open>allocate n\<close> is the exception of \<^verbatim>\<open>alloc_.allocate(n)\<close>, if any. Storage that
  holds no object is \<open>None\<close>. \<^verbatim>\<open>std::size_t\<close> is a 64-bit word.
\<close>

section \<open>Vector\<close>

record 'a vector =
  vsize :: "64 word"
  vcapacity :: "64 word"
  vdata :: "'a option list option"

definition Vector_default :: "'a vector" where
  "Vector_default = \<lparr>vsize = 0, vcapacity = 0, vdata = None\<rparr>"

lemma unat_Suc:
  assumes "i < (n :: 64 word)"
  shows "unat (i + 1) = Suc (unat i)"
proof -
  have "unat n < 2 ^ LENGTH(64)" by (rule unsigned_less)
  moreover have "unat i < unat n" using assms by (simp add: word_less_nat_alt)
  ultimately show ?thesis by (simp add: unat_word_ariths)
qed

text \<open>The loop that constructs the elements: \<^verbatim>\<open>new (ptr) T{value}\<close> at position \<open>i\<close>.\<close>

function construct_loop :: "'a \<Rightarrow> 64 word \<Rightarrow> 64 word \<Rightarrow> 'a option list \<Rightarrow> fault + 'a option list" where
  "construct_loop v sz i buf =
     (if i < sz then
        if unat i < length buf then construct_loop v sz (i + 1) (buf[unat i := Some v])
        else Inl (Undefined ''write past the end'')
      else Inr buf)"
  by pat_completeness auto
termination
proof (relation "measure (\<lambda>(v, sz, i, buf). unat (sz - i))")
  fix v :: 'a and sz i :: "64 word" and buf
  assume "i < sz"
  then have "i + 1 \<le> sz" "i \<le> sz" "unat i < unat sz"
    by (simp_all add: inc_le less_imp_le) (simp add: word_less_nat_alt)
  then have "unat (sz - (i + 1)) < unat (sz - i)"
    using \<open>i < sz\<close> by (simp add: unat_sub unat_Suc)
  then show "((v, sz, i + 1, buf[unat i := Some v]), (v, sz, i, buf)) \<in> measure (\<lambda>(v, sz, i, buf). unat (sz - i))"
    by simp
qed simp

declare construct_loop.simps [simp del]

definition Vector :: "(64 word \<Rightarrow> string option) \<Rightarrow> 64 word \<Rightarrow> 'a \<Rightarrow> fault + 'a vector" where
  "Vector allocate count value =
     (let capacity = count * 2; sz = count
      in case allocate capacity of
           Some e \<Rightarrow> Inl (Thrown e)
         | None \<Rightarrow>
             bind_res (construct_loop value sz 0 (replicate (unat capacity) None)) (\<lambda>buf.
               Inr \<lparr>vsize = sz, vcapacity = capacity, vdata = Some buf\<rparr>))"

lemma construct_loop_fills:
  assumes "i \<le> sz" "length buf = n" "unat i \<le> n" "\<forall>j < unat i. buf ! j = Some v"
  shows "construct_loop v sz i buf =
    (if unat sz \<le> n then Inr (replicate (unat sz) (Some v) @ drop (unat sz) buf)
     else Inl (Undefined ''write past the end''))"
  using assms
proof (induction v sz i buf rule: construct_loop.induct)
  case (1 v sz i buf)
  show ?case
  proof (cases "i < sz \<and> unat i < n")
    case True
    have "construct_loop v sz (i + 1) (buf[unat i := Some v]) =
      (if unat sz \<le> n then Inr (replicate (unat sz) (Some v) @ drop (unat sz) (buf[unat i := Some v]))
       else Inl (Undefined ''write past the end''))"
    proof (rule 1(1))
      show "i < sz" "unat i < length buf" using True 1 by auto
      show "i + 1 \<le> sz" using True by (simp add: inc_le)
      show "unat (i + 1) \<le> n" "\<forall>j<unat (i + 1). buf[unat i := Some v] ! j = Some v"
        using True 1 by (auto simp: unat_Suc nth_list_update less_Suc_eq)
    qed (use 1 in simp)
    moreover have "unat i < unat sz" using True by (simp add: word_less_nat_alt)
    ultimately show ?thesis using True 1 by (simp add: construct_loop.simps [of v sz i])
  next
    case False
    show ?thesis
    proof (cases "i < sz")
      case True
      with False 1 have "unat i = n" "unat i < unat sz" by (auto simp: word_less_nat_alt)
      with True 1 show ?thesis by (simp add: construct_loop.simps [of v sz i])
    next
      case ge: False
      with 1 have "i = sz" by simp
      moreover have "buf = replicate (unat i) (Some v) @ drop (unat i) buf"
        using 1 by (intro nth_equalityI) (auto simp: nth_append)
      ultimately show ?thesis using 1 by (subst construct_loop.simps) simp
    qed
  qed
qed

text \<open>
  \<^verbatim>\<open>Vector(count, value)\<close> doubles its count in 64 bits. Below \<open>2\<^sup>6\<^sup>3\<close> it has room for twice the
  elements it constructs; from \<open>2\<^sup>6\<^sup>3\<close> on the capacity wraps around below the size, and the
  constructor writes past the end of what it allocated. An exception of the allocator propagates.
\<close>

theorem Vector_capacity_bounds:
  "Vector allocate count value =
    (case allocate (count * 2) of
       Some e \<Rightarrow> Inl (Thrown e)
     | None \<Rightarrow>
         if unat count < 2 ^ 63 then
           Inr \<lparr>vsize = count, vcapacity = count * 2,
             vdata = Some (replicate (unat count) (Some value) @ replicate (unat count) None)\<rparr>
         else Inl (Undefined ''write past the end''))
   \<and> (unat count < 2 ^ 63 \<longleftrightarrow> count = 0 \<or> count < count * 2)"
proof -
  have cap: "unat (count * 2) = (unat count * 2) mod 2 ^ 64"
    by (simp add: unat_word_ariths)
  have "unat count < 2 ^ LENGTH(64)" by (rule unsigned_less)
  then have lt: "unat count < 2 ^ 64" by simp
  have low: "unat (count * 2) = unat count * 2" if "unat count < 2 ^ 63"
    using that cap by simp
  have high: "unat (count * 2) < unat count" if "\<not> unat count < 2 ^ 63"
  proof -
    have "unat count * 2 mod 2 ^ 64 = (unat count * 2 - 2 ^ 64) mod 2 ^ 64"
      using that by (subst le_mod_geq) auto
    also have "\<dots> = unat count * 2 - 2 ^ 64" using that lt by (intro mod_less) simp
    also have "\<dots> < unat count" using lt that by simp
    finally show ?thesis using cap by simp
  qed
  note loop = construct_loop_fills [of 0 count "replicate (unat (count * 2)) None" "unat (count * 2)" "value"]
  have "count = 0 \<or> count < count * 2 \<longleftrightarrow> unat count = 0 \<or> unat count < unat (count * 2)"
    by (simp add: word_less_nat_alt unat_eq_zero)
  then have "unat count < 2 ^ 63 \<longleftrightarrow> count = 0 \<or> count < count * 2"
    using low high by (cases "unat count < 2 ^ 63") auto
  then show ?thesis
    using loop low high by (cases "unat count < 2 ^ 63") (auto simp: Vector_def Let_def split: option.split)
qed

theorem Vector_capacity_bounds_witness:
  "Vector (\<lambda>_. None) 3 (7 :: nat) = Inr \<lparr>vsize = 3, vcapacity = 6,
     vdata = Some [Some 7, Some 7, Some 7, None, None, None]\<rparr>
   \<and> Vector (\<lambda>_. None) 0x8000000000000000 (7 :: nat) = Inl (Undefined ''write past the end'')"
proof
  show "Vector (\<lambda>_. None) 3 (7 :: nat) = Inr \<lparr>vsize = 3, vcapacity = 6,
     vdata = Some [Some 7, Some 7, Some 7, None, None, None]\<rparr>"
  proof -
    have "replicate 3 x = [x, x, x]" for x :: "nat option" by (simp add: numeral_3_eq_3)
    then show ?thesis using Vector_capacity_bounds [of "\<lambda>_. None" 3 "7 :: nat"] by simp
  qed
  show "Vector (\<lambda>_. None) 0x8000000000000000 (7 :: nat) = Inl (Undefined ''write past the end'')"
    using Vector_capacity_bounds [of "\<lambda>_. None" "0x8000000000000000" "7 :: nat"] by simp
qed

section \<open>Array\<close>

definition Array_size :: "nat \<Rightarrow> nat" where "Array_size N = N"

definition Array_get :: "'a list \<Rightarrow> nat \<Rightarrow> fault + 'a" where
  "Array_get data i = (if i < length data then Inr (data ! i) else Inl (Undefined ''index out of range''))"

definition Array_set :: "'a list \<Rightarrow> nat \<Rightarrow> 'a \<Rightarrow> fault + 'a list" where
  "Array_set data i x = (if i < length data then Inr (data[i := x]) else Inl (Undefined ''index out of range''))"

lemma Array_get_set:
  "Array_set data i x = Inr data' \<Longrightarrow>
     Array_get data' j = (if i = j then Inr x else Array_get data j) \<and> length data' = length data"
  by (auto simp: Array_set_def Array_get_def split: if_splits)

end
