(* ===== verification/Core_ParOStream.thy ===== *)
theory Core_ParOStream
  imports Prelude "HOL-Library.Sublist"
begin

text \<open>
  \<^verbatim>\<open>src/core/par_ostream.h\<close>: a temporary that holds one mutex, shared by all of them, from its
  constructor to the end of the full expression \<^verbatim>\<open>ParOStream(os) << a << b;\<close>. A thread's program is
  a list of such statements, each the list of texts it inserts: the first insertion goes through
  \<^verbatim>\<open>ParOStream::operator<<\<close> and the others through the stream it returns. The interleaving of the
  threads is a step relation; a statement may also build a second \<^verbatim>\<open>ParOStream\<close> among its operands
  (\<open>Nested\<close>), and locking a \<^verbatim>\<open>std::mutex\<close> the thread already holds is undefined.
\<close>

section \<open>States and steps\<close>

datatype operand = Insert string | Nested

record par_state =
  mutex :: "nat option"
  sink :: "string list"
  pending :: "nat \<Rightarrow> operand list list"
  current :: "nat \<Rightarrow> operand list option"
  printed :: "(nat \<times> string list) list"
  partial_out :: "string list"
  broken :: bool

definition par_start :: "(nat \<Rightarrow> operand list list) \<Rightarrow> par_state" where
  "par_start prog = \<lparr>mutex = None, sink = [], pending = prog, current = (\<lambda>_. None),
     printed = [], partial_out = [], broken = False\<rparr>"

text \<open>\<open>printed\<close> and \<open>partial_out\<close> are ghosts: the finished statements with their threads, and what
  the running statement has inserted so far.\<close>

definition par_construct :: "nat \<Rightarrow> operand list \<Rightarrow> operand list list \<Rightarrow> par_state \<Rightarrow> par_state" where
  "par_construct t st rest s =
     s\<lparr>mutex := Some t, pending := (pending s)(t := rest), current := (current s)(t \<mapsto> st)\<rparr>"

definition par_insert :: "nat \<Rightarrow> string \<Rightarrow> operand list \<Rightarrow> par_state \<Rightarrow> par_state" where
  "par_insert t x rest s =
     s\<lparr>sink := sink s @ [x], current := (current s)(t \<mapsto> rest), partial_out := partial_out s @ [x]\<rparr>"

definition par_destroy :: "nat \<Rightarrow> par_state \<Rightarrow> par_state" where
  "par_destroy t s =
     s\<lparr>mutex := None, current := (current s)(t := None), printed := printed s @ [(t, partial_out s)],
       partial_out := []\<rparr>"

inductive par_step :: "par_state \<Rightarrow> par_state \<Rightarrow> bool" where
  construct: "mutex s = None \<Longrightarrow> current s t = None \<Longrightarrow> pending s t = st # rest \<Longrightarrow>
     par_step s (par_construct t st rest s)"
| insert: "current s t = Some (Insert x # rest) \<Longrightarrow> par_step s (par_insert t x rest s)"
| nested: "current s t = Some (Nested # rest) \<Longrightarrow> par_step s (s\<lparr>broken := True\<rparr>)"
| destroy: "current s t = Some [] \<Longrightarrow> par_step s (par_destroy t s)"

inductive par_reachable :: "(nat \<Rightarrow> operand list list) \<Rightarrow> par_state \<Rightarrow> bool" for prog where
  start: "par_reachable prog (par_start prog)"
| step: "par_reachable prog s \<Longrightarrow> par_step s s' \<Longrightarrow> par_reachable prog s'"

section \<open>Statements are not interleaved\<close>

definition texts :: "operand list \<Rightarrow> string list" where
  "texts = List.map_filter (\<lambda>x. case x of Insert y \<Rightarrow> Some y | Nested \<Rightarrow> None)"

lemma texts_simps [simp]: "texts [] = []" "texts (Insert x # xs) = x # texts xs" "texts (Nested # xs) = texts xs"
  by (simp_all add: texts_def List.map_filter_def)

definition printed_by :: "nat \<Rightarrow> par_state \<Rightarrow> string list list" where
  "printed_by t s = map snd (filter (\<lambda>p. fst p = t) (printed s))"

text \<open>The invariant: the mutex tells which thread is inside a statement; what is in the sink are the
  finished statements, then the part of the running one; and every thread's statements are
  printed, running or still to come, in program order.\<close>

definition par_inv :: "(nat \<Rightarrow> operand list list) \<Rightarrow> par_state \<Rightarrow> bool" where
  "par_inv prog s \<longleftrightarrow>
     (\<forall>t. mutex s = Some t \<longleftrightarrow> current s t \<noteq> None)
     \<and> (mutex s = None \<longrightarrow> partial_out s = [])
     \<and> sink s = concat (map snd (printed s)) @ partial_out s
     \<and> (\<forall>t. map texts (prog t) = printed_by t s
           @ (case current s t of None \<Rightarrow> [] | Some rest \<Rightarrow> [partial_out s @ texts rest])
           @ map texts (pending s t))
     \<and> (broken s \<longrightarrow> (\<exists>t st. st \<in> set (prog t) \<and> Nested \<in> set st))
     \<and> (\<forall>t st. st \<in> set (pending s t) \<longrightarrow> st \<in> set (prog t))
     \<and> (\<forall>t st. current s t = Some st \<longrightarrow> Nested \<in> set st \<longrightarrow> (\<exists>st' \<in> set (prog t). Nested \<in> set st'))"

lemma par_inv_nested:
  "par_inv prog s \<Longrightarrow> current s t = Some st \<Longrightarrow> Nested \<in> set st \<Longrightarrow> \<exists>st' \<in> set (prog t). Nested \<in> set st'"
  unfolding par_inv_def by blast

lemma par_inv_mutex: "par_inv prog s \<Longrightarrow> current s t = Some st \<Longrightarrow> mutex s = Some t"
  by (simp add: par_inv_def)

lemma par_inv_start: "par_inv prog (par_start prog)"
  by (simp add: par_inv_def par_start_def printed_by_def)

lemma par_inv_step:
  assumes "par_step s s'" "par_inv prog s"
  shows "par_inv prog s'"
  using assms
proof (induction rule: par_step.induct)
  case (construct s t st rest)
  have only: "current s u = None" for u using construct by (auto simp: par_inv_def)
  have "partial_out s = []" using construct by (simp add: par_inv_def)
  with construct only show ?case
    by (auto simp: par_inv_def par_construct_def printed_by_def)
next
  case (insert s t x rest)
  have "mutex s = Some t" using par_inv_mutex [OF insert(2,1)] .
  then have only: "current s u = None" if "u \<noteq> t" for u using insert that by (auto simp: par_inv_def)
  have nested: "Nested \<in> set rest \<Longrightarrow> \<exists>st' \<in> set (prog t). Nested \<in> set st'"
    using par_inv_nested [OF insert(2,1)] by simp
  from insert \<open>mutex s = Some t\<close> only nested show ?case
    by (auto simp: par_inv_def par_insert_def printed_by_def)
next
  case (nested s t rest)
  then have "\<exists>st' \<in> set (prog t). Nested \<in> set st'" using par_inv_nested [of prog s t] by simp
  then have "\<exists>t st. st \<in> set (prog t) \<and> Nested \<in> set st" by blast
  with nested(2) show ?case by (simp add: par_inv_def printed_by_def cong: option.case_cong)
next
  case (destroy s t)
  have "mutex s = Some t" using par_inv_mutex [OF destroy(2,1)] .
  then have only: "current s u = None" if "u \<noteq> t" for u using destroy that by (auto simp: par_inv_def)
  then have running: "u = t \<and> y = []" if "current s u = Some y" for u y
    using destroy(1) that by (cases "u = t") auto
  from destroy \<open>mutex s = Some t\<close> only show ?case
    by (auto simp: par_inv_def par_destroy_def printed_by_def dest: running)
qed

lemma par_reachable_inv: "par_reachable prog s \<Longrightarrow> par_inv prog s"
  by (induction rule: par_reachable.induct) (blast intro: par_inv_start par_inv_step)+

text \<open>
  C23. Whatever the interleaving of the threads, what has been written is a sequence of whole
  statements, each thread's own in its program order, followed by the beginning of at most one
  more: texts of two statements are never mixed. And no thread locks the mutex twice unless a
  statement contains another \<^verbatim>\<open>ParOStream\<close>.
\<close>

theorem par_ostream_atomic:
  assumes "par_reachable prog s"
  shows "\<exists>done part. sink s = concat (map snd done) @ part
    \<and> (\<forall>t. prefix (map snd (filter (\<lambda>p. fst p = t) done)) (map texts (prog t)))
    \<and> (part \<noteq> [] \<longrightarrow> (\<exists>t rest. mutex s = Some t \<and> part @ rest \<in> texts ` set (prog t)))
    \<and> (broken s \<longrightarrow> (\<exists>t st. st \<in> set (prog t) \<and> Nested \<in> set st))"
proof -
  have inv: "par_inv prog s" using assms by (rule par_reachable_inv)
  have "\<exists>t rest. mutex s = Some t \<and> partial_out s @ rest \<in> texts ` set (prog t)" if "partial_out s \<noteq> []"
  proof -
    have "mutex s \<noteq> None" using inv that unfolding par_inv_def by blast
    then obtain t where t: "mutex s = Some t" by blast
    moreover have "mutex s = Some t \<longleftrightarrow> current s t \<noteq> None" using inv by (simp add: par_inv_def)
    ultimately obtain rest where rest: "current s t = Some rest" by auto
    then have "partial_out s @ texts rest \<in> set (map texts (prog t))"
      using inv by (simp add: par_inv_def del: set_map)
    then have "partial_out s @ texts rest \<in> texts ` set (prog t)" by simp
    with t show ?thesis by blast
  qed
  moreover have "prefix (printed_by t s) (map texts (prog t))" for t
    using inv by (simp add: par_inv_def)
  ultimately show ?thesis
    using inv unfolding printed_by_def
    by (intro exI [of _ "printed s"] exI [of _ "partial_out s"]) (auto simp: par_inv_def)
qed

theorem par_ostream_atomic_witness:
  "(let prog = (\<lambda>_. [])(0 := [[Insert ''a'', Insert ''b'']], 1 := [[Insert ''c'']]);
        s = par_insert 0 ''a'' [Insert ''b''] (par_construct 0 [Insert ''a'', Insert ''b''] [] (par_start prog))
    in \<exists>done part. sink s = concat (map snd done) @ part
      \<and> (\<forall>t. prefix (map snd (filter (\<lambda>p. fst p = t) done)) (map texts (prog t)))
      \<and> (part \<noteq> [] \<longrightarrow> (\<exists>t rest. mutex s = Some t \<and> part @ rest \<in> texts ` set (prog t)))
      \<and> (broken s \<longrightarrow> (\<exists>t st. st \<in> set (prog t) \<and> Nested \<in> set st)))"
  unfolding Let_def
proof (rule par_ostream_atomic)
  let ?prog = "(\<lambda>_. [])(0 := [[Insert ''a'', Insert ''b'']], 1 := [[Insert ''c'']])"
  have "par_reachable ?prog (par_construct 0 [Insert ''a'', Insert ''b''] [] (par_start ?prog))"
    by (rule par_reachable.step [OF par_reachable.start], rule par_step.construct) (simp_all add: par_start_def)
  then show "par_reachable ?prog
      (par_insert 0 ''a'' [Insert ''b''] (par_construct 0 [Insert ''a'', Insert ''b''] [] (par_start ?prog)))"
    by (rule par_reachable.step) (rule par_step.insert, simp add: par_construct_def)
qed

end
