(* ===== verification/Lang_AsyncScopes.thy ===== *)
theory Lang_AsyncScopes
  imports Machine
begin

text \<open>
  \<^verbatim>\<open>src/lang/random/test_async_scopes_1.cpp\<close>: a tree of scopes whose destruction is asynchronous.
  \<open>scopes\<close> are the \<^verbatim>\<open>AsyncScopedBase\<close> objects (the blocking root has no parent). What the held
  object's \<^verbatim>\<open>StartDestroy\<close> does is a parameter: \<open>Sync\<close> calls \<^verbatim>\<open>handleFinishDestroy\<close> at once, as the
  compiled \<^verbatim>\<open>TestAsyncScope\<close> does, and \<open>Deferred\<close> enqueues the call on the context, as the variant
  under \<^verbatim>\<open>#if 0\<close>. \<open>started\<close> and \<open>finished\<close> record the calls of \<^verbatim>\<open>StartDestroy\<close> and of the held
  object's destructor.
\<close>

section \<open>State\<close>

datatype user_state = kLocked | kUnlocked | kDetached

datatype object_state = kValid | kStartedDestruction | kDestroyed

datatype destroy_policy = Sync | Deferred

record scope =
  sc_children :: "nat list"
  sc_parent :: "nat option"
  parent_triggered :: bool
  user :: user_state
  object :: object_state
  held :: bool

record store =
  scopes :: "nat \<Rightarrow> scope option"
  async_ops :: "nat list"
  started :: "nat list"
  finished :: "nat list"

definition new_scope :: "nat option \<Rightarrow> scope" where
  "new_scope p = \<lparr>sc_children = [], sc_parent = p, parent_triggered = False, user = kUnlocked,
     object = kValid, held = True\<rparr>"

definition upd :: "nat \<Rightarrow> (scope \<Rightarrow> scope) \<Rightarrow> store \<Rightarrow> store" where
  "upd i f s = s\<lparr>scopes := (scopes s)(i := map_option f (scopes s i))\<rparr>"

definition the_scope :: "nat \<Rightarrow> store \<Rightarrow> scope" where
  "the_scope i s = the (scopes s i)"

text \<open>A root scope and nothing else.\<close>

definition blocking_scope :: "nat \<Rightarrow> store" where
  "blocking_scope root = \<lparr>scopes = (\<lambda>_. None)(root \<mapsto> new_scope None), async_ops = [], started = [], finished = []\<rparr>"

definition is_root :: "nat \<Rightarrow> store \<Rightarrow> bool" where
  "is_root i s \<longleftrightarrow> sc_parent (the_scope i s) = None"

section \<open>AsyncScopedBase\<close>

text \<open>\<^verbatim>\<open>Add\<close> and the \<^verbatim>\<open>AsyncScoped\<close> constructor, as used by \<^verbatim>\<open>MakeUniqueAsyncScoped\<close>.\<close>

definition Add_child :: "nat \<Rightarrow> nat \<Rightarrow> store \<Rightarrow> store" where
  "Add_child p c s = upd p (\<lambda>sc. sc\<lparr>sc_children := c # removeAll c (sc_children sc)\<rparr>) s"

definition MakeUniqueAsyncScoped :: "nat \<Rightarrow> nat \<Rightarrow> store \<Rightarrow> fault + store" where
  "MakeUniqueAsyncScoped p c s =
     (if scopes s p = None then Inl (Undefined ''use of a destroyed object'')
      else Inr (Add_child p c (s\<lparr>scopes := (scopes s)(c \<mapsto> new_scope (Some p))\<rparr>)))"

definition incorrect_transition :: "fault + store" where
  "incorrect_transition = Inl (Terminated ''assertion failed'')"

text \<open>\<^verbatim>\<open>Remove\<close>: erasing the child, and whether the scope itself then starts its destruction.\<close>

definition erase_child :: "nat \<Rightarrow> nat \<Rightarrow> store \<Rightarrow> store" where
  "erase_child p c s = upd p (\<lambda>sc. sc\<lparr>sc_children := removeAll c (sc_children sc)\<rparr>) s"

definition removal_starts :: "nat \<Rightarrow> store \<Rightarrow> bool" where
  "removal_starts p s \<longleftrightarrow>
     sc_children (the_scope p s) = [] \<and> user (the_scope p s) \<noteq> kLocked \<and> parent_triggered (the_scope p s)"

text \<open>\<^verbatim>\<open>handleStartDestroy\<close> up to the call of the held object's \<^verbatim>\<open>StartDestroy\<close>: the root becomes
  destroyed at once, and the boolean tells that there is such a call.\<close>

definition begin_destroy :: "nat \<Rightarrow> store \<Rightarrow> fault + (bool \<times> store)" where
  "begin_destroy i s =
     (let s = upd i (\<lambda>sc. sc\<lparr>object := kStartedDestruction\<rparr>) s in
      if is_root i s then Inr (False, upd i (\<lambda>sc. sc\<lparr>object := kDestroyed\<rparr>) s)
      else if \<not> held (the_scope i s) then Inl (Undefined ''call on a destroyed object'')
      else Inr (True, s\<lparr>started := started s @ [i]\<rparr>))"

definition enqueue_finish :: "nat \<Rightarrow> store \<Rightarrow> store" where
  "enqueue_finish i s = s\<lparr>async_ops := async_ops s @ [i]\<rparr>"

text \<open>\<^verbatim>\<open>handleFinishDestroy\<close> up to the call of the parent's \<^verbatim>\<open>Remove\<close>.\<close>

definition end_held :: "nat \<Rightarrow> store \<Rightarrow> fault + (nat \<times> store)" where
  "end_held i s =
     (let s = upd i (\<lambda>sc. sc\<lparr>object := kDestroyed\<rparr>) s in
      if \<not> held (the_scope i s) then Inl (Undefined ''destructor of a destroyed object'')
      else
        let s = (upd i (\<lambda>sc. sc\<lparr>held := False\<rparr>) s)\<lparr>finished := finished s @ [i]\<rparr>
        in case sc_parent (the_scope i s) of
             None \<Rightarrow> Inl (Undefined ''null parent'')
           | Some p \<Rightarrow> Inr (p, s))"

text \<open>\<^verbatim>\<open>handleFinishDestroy\<close>: the parent removes the scope, which may start (and, with \<open>Sync\<close>, finish)
  the parent's own destruction.\<close>

partial_function (option) finish_destroy ::
    "destroy_policy \<Rightarrow> nat \<Rightarrow> store \<Rightarrow> (fault + store) option" where
  "finish_destroy pol i s =
     (case end_held i s of
        Inl f \<Rightarrow> Some (Inl f)
      | Inr (p, s) \<Rightarrow>
          let s = erase_child p i s
          in if \<not> removal_starts p s then Some (Inr s)
             else
               case begin_destroy p s of
                 Inl f \<Rightarrow> Some (Inl f)
               | Inr (called, s) \<Rightarrow>
                   if \<not> called then Some (Inr s)
                   else if pol = Sync then finish_destroy pol p s
                   else Some (Inr (enqueue_finish p s)))"

definition handleStartDestroy :: "destroy_policy \<Rightarrow> nat \<Rightarrow> store \<Rightarrow> (fault + store) option" where
  "handleStartDestroy pol i s =
     (case begin_destroy i s of
        Inl f \<Rightarrow> Some (Inl f)
      | Inr (called, s) \<Rightarrow>
          if \<not> called then Some (Inr s)
          else if pol = Sync then finish_destroy pol i s
          else Some (Inr (enqueue_finish i s)))"

text \<open>The loop \<^verbatim>\<open>for (auto child : children_) child->handleParentStartDestroy();\<close> of scope \<open>p\<close>, with the
  children still to visit. A body that erases the child it is at leaves the loop with an
  invalidated iterator.\<close>

partial_function (option) notify_children ::
    "destroy_policy \<Rightarrow> nat \<Rightarrow> nat list \<Rightarrow> store \<Rightarrow> (fault + store) option" where
  "notify_children pol p cs s =
     (case cs of
        [] \<Rightarrow> Some (Inr s)
      | c # rest \<Rightarrow>
          Option.bind
            (if parent_triggered (the_scope c s) then Some (Inr s)
             else
               let s = upd c (\<lambda>sc. sc\<lparr>parent_triggered := True\<rparr>) s
               in if user (the_scope c s) = kUnlocked then
                    Option.bind (notify_children pol c (sc_children (the_scope c s)) s) (\<lambda>r.
                      case r of
                        Inl f \<Rightarrow> Some (Inl f)
                      | Inr s \<Rightarrow>
                          if sc_children (the_scope c s) = [] then handleStartDestroy pol c s
                          else Some (Inr s))
                  else Some (Inr s))
            (\<lambda>r. case r of
               Inl f \<Rightarrow> Some (Inl f)
             | Inr s \<Rightarrow>
                 if c \<notin> set (sc_children (the_scope p s)) then Some (Inl (Undefined ''invalidated iterator''))
                 else notify_children pol p rest s))"

section \<open>AsyncScoped\<close>

definition scope_Lock :: "nat \<Rightarrow> store \<Rightarrow> bool \<times> store" where
  "scope_Lock i s =
     (if user (the_scope i s) \<noteq> kUnlocked then (False, s)
      else if parent_triggered (the_scope i s) then (False, s)
      else (True, upd i (\<lambda>sc. sc\<lparr>user := kLocked\<rparr>) s))"

text \<open>The loop over the children, then the start of the own destruction if there are none left.\<close>

definition notify_and_start :: "destroy_policy \<Rightarrow> nat \<Rightarrow> store \<Rightarrow> (fault + store) option" where
  "notify_and_start pol i s =
     Option.bind (notify_children pol i (sc_children (the_scope i s)) s) (\<lambda>r.
       case r of
         Inl f \<Rightarrow> Some (Inl f)
       | Inr s \<Rightarrow> if sc_children (the_scope i s) = [] then handleStartDestroy pol i s else Some (Inr s))"

definition scope_Unlock :: "destroy_policy \<Rightarrow> nat \<Rightarrow> store \<Rightarrow> (fault + store) option" where
  "scope_Unlock pol i s =
     (if user (the_scope i s) \<noteq> kLocked then Some incorrect_transition
      else
        let s = upd i (\<lambda>sc. sc\<lparr>user := kUnlocked\<rparr>) s
        in if \<not> parent_triggered (the_scope i s) then Some (Inr s) else notify_and_start pol i s)"

definition Detach :: "destroy_policy \<Rightarrow> nat \<Rightarrow> store \<Rightarrow> (fault + store) option" where
  "Detach pol i s =
     (if user (the_scope i s) = kLocked \<or> user (the_scope i s) = kDetached then Some incorrect_transition
      else
        let s = upd i (\<lambda>sc. sc\<lparr>user := kDetached\<rparr>) s
        in if \<not> parent_triggered (the_scope i s) then notify_and_start pol i s
           else if sc_children (the_scope i s) \<noteq> [] then Some (Inr s)
           else handleStartDestroy pol i s)"

section \<open>UniqueAsyncHolder\<close>

text \<open>A holder is its pointer. Move assignment overwrites it without detaching; assigning \<^verbatim>\<open>nullptr\<close>
  flows off the end of a function that returns a reference.\<close>

definition holder_destroy :: "destroy_policy \<Rightarrow> nat option \<Rightarrow> store \<Rightarrow> (fault + store) option" where
  "holder_destroy pol ptr s = (case ptr of None \<Rightarrow> Some (Inr s) | Some i \<Rightarrow> Detach pol i s)"

definition holder_assign_null :: "destroy_policy \<Rightarrow> nat option \<Rightarrow> store \<Rightarrow> (fault + store) option" where
  "holder_assign_null pol ptr s =
     Option.bind (holder_destroy pol ptr s) (\<lambda>r.
       Some (case r of Inl f \<Rightarrow> Inl f | Inr s \<Rightarrow> Inl (Undefined ''no return value'')))"

definition holder_move_ctor :: "nat option \<Rightarrow> nat option \<times> nat option" where
  "holder_move_ctor rhs = (rhs, None)"

definition holder_move_assign :: "nat option \<Rightarrow> nat option \<Rightarrow> nat option \<times> nat option" where
  "holder_move_assign ptr rhs = (rhs, None)"

text \<open>\<^verbatim>\<open>Lock\<close> and \<^verbatim>\<open>LockScope\<close>: the locked pointer, whose destructor unlocks.\<close>

definition holder_Lock :: "nat option \<Rightarrow> store \<Rightarrow> nat option \<times> store" where
  "holder_Lock ptr s =
     (case ptr of
        None \<Rightarrow> (None, s)
      | Some i \<Rightarrow> let (ok, s) = scope_Lock i s in (if ok then Some i else None, s))"

definition locked_destroy :: "destroy_policy \<Rightarrow> nat option \<Rightarrow> store \<Rightarrow> (fault + store) option" where
  "locked_destroy pol ptr s = (case ptr of None \<Rightarrow> Some (Inr s) | Some i \<Rightarrow> scope_Unlock pol i s)"

section \<open>The context and the blocking scope\<close>

fun run_async :: "destroy_policy \<Rightarrow> nat \<Rightarrow> store \<Rightarrow> (fault + store) option" where
  "run_async pol 0 s = Some (Inr s)"
| "run_async pol (Suc n) s =
     (case async_ops s of
        [] \<Rightarrow> Some (Inl (Undefined ''front of an empty queue''))
      | i # is \<Rightarrow>
          Option.bind (finish_destroy pol i (s\<lparr>async_ops := is\<rparr>)) (\<lambda>r.
            case r of Inl f \<Rightarrow> Some (Inl f) | Inr s \<Rightarrow> run_async pol n s))"

definition scopes_Poll :: "destroy_policy \<Rightarrow> store \<Rightarrow> (fault + store) option" where
  "scopes_Poll pol s = run_async pol (length (async_ops s)) s"

partial_function (option) wait_loop :: "destroy_policy \<Rightarrow> nat \<Rightarrow> store \<Rightarrow> (fault + store) option" where
  "wait_loop pol root s =
     (if sc_children (the_scope root s) \<noteq> [] \<and> object (the_scope root s) \<noteq> kDestroyed then
        Option.bind (scopes_Poll pol s) (\<lambda>r.
          case r of Inl f \<Rightarrow> Some (Inl f) | Inr s \<Rightarrow> wait_loop pol root s)
      else Some (Inr s))"

definition blocking_destroy :: "destroy_policy \<Rightarrow> nat \<Rightarrow> store \<Rightarrow> (fault + store) option" where
  "blocking_destroy pol root s =
     (let s = upd root (\<lambda>sc. sc\<lparr>parent_triggered := True\<rparr>) s
      in Option.bind (notify_children pol root (sc_children (the_scope root s)) s) (\<lambda>r.
           case r of Inl f \<Rightarrow> Some (Inl f) | Inr s \<Rightarrow> wait_loop pol root s))"

section \<open>One leaf at a time\<close>

lemma the_scope_upd [simp]:
  "scopes s i \<noteq> None \<Longrightarrow> the_scope j (upd i f s) = (if j = i then f (the_scope i s) else the_scope j s)"
  "j \<noteq> i \<Longrightarrow> the_scope j (upd i f s) = the_scope j s"
  by (auto simp: the_scope_def upd_def)

lemma upd_fields [simp]:
  "async_ops (upd i f s) = async_ops s" "started (upd i f s) = started s" "finished (upd i f s) = finished s"
  "scopes (upd i f s) j = (if j = i then map_option f (scopes s i) else scopes s j)"
  by (simp_all add: upd_def)

lemma the_scope_fields [simp]:
  "the_scope j (s\<lparr>async_ops := q\<rparr>) = the_scope j s" "the_scope j (s\<lparr>started := q\<rparr>) = the_scope j s"
  "the_scope j (s\<lparr>finished := q\<rparr>) = the_scope j s"
  by (simp_all add: the_scope_def)

text \<open>A live leaf \<open>c\<close> below \<open>p\<close>.\<close>

definition leaf :: "nat \<Rightarrow> nat \<Rightarrow> store \<Rightarrow> bool" where
  "leaf p c s \<longleftrightarrow> scopes s c \<noteq> None \<and> scopes s p \<noteq> None \<and> p \<noteq> c \<and> sc_parent (the_scope c s) = Some p
     \<and> sc_children (the_scope c s) = [] \<and> held (the_scope c s)"

text \<open>What \<^verbatim>\<open>handleFinishDestroy\<close> of a leaf does when the parent does not go down with it.\<close>

definition finish_leaf :: "nat \<Rightarrow> nat \<Rightarrow> store \<Rightarrow> store" where
  "finish_leaf p c s =
     erase_child p c ((upd c (\<lambda>sc. sc\<lparr>held := False\<rparr>) (upd c (\<lambda>sc. sc\<lparr>object := kDestroyed\<rparr>) s))
       \<lparr>finished := finished s @ [c]\<rparr>)"

lemma finish_destroy_leaf:
  assumes "leaf p c s" "\<not> parent_triggered (the_scope p s)"
  shows "finish_destroy pol c s = Some (Inr (finish_leaf p c s))"
  using assms
  by (subst finish_destroy.simps) (auto simp: leaf_def end_held_def finish_leaf_def erase_child_def removal_starts_def Let_def)

lemma begin_destroy_leaf:
  assumes "leaf p c s"
  shows "begin_destroy c s = Inr (True, (upd c (\<lambda>sc. sc\<lparr>object := kStartedDestruction\<rparr>) s)\<lparr>started := started s @ [c]\<rparr>)"
  using assms by (auto simp: begin_destroy_def leaf_def is_root_def Let_def)

lemma leaf_frame [simp]:
  "leaf p c (s\<lparr>started := q\<rparr>) = leaf p c s" "leaf p c (s\<lparr>async_ops := q\<rparr>) = leaf p c s"
  by (simp_all add: leaf_def)

lemma leaf_upd:
  assumes "leaf p c s" "\<And>sc. sc_parent (f sc) = sc_parent sc" "\<And>sc. sc_children (f sc) = sc_children sc"
    "\<And>sc. held (f sc) = held sc"
  shows "leaf p c (upd i f s)"
  using assms by (cases "scopes s i") (auto simp: leaf_def the_scope_def upd_def)

text \<open>Notifying an unlocked leaf that has not been notified yet.\<close>

lemma notify_leaf:
  assumes "leaf p c s" "user (the_scope c s) = kUnlocked" "\<not> parent_triggered (the_scope c s)"
  shows "notify_children pol p (c # rest) s =
    Option.bind (handleStartDestroy pol c (upd c (\<lambda>sc. sc\<lparr>parent_triggered := True\<rparr>) s)) (\<lambda>r.
      case r of Inl f \<Rightarrow> Some (Inl f)
      | Inr s \<Rightarrow>
          if c \<notin> set (sc_children (the_scope p s)) then Some (Inl (Undefined ''invalidated iterator''))
          else notify_children pol p rest s)"
  using assms
  by (subst notify_children.simps) (auto simp: leaf_def notify_children.simps [of _ c "[]"] Let_def)

lemma Sync_start_leaf:
  assumes "leaf p c s" "\<not> parent_triggered (the_scope p s)"
  shows "handleStartDestroy Sync c s = Some (Inr (finish_leaf p c
    ((upd c (\<lambda>sc. sc\<lparr>object := kStartedDestruction\<rparr>) s)\<lparr>started := started s @ [c]\<rparr>)))"
proof -
  have "leaf p c ((upd c (\<lambda>sc. sc\<lparr>object := kStartedDestruction\<rparr>) s)\<lparr>started := started s @ [c]\<rparr>)"
    using leaf_upd [OF assms(1)] by simp
  from finish_destroy_leaf [OF this] assms begin_destroy_leaf [OF assms(1)] show ?thesis
    by (auto simp: handleStartDestroy_def leaf_def)
qed

lemma finish_leaf_erased:
  "leaf p c s \<Longrightarrow> c \<notin> set (sc_children (the_scope p (finish_leaf p c s)))"
  by (auto simp: finish_leaf_def erase_child_def leaf_def)

text \<open>
  With the compiled, synchronous \<^verbatim>\<open>StartDestroy\<close>, detaching a scope while it has an unlocked leaf
  child is undefined behaviour: the child removes itself from the set its parent is iterating.
\<close>

theorem sync_detach_with_child:
  assumes "user (the_scope p s) = kUnlocked" "\<not> parent_triggered (the_scope p s)"
    and "sc_children (the_scope p s) = c # rest" "leaf p c s"
    and "user (the_scope c s) = kUnlocked" "\<not> parent_triggered (the_scope c s)"
  shows "Detach Sync p s = Some (Inl (Undefined ''invalidated iterator''))"
proof -
  let ?s = "upd p (\<lambda>sc. sc\<lparr>user := kDetached\<rparr>) s"
  let ?t = "upd c (\<lambda>sc. sc\<lparr>parent_triggered := True\<rparr>) ?s"
  have ne: "scopes s p \<noteq> None" "p \<noteq> c" "scopes s c \<noteq> None" using assms(4) by (auto simp: leaf_def)
  have leafs: "leaf p c ?s" "leaf p c ?t"
    by (intro leaf_upd assms(4) | simp)+
  have "\<not> parent_triggered (the_scope p ?t)" using assms(2) ne by simp
  note start = Sync_start_leaf [OF leafs(2) this]
  have "notify_children Sync p (c # rest) ?s = Some (Inl (Undefined ''invalidated iterator''))"
    using notify_leaf [OF leafs(1)] assms(5,6) ne start
      finish_leaf_erased [OF leaf_upd [OF leafs(2), of "\<lambda>sc. sc\<lparr>object := kStartedDestruction\<rparr>" c], simplified]
    by (auto simp: finish_leaf_def erase_child_def)
  then show ?thesis
    using assms(1-3) ne by (simp add: Detach_def notify_and_start_def)
qed

theorem sync_detach_with_child_witness:
  "Detach Sync 1 (Add_child 1 2 ((Add_child 0 1 ((blocking_scope 0)
      \<lparr>scopes := (\<lambda>_. None)(0 \<mapsto> new_scope None, 1 \<mapsto> new_scope (Some 0), 2 \<mapsto> new_scope (Some 1))\<rparr>))))
    = Some (Inl (Undefined ''invalidated iterator''))"
  by (rule sync_detach_with_child [where c = 2 and rest = "[]"])
    (simp_all add: Add_child_def blocking_scope_def new_scope_def leaf_def the_scope_def upd_def)

section \<open>Deferred destruction\<close>

definition start_leaf :: "nat \<Rightarrow> store \<Rightarrow> store" where
  "start_leaf c s =
     enqueue_finish c ((upd c (\<lambda>sc. sc\<lparr>object := kStartedDestruction\<rparr>) s)\<lparr>started := started s @ [c]\<rparr>)"

lemma Deferred_start_leaf:
  "leaf p c s \<Longrightarrow> handleStartDestroy Deferred c s = Some (Inr (start_leaf c s))"
  using begin_destroy_leaf [of p c s] by (simp add: handleStartDestroy_def start_leaf_def)

text \<open>A parent with one unlocked leaf child, both still untouched.\<close>

definition parent_of_leaf :: "nat \<Rightarrow> nat \<Rightarrow> store \<Rightarrow> bool" where
  "parent_of_leaf p c s \<longleftrightarrow> leaf p c s \<and> sc_children (the_scope p s) = [c] \<and> async_ops s = []
     \<and> user (the_scope p s) = kUnlocked \<and> \<not> parent_triggered (the_scope p s)
     \<and> user (the_scope c s) = kUnlocked \<and> \<not> parent_triggered (the_scope c s)"

definition detached_parent :: "nat \<Rightarrow> nat \<Rightarrow> store \<Rightarrow> store" where
  "detached_parent p c s =
     start_leaf c (upd c (\<lambda>sc. sc\<lparr>parent_triggered := True\<rparr>) (upd p (\<lambda>sc. sc\<lparr>user := kDetached\<rparr>) s))"

lemma Deferred_detach_parent:
  assumes "parent_of_leaf p c s"
  shows "Detach Deferred p s = Some (Inr (detached_parent p c s))"
proof -
  let ?s = "upd p (\<lambda>sc. sc\<lparr>user := kDetached\<rparr>) s"
  let ?t = "upd c (\<lambda>sc. sc\<lparr>parent_triggered := True\<rparr>) ?s"
  have ne: "scopes s p \<noteq> None" "p \<noteq> c" "scopes s c \<noteq> None" using assms by (auto simp: parent_of_leaf_def leaf_def)
  have leafs: "leaf p c ?s" "leaf p c ?t"
    using assms by (intro leaf_upd | simp add: parent_of_leaf_def)+
  have "notify_children Deferred p [c] ?s = Some (Inr (detached_parent p c s))"
    using notify_leaf [OF leafs(1), of Deferred "[]"] Deferred_start_leaf [OF leafs(2)] assms ne
    by (simp add: parent_of_leaf_def detached_parent_def start_leaf_def enqueue_finish_def notify_children.simps [of _ p "[]"])
  moreover have "sc_children (the_scope p (detached_parent p c s)) = [c]"
    using assms ne by (simp add: parent_of_leaf_def detached_parent_def start_leaf_def enqueue_finish_def)
  ultimately show ?thesis using assms ne
    by (simp add: Detach_def notify_and_start_def parent_of_leaf_def)
qed

lemma detached_parent_leaf:
  assumes "parent_of_leaf p c s"
  shows "leaf p c (detached_parent p c s)"
  unfolding detached_parent_def start_leaf_def enqueue_finish_def
  using assms by (simp add: parent_of_leaf_def) (intro leaf_upd | simp)+

text \<open>The blocking scope's loop polls for ever when the queue is empty and a child remains.\<close>

definition stuck :: "nat \<Rightarrow> store \<Rightarrow> bool" where
  "stuck root s \<longleftrightarrow> async_ops s = [] \<and> sc_children (the_scope root s) \<noteq> [] \<and> object (the_scope root s) \<noteq> kDestroyed"

lemma wait_loop_stuck: "stuck root s \<Longrightarrow> wait_loop pol root s = None"
proof (rule ccontr)
  assume "stuck root s" "wait_loop pol root s \<noteq> None"
  then obtain r where "wait_loop pol root s = Some r" by auto
  then have "\<not> stuck root s"
  proof (rule wait_loop.raw_induct [where P = "\<lambda>pol root s r. \<not> stuck root s", rotated])
    fix f pol root s r
    assume IH: "\<And>pol root s r. f pol root s = Some r \<Longrightarrow> \<not> stuck root s"
      and eq: "(if sc_children (the_scope root s) \<noteq> [] \<and> object (the_scope root s) \<noteq> kDestroyed
        then Option.bind (scopes_Poll pol s) (\<lambda>r. case r of Inl f \<Rightarrow> Some (Inl f) | Inr s \<Rightarrow> f pol root s)
        else Some (Inr s)) = Some r"
    show "\<not> stuck root s"
    proof
      assume st: "stuck root s"
      then have "f pol root s = Some r" using eq by (simp add: stuck_def scopes_Poll_def)
      with IH st show False by blast
    qed
  qed
  with \<open>stuck root s\<close> show False by simp
qed

text \<open>
  With deferred destruction, detaching a scope that still has a child destroys the child but
  never the scope: \<^verbatim>\<open>Remove\<close> starts it only if its own parent has triggered destruction. The
  destructor of the blocking scope then polls an empty queue for ever.
\<close>

theorem deferred_detach_hangs:
  assumes "parent_of_leaf p c s" "scopes s root \<noteq> None" "sc_parent (the_scope root s) = None"
    and "sc_children (the_scope root s) = [p]" "object (the_scope root s) = kValid"
    and "sc_parent (the_scope p s) = Some root"
  shows "\<exists>t u. Detach Deferred p s = Some (Inr t) \<and> scopes_Poll Deferred t = Some (Inr u)
    \<and> finished u = finished s @ [c] \<and> started u = started s @ [c]
    \<and> sc_children (the_scope p u) = [] \<and> held (the_scope p u) = held (the_scope p s)
    \<and> blocking_destroy Deferred root u = None"
proof -
  have ne: "p \<noteq> c" "root \<noteq> p" "root \<noteq> c" "scopes s p \<noteq> None" "scopes s c \<noteq> None"
    using assms by (auto simp: parent_of_leaf_def leaf_def)
  define t where "t = detached_parent p c s"
  define t' where "t' = t\<lparr>async_ops := []\<rparr>"
  define u where "u = finish_leaf p c t'"
  have t: "the_scope p t = (the_scope p s)\<lparr>user := kDetached\<rparr>" "the_scope root t = the_scope root s"
    "async_ops t = [c]" "scopes t root \<noteq> None" "scopes t p \<noteq> None"
    using ne assms(1,2) by (auto simp: t_def detached_parent_def start_leaf_def enqueue_finish_def parent_of_leaf_def)
  have "leaf p c t'" using detached_parent_leaf [OF assms(1)] by (simp add: t_def t'_def)
  moreover have "\<not> parent_triggered (the_scope p t')" using t(1) assms(1) by (simp add: t'_def parent_of_leaf_def)
  ultimately have poll: "scopes_Poll Deferred t = Some (Inr u)"
    using finish_destroy_leaf [of p c t' Deferred] t(3) by (simp add: scopes_Poll_def u_def t'_def)
  have u: "the_scope p u = (the_scope p s)\<lparr>user := kDetached, sc_children := []\<rparr>" "the_scope root u = the_scope root s"
    "async_ops u = []" "finished u = finished s @ [c]" "started u = started s @ [c]" "scopes u root \<noteq> None" "scopes u p \<noteq> None"
    using ne t assms(1) by (auto simp: u_def t'_def finish_leaf_def erase_child_def parent_of_leaf_def
        t_def detached_parent_def start_leaf_def enqueue_finish_def)
  let ?v = "upd p (\<lambda>sc. sc\<lparr>parent_triggered := True\<rparr>) (upd root (\<lambda>sc. sc\<lparr>parent_triggered := True\<rparr>) u)"
  have "notify_children Deferred root [p] (upd root (\<lambda>sc. sc\<lparr>parent_triggered := True\<rparr>) u) = Some (Inr ?v)"
    using u ne assms(1,4) by (subst notify_children.simps)
      (simp add: Let_def notify_children.simps [of _ root "[]"] parent_of_leaf_def)
  moreover have "stuck root ?v" using u ne assms(4,5) by (simp add: stuck_def)
  ultimately have "blocking_destroy Deferred root u = None"
    using u ne assms(4) wait_loop_stuck by (simp add: blocking_destroy_def)
  with poll u Deferred_detach_parent [OF assms(1)] show ?thesis by (auto simp: t_def)
qed

definition small_tree :: store where
  "small_tree = Add_child 1 2 (Add_child 0 1 ((blocking_scope 0)
     \<lparr>scopes := (\<lambda>_. None)(0 \<mapsto> new_scope None, 1 \<mapsto> new_scope (Some 0), 2 \<mapsto> new_scope (Some 1))\<rparr>))"

lemmas small_tree_simps = small_tree_def Add_child_def blocking_scope_def new_scope_def leaf_def the_scope_def
  upd_def parent_of_leaf_def

theorem deferred_detach_hangs_witness:
  "\<exists>t u. Detach Deferred 1 small_tree = Some (Inr t) \<and> scopes_Poll Deferred t = Some (Inr u)
    \<and> finished u = finished small_tree @ [2] \<and> started u = started small_tree @ [2]
    \<and> sc_children (the_scope 1 u) = [] \<and> held (the_scope 1 u) = held (the_scope 1 small_tree)
    \<and> blocking_destroy Deferred 0 u = None"
  by (rule deferred_detach_hangs) (simp_all add: small_tree_simps)

text \<open>
  Detaching the parent and then its child, before the context is polled, calls the child's
  \<^verbatim>\<open>StartDestroy\<close> twice, and polling runs the held object's destructor on a destroyed object.
\<close>

theorem deferred_detach_twice:
  assumes "parent_of_leaf p c s"
  shows "\<exists>t u. Detach Deferred p s = Some (Inr t) \<and> Detach Deferred c t = Some (Inr u)
    \<and> started u = started s @ [c, c]
    \<and> scopes_Poll Deferred u = Some (Inl (Undefined ''destructor of a destroyed object''))"
proof -
  have ne: "p \<noteq> c" "scopes s p \<noteq> None" "scopes s c \<noteq> None"
    using assms by (auto simp: parent_of_leaf_def leaf_def)
  define t where "t = detached_parent p c s"
  define t1 where "t1 = upd c (\<lambda>sc. sc\<lparr>user := kDetached\<rparr>) t"
  define u where "u = start_leaf c t1"
  have leafs: "leaf p c t1" "leaf p c u"
    using detached_parent_leaf [OF assms]
    by (simp_all add: t_def t1_def u_def start_leaf_def enqueue_finish_def leaf_upd)
  have t: "the_scope p t = (the_scope p s)\<lparr>user := kDetached\<rparr>" "async_ops t = [c]" "started t = started s @ [c]"
    "parent_triggered (the_scope c t)" "user (the_scope c t) = kUnlocked" "sc_children (the_scope c t) = []" "scopes t c \<noteq> None"
    using ne assms by (auto simp: t_def detached_parent_def start_leaf_def enqueue_finish_def parent_of_leaf_def leaf_def)
  have detach: "Detach Deferred c t = Some (Inr u)"
    using t Deferred_start_leaf [OF leafs(1)] by (simp add: Detach_def t1_def u_def Let_def)
  define v where "v = u\<lparr>async_ops := [c]\<rparr>"
  have "leaf p c v" using leafs(2) by (simp add: v_def)
  moreover have "\<not> parent_triggered (the_scope p v)"
    using t(1) ne assms by (simp add: v_def u_def t1_def start_leaf_def enqueue_finish_def parent_of_leaf_def)
  ultimately have first: "finish_destroy Deferred c v = Some (Inr (finish_leaf p c v))"
    by (rule finish_destroy_leaf)
  have gone: "\<not> held (the_scope c (finish_leaf p c v))" "async_ops (finish_leaf p c v) = [c]"
    "scopes (finish_leaf p c v) c \<noteq> None"
    using ne t(7) by (auto simp: finish_leaf_def erase_child_def v_def u_def t1_def start_leaf_def enqueue_finish_def)
  have second: "finish_destroy Deferred c ((finish_leaf p c v)\<lparr>async_ops := []\<rparr>)
      = Some (Inl (Undefined ''destructor of a destroyed object''))"
    using gone by (subst finish_destroy.simps) (simp add: end_held_def Let_def)
  have "async_ops u = [c, c]" using t by (simp add: u_def t1_def start_leaf_def enqueue_finish_def)
  then have "scopes_Poll Deferred u = Some (Inl (Undefined ''destructor of a destroyed object''))"
    using first second gone by (simp add: scopes_Poll_def v_def numeral_2_eq_2)
  moreover have "started u = started s @ [c, c]"
    using t by (simp add: u_def t1_def start_leaf_def enqueue_finish_def)
  ultimately show ?thesis using Deferred_detach_parent [OF assms] detach by (auto simp: t_def)
qed

theorem deferred_detach_twice_witness:
  "\<exists>t u. Detach Deferred 1 small_tree = Some (Inr t) \<and> Detach Deferred 2 t = Some (Inr u)
    \<and> started u = started small_tree @ [2, 2]
    \<and> scopes_Poll Deferred u = Some (Inl (Undefined ''destructor of a destroyed object''))"
  by (rule deferred_detach_twice) (simp add: small_tree_simps)

section \<open>Detaching leaves first\<close>

datatype async_op =
    AMake nat nat
  | ALock nat
  | AUnlock nat
  | ADetach nat

definition returns :: "(fault + store) option \<Rightarrow> fault + store" where
  "returns r = (case r of None \<Rightarrow> Inl (Undefined ''does not return'') | Some r \<Rightarrow> r)"

fun async_step :: "async_op \<Rightarrow> store \<Rightarrow> fault + store" where
  "async_step (AMake p c) s = MakeUniqueAsyncScoped p c s"
| "async_step (ALock i) s = Inr (snd (holder_Lock (Some i) s))"
| "async_step (AUnlock i) s = returns (locked_destroy Sync (Some i) s)"
| "async_step (ADetach i) s = returns (holder_destroy Sync (Some i) s)"

text \<open>A client that keeps every holder until its scope has no child left.\<close>

fun async_pre :: "async_op \<Rightarrow> store \<Rightarrow> bool" where
  "async_pre (AMake p c) s = (scopes s c = None \<and> scopes s p \<noteq> None \<and> held (the_scope p s))"
| "async_pre (ALock i) s = (scopes s i \<noteq> None)"
| "async_pre (AUnlock i) s = (scopes s i \<noteq> None \<and> user (the_scope i s) = kLocked)"
| "async_pre (ADetach i) s = (scopes s i \<noteq> None \<and> \<not> is_root i s \<and> held (the_scope i s)
     \<and> user (the_scope i s) = kUnlocked \<and> sc_children (the_scope i s) = [])"

fun detached :: "async_op \<Rightarrow> nat list \<Rightarrow> nat list" where
  "detached (ADetach i) xs = xs @ [i]"
| "detached _ xs = xs"

fun made :: "async_op \<Rightarrow> (nat \<times> nat) set \<Rightarrow> (nat \<times> nat) set" where
  "made (AMake p c) E = insert (p, c) E"
| "made _ E = E"

lemma set_fold_detached: "set (fold detached xs ys) = set ys \<union> {i. ADetach i \<in> set xs}"
proof (induction xs arbitrary: ys)
  case (Cons x xs)
  then show ?case by (cases x) auto
qed simp

lemma fold_made: "fold made xs E = E \<union> {(p, c). AMake p c \<in> set xs}"
proof (induction xs arbitrary: E)
  case (Cons x xs)
  then show ?case by (cases x) auto
qed simp

text \<open>What a client sees of the store: the objects destroyed so far, who was made below whom, and the
  scopes without a parent.\<close>

definition parents :: "store \<Rightarrow> (nat \<times> nat) set" where
  "parents s = {(p, c). scopes s c \<noteq> None \<and> sc_parent (the_scope c s) = Some p}"

definition roots :: "store \<Rightarrow> nat set" where
  "roots s = {r. scopes s r \<noteq> None \<and> sc_parent (the_scope r s) = None}"

definition tree_view :: "store \<Rightarrow> nat list \<times> (nat \<times> nat) set \<times> nat set" where
  "tree_view s = (finished s, parents s, roots s)"

fun tree_step :: "async_op \<Rightarrow> nat list \<times> (nat \<times> nat) set \<times> nat set \<Rightarrow> nat list \<times> (nat \<times> nat) set \<times> nat set" where
  "tree_step x (fin, E, R) = (detached x fin, made x E, R)"

lemma fold_tree_step: "fold tree_step xs (fin, E, R) = (fold detached xs fin, fold made xs E, R)"
  by (induction xs arbitrary: fin E) simp_all

text \<open>Every scope is in its parent's set exactly as long as its object lives, no destruction was
  triggered from above, and each destroyed object was started and finished once.\<close>

definition scope_ok :: "store \<Rightarrow> nat \<Rightarrow> scope \<Rightarrow> bool" where
  "scope_ok s i sc \<longleftrightarrow> \<not> parent_triggered sc \<and> (sc_parent sc = None \<longrightarrow> object sc = kValid)
     \<and> (\<forall>c \<in> set (sc_children sc). c \<noteq> i \<and> scopes s c \<noteq> None \<and> sc_parent (the_scope c s) = Some i)
     \<and> (\<forall>p. sc_parent sc = Some p \<longrightarrow> p \<noteq> i \<and> scopes s p \<noteq> None
          \<and> (i \<in> set (sc_children (the_scope p s)) \<longleftrightarrow> held sc))
     \<and> (held sc \<longleftrightarrow> i \<notin> set (finished s))"

definition tree_inv :: "store \<Rightarrow> bool" where
  "tree_inv s \<longleftrightarrow> async_ops s = [] \<and> started s = finished s \<and> distinct (finished s)
     \<and> (\<forall>i \<in> set (finished s). scopes s i \<noteq> None) \<and> (\<forall>i. scopes s i \<noteq> None \<longrightarrow> scope_ok s i (the_scope i s))"

lemma tree_inv_ok: "tree_inv s \<Longrightarrow> scopes s i \<noteq> None \<Longrightarrow> scope_ok s i (the_scope i s)"
  by (simp add: tree_inv_def)

lemma tree_inv_new: "tree_inv (blocking_scope root)"
  by (simp add: tree_inv_def blocking_scope_def new_scope_def scope_ok_def the_scope_def)

lemma tree_inv_user:
  assumes "tree_inv s" "scopes s i \<noteq> None"
  shows "tree_inv (upd i (\<lambda>sc. sc\<lparr>user := x\<rparr>) s)"
proof -
  have "scope_ok (upd i (\<lambda>sc. sc\<lparr>user := x\<rparr>) s) j (the_scope j (upd i (\<lambda>sc. sc\<lparr>user := x\<rparr>) s))"
    if "scopes s j \<noteq> None" for j
    using tree_inv_ok [OF assms(1) that] assms(2) by (auto simp: scope_ok_def)
  then have "\<forall>j. scopes (upd i (\<lambda>sc. sc\<lparr>user := x\<rparr>) s) j \<noteq> None \<longrightarrow>
      scope_ok (upd i (\<lambda>sc. sc\<lparr>user := x\<rparr>) s) j (the_scope j (upd i (\<lambda>sc. sc\<lparr>user := x\<rparr>) s))"
    by (simp del: the_scope_upd)
  with assms(1) show ?thesis by (simp add: tree_inv_def del: the_scope_upd)
qed

lemma tree_inv_make:
  assumes "tree_inv s" "async_pre (AMake p c) s"
  shows "\<exists>t. MakeUniqueAsyncScoped p c s = Inr t \<and> tree_inv t \<and> finished t = finished s
    \<and> parents t = insert (p, c) (parents s) \<and> roots t = roots s"
proof -
  define t where "t = Add_child p c (s\<lparr>scopes := (scopes s)(c \<mapsto> new_scope (Some p))\<rparr>)"
  have ne: "c \<noteq> p" "scopes s p \<noteq> None" "scopes s c = None" "held (the_scope p s)" using assms(2) by auto
  have fin: "c \<notin> set (finished s)" using assms(1) ne(3) by (auto simp: tree_inv_def)
  have fields: "finished t = finished s" "started t = started s" "async_ops t = async_ops s"
    "scopes t j \<noteq> None \<longleftrightarrow> j = c \<or> scopes s j \<noteq> None"
    "the_scope j t = (if j = c then new_scope (Some p)
       else if j = p then (the_scope p s)\<lparr>sc_children := c # removeAll c (sc_children (the_scope p s))\<rparr>
       else the_scope j s)" for j
    using ne by (auto simp: t_def Add_child_def the_scope_def upd_def)
  have unused: "c \<notin> set (sc_children (the_scope j s))" if "scopes s j \<noteq> None" for j
    using tree_inv_ok [OF assms(1) that] ne(3) by (auto simp: scope_ok_def)
  have "scope_ok t j (the_scope j t)" if j: "scopes t j \<noteq> None" for j
  proof -
    consider "j = c" | "j = p" | "j \<noteq> c" "j \<noteq> p" "scopes s j \<noteq> None" using j fields(4) [of j] by blast
    then show ?thesis
    proof cases
      case 1
      then show ?thesis using ne fin fields by (auto simp: scope_ok_def new_scope_def)
    next
      case 2
      then show ?thesis
        using tree_inv_ok [OF assms(1) ne(2)] ne fields(1,4,5) by (auto simp: scope_ok_def new_scope_def)
    next
      case 3
      then show ?thesis
        using tree_inv_ok [OF assms(1) 3(3)] ne unused [OF 3(3)] fields(1,4,5) by (auto simp: scope_ok_def)
    qed
  qed
  then have "tree_inv t" using assms(1) fields by (auto simp: tree_inv_def)
  moreover have "parents t = insert (p, c) (parents s)" "roots t = roots s"
    using ne fields(4,5) by (auto simp: parents_def roots_def new_scope_def split: if_splits)
  ultimately show ?thesis using ne fields(1) by (auto simp: MakeUniqueAsyncScoped_def simp flip: t_def)
qed

definition detach_leaf :: "nat \<Rightarrow> nat \<Rightarrow> store \<Rightarrow> store" where
  "detach_leaf p i s =
     (let u = upd i (\<lambda>sc. sc\<lparr>user := kDetached\<rparr>) s
      in finish_leaf p i ((upd i (\<lambda>sc. sc\<lparr>object := kStartedDestruction\<rparr>) u)\<lparr>started := started u @ [i]\<rparr>))"

lemma Detach_Sync_leaf:
  assumes "leaf p i s" "user (the_scope i s) = kUnlocked" "\<not> parent_triggered (the_scope i s)"
    "\<not> parent_triggered (the_scope p s)"
  shows "Detach Sync i s = Some (Inr (detach_leaf p i s))"
proof -
  let ?u = "upd i (\<lambda>sc. sc\<lparr>user := kDetached\<rparr>) s"
  have "leaf p i ?u" using leaf_upd [OF assms(1)] by simp
  moreover have "\<not> parent_triggered (the_scope p ?u)" using assms by (simp add: leaf_def)
  ultimately show ?thesis
    using Sync_start_leaf [of p i ?u] assms
    by (simp add: Detach_def notify_and_start_def notify_children.simps [of _ i "[]"] detach_leaf_def leaf_def Let_def)
qed

lemma tree_inv_detach:
  assumes "tree_inv s" "async_pre (ADetach i) s"
  shows "\<exists>t. Detach Sync i s = Some (Inr t) \<and> tree_inv t \<and> finished t = finished s @ [i]
    \<and> parents t = parents s \<and> roots t = roots s"
proof -
  obtain p where p: "sc_parent (the_scope i s) = Some p" using assms(2) by (auto simp: is_root_def)
  have i: "scopes s i \<noteq> None" "held (the_scope i s)" "user (the_scope i s) = kUnlocked"
    "sc_children (the_scope i s) = []" using assms(2) by auto
  note ok = tree_inv_ok [OF assms(1) i(1)]
  then have ip: "p \<noteq> i" "scopes s p \<noteq> None" "i \<notin> set (finished s)" "\<not> parent_triggered (the_scope i s)"
    using p i(2) by (auto simp: scope_ok_def)
  have leaf: "leaf p i s" using p i ip by (auto simp: leaf_def)
  have "\<not> parent_triggered (the_scope p s)"
    using tree_inv_ok [OF assms(1) ip(2)] by (simp add: scope_ok_def)
  note detach = Detach_Sync_leaf [OF leaf i(3) ip(4) this]
  define t where "t = detach_leaf p i s"
  have "Detach Sync i s = Some (Inr t)" using detach by (simp add: t_def)
  moreover have fields: "finished t = finished s @ [i]" "started t = started s @ [i]" "async_ops t = async_ops s"
    "scopes t j \<noteq> None \<longleftrightarrow> scopes s j \<noteq> None"
    "the_scope j t = (if j = i then (the_scope i s)\<lparr>user := kDetached, object := kDestroyed, held := False\<rparr>
       else if j = p then (the_scope p s)\<lparr>sc_children := removeAll i (sc_children (the_scope p s))\<rparr>
       else the_scope j s)" for j
    using i(1) ip(1,2) by (auto simp: t_def detach_leaf_def finish_leaf_def erase_child_def)
  moreover have "scope_ok t j (the_scope j t)" if j: "scopes t j \<noteq> None" for j
  proof -
    have okj: "scope_ok s j (the_scope j s)" using j fields(4) tree_inv_ok [OF assms(1)] by blast
    consider "j = i" | "j = p" | "j \<noteq> i" "j \<noteq> p" by blast
    then show ?thesis
    proof cases
      case 1
      with okj fields(1,4,5) ip i p show ?thesis by (auto simp: scope_ok_def)
    next
      case 2
      with okj fields(1,4,5) ip i p show ?thesis by (auto simp: scope_ok_def)
    next
      case 3
      with okj have "i \<notin> set (sc_children (the_scope j s))" using p by (auto simp: scope_ok_def)
      with 3 okj fields(1,4,5) ip i p show ?thesis by (auto simp: scope_ok_def)
    qed
  qed
  moreover have "parents t = parents s" "roots t = roots s"
    using fields(4,5) i(1) ip(2) by (auto simp: parents_def roots_def split: if_splits)
  ultimately show ?thesis using assms(1) ip(3) i(1) by (auto simp: tree_inv_def)
qed

lemma tree_view_user: "tree_view (upd i (\<lambda>sc. sc\<lparr>user := x\<rparr>) s) = tree_view s"
  by (auto simp: tree_view_def parents_def roots_def the_scope_def upd_def)

interpretation async_scopes: refined_machine async_step async_pre tree_inv tree_view tree_step
proof
  fix s x
  assume inv: "tree_inv s" and pre: "async_pre x s"
  have both: "\<exists>t. async_step x s = Inr t \<and> tree_inv t \<and> tree_view t = tree_step x (tree_view s)"
  proof (cases x)
    case (AMake p c)
    with tree_inv_make [OF inv, of p c] pre show ?thesis by (auto simp: tree_view_def)
  next
    case (ALock i)
    then have "async_step x s = Inr s \<or> async_step x s = Inr (upd i (\<lambda>sc. sc\<lparr>user := kLocked\<rparr>) s)"
      by (simp add: holder_Lock_def scope_Lock_def)
    moreover have "tree_inv (upd i (\<lambda>sc. sc\<lparr>user := kLocked\<rparr>) s)"
      using tree_inv_user [OF inv] pre ALock by simp
    moreover have "tree_step x (tree_view s) = tree_view s" by (simp add: ALock tree_view_def)
    ultimately show ?thesis using inv tree_view_user by auto
  next
    case (AUnlock i)
    then have i: "scopes s i \<noteq> None" "user (the_scope i s) = kLocked" using pre by simp_all
    have "\<not> parent_triggered (the_scope i s)"
      using tree_inv_ok [OF inv i(1)] by (simp add: scope_ok_def)
    with i have "async_step x s = Inr (upd i (\<lambda>sc. sc\<lparr>user := kUnlocked\<rparr>) s)"
      by (simp add: AUnlock locked_destroy_def scope_Unlock_def returns_def Let_def)
    moreover have "tree_step x (tree_view s) = tree_view s" by (simp add: AUnlock tree_view_def)
    ultimately show ?thesis using tree_inv_user [OF inv i(1)] tree_view_user by simp
  next
    case (ADetach i)
    with tree_inv_detach [OF inv, of i] pre show ?thesis
      by (auto simp: holder_destroy_def returns_def tree_view_def)
  qed
  then show "\<exists>s'. async_step x s = Inr s' \<and> tree_inv s'" by blast
  show "tree_view s' = tree_step x (tree_view s)" if "async_step x s = Inr s'" for s'
    using both that by auto
qed

section \<open>When the blocking scope returns\<close>

text \<open>
  With synchronous destruction nothing is ever queued, and the root is destroyed only when it has no
  child left: its destructor returns exactly if it has no child to notify.
\<close>

definition root_waits :: "nat \<Rightarrow> store \<Rightarrow> bool" where
  "root_waits root s \<longleftrightarrow> scopes s root \<noteq> None \<and> sc_parent (the_scope root s) = None \<and> async_ops s = []
     \<and> (object (the_scope root s) = kDestroyed \<longrightarrow> sc_children (the_scope root s) = [])"

lemma root_waits_triggered:
  "root_waits root s \<Longrightarrow> root_waits root (upd i (\<lambda>sc. sc\<lparr>parent_triggered := True\<rparr>) s)"
  by (cases "scopes s i") (auto simp: root_waits_def the_scope_def upd_def)

lemma root_waits_begin:
  "begin_destroy i s = Inr (b, u) \<Longrightarrow> root_waits root s \<Longrightarrow> sc_children (the_scope i s) = [] \<Longrightarrow> root_waits root u"
  by (cases "scopes s i")
    (auto simp: root_waits_def begin_destroy_def Let_def is_root_def the_scope_def upd_def split: if_splits)

lemma root_waits_end:
  "end_held i s = Inr (p, u) \<Longrightarrow> root_waits root s \<Longrightarrow> root_waits root (erase_child p i u)"
  by (cases "scopes s i"; cases "scopes s p")
    (auto simp: root_waits_def end_held_def erase_child_def Let_def the_scope_def upd_def split: if_splits option.splits)

lemma finish_destroy_waits:
  assumes "finish_destroy pol i s = Some r"
  shows "pol = Sync \<longrightarrow> (\<forall>u. r = Inr u \<longrightarrow> root_waits root s \<longrightarrow> root_waits root u)"
proof (rule finish_destroy.raw_induct [where P = "\<lambda>pol i s r. pol = Sync \<longrightarrow> (\<forall>u. r = Inr u \<longrightarrow>
    root_waits root s \<longrightarrow> root_waits root u)", OF _ assms])
  fix f pol i s r
  assume IH: "\<And>pol i s r. f pol i s = Some r \<Longrightarrow>
      pol = Sync \<longrightarrow> (\<forall>u. r = Inr u \<longrightarrow> root_waits root s \<longrightarrow> root_waits root u)"
    and eq: "(case end_held i s of
        Inl f \<Rightarrow> Some (Inl f)
      | Inr (p, s) \<Rightarrow>
          let s = erase_child p i s
          in if \<not> removal_starts p s then Some (Inr s)
             else
               case begin_destroy p s of
                 Inl f \<Rightarrow> Some (Inl f)
               | Inr (called, s) \<Rightarrow>
                   if \<not> called then Some (Inr s)
                   else if pol = Sync then f pol p s
                   else Some (Inr (enqueue_finish p s))) = Some r"
  show "pol = Sync \<longrightarrow> (\<forall>u. r = Inr u \<longrightarrow> root_waits root s \<longrightarrow> root_waits root u)"
  proof (intro impI allI)
    fix u
    assume pol: "pol = Sync" and r: "r = Inr u" and root: "root_waits root s"
    obtain p a where a: "end_held i s = Inr (p, a)" using eq r by (auto split: sum.splits)
    define b where "b = erase_child p i a"
    have b: "root_waits root b" unfolding b_def by (rule root_waits_end [OF a root])
    show "root_waits root u"
    proof (cases "removal_starts p b")
      case False
      with eq a r b show ?thesis by (simp add: Let_def b_def)
    next
      case True
      with eq a r obtain called d where d: "begin_destroy p b = Inr (called, d)"
        by (auto simp: Let_def b_def split: sum.splits)
      have "root_waits root d" using True by (intro root_waits_begin [OF d b]) (simp add: removal_starts_def)
      moreover have "u = d \<or> f pol p d = Some (Inr u)"
        using eq a r d True pol by (auto simp: Let_def b_def split: if_splits)
      ultimately show ?thesis using IH pol by blast
    qed
  qed
qed

lemma handleStartDestroy_waits:
  assumes "handleStartDestroy Sync i s = Some (Inr u)" "root_waits root s" "sc_children (the_scope i s) = []"
  shows "root_waits root u"
proof -
  obtain b t where t: "begin_destroy i s = Inr (b, t)" using assms(1) by (auto simp: handleStartDestroy_def split: sum.splits)
  with assms root_waits_begin [OF t assms(2,3)] finish_destroy_waits [of Sync i t "Inr u" root] show ?thesis
    by (auto simp: handleStartDestroy_def split: if_splits)
qed

lemma bind_sum_Some:
  "Option.bind m (\<lambda>r. case r of Inl f \<Rightarrow> Some (Inl f) | Inr s \<Rightarrow> g s) = Some (Inr u)
     \<longleftrightarrow> (\<exists>t. m = Some (Inr t) \<and> g t = Some (Inr u))"
  by (cases m) (auto split: sum.splits)

lemma notify_children_waits:
  assumes "notify_children pol p cs s = Some r"
  shows "pol = Sync \<longrightarrow> (\<forall>u. r = Inr u \<longrightarrow> root_waits root s \<longrightarrow> root_waits root u
    \<and> (if cs = [] then u = s else sc_children (the_scope p u) \<noteq> []))"
  using assms
proof (rule notify_children.raw_induct [where P = "\<lambda>pol p cs s r. pol = Sync \<longrightarrow> (\<forall>u. r = Inr u \<longrightarrow>
    root_waits root s \<longrightarrow> root_waits root u \<and> (if cs = [] then u = s else sc_children (the_scope p u) \<noteq> []))", rotated])
  fix f pol p cs s r
  assume IH: "\<And>pol p cs s r. f pol p cs s = Some r \<Longrightarrow> pol = Sync \<longrightarrow> (\<forall>u. r = Inr u \<longrightarrow>
      root_waits root s \<longrightarrow> root_waits root u \<and> (if cs = [] then u = s else sc_children (the_scope p u) \<noteq> []))"
    and eq: "(case cs of
        [] \<Rightarrow> Some (Inr s)
      | c # rest \<Rightarrow>
          Option.bind
            (if parent_triggered (the_scope c s) then Some (Inr s)
             else
               let s = upd c (\<lambda>sc. sc\<lparr>parent_triggered := True\<rparr>) s
               in if user (the_scope c s) = kUnlocked then
                    Option.bind (f pol c (sc_children (the_scope c s)) s) (\<lambda>r.
                      case r of
                        Inl f \<Rightarrow> Some (Inl f)
                      | Inr s \<Rightarrow>
                          if sc_children (the_scope c s) = [] then handleStartDestroy pol c s
                          else Some (Inr s))
                  else Some (Inr s))
            (\<lambda>r. case r of
               Inl f \<Rightarrow> Some (Inl f)
             | Inr s \<Rightarrow>
                 if c \<notin> set (sc_children (the_scope p s)) then Some (Inl (Undefined ''invalidated iterator''))
                 else f pol p rest s)) = Some r"
  show "pol = Sync \<longrightarrow> (\<forall>u. r = Inr u \<longrightarrow>
      root_waits root s \<longrightarrow> root_waits root u \<and> (if cs = [] then u = s else sc_children (the_scope p u) \<noteq> []))"
  proof (intro impI allI)
    fix u
    assume pol: "pol = Sync" and r: "r = Inr u" and root: "root_waits root s"
    show "root_waits root u \<and> (if cs = [] then u = s else sc_children (the_scope p u) \<noteq> [])"
    proof (cases cs)
      case Nil
      with eq r root show ?thesis by simp
    next
      case (Cons c rest)
      define v where "v = upd c (\<lambda>sc. sc\<lparr>parent_triggered := True\<rparr>) s"
      have v: "root_waits root v" using root_waits_triggered [OF root] by (simp add: v_def)
      define m where "m = (if parent_triggered (the_scope c s) then Some (Inr s)
          else if user (the_scope c v) = kUnlocked then
            Option.bind (f pol c (sc_children (the_scope c v)) v) (\<lambda>r.
              case r of
                Inl f \<Rightarrow> Some (Inl f)
              | Inr s \<Rightarrow> if sc_children (the_scope c s) = [] then handleStartDestroy pol c s else Some (Inr s))
          else Some (Inr v))"
      have "Option.bind m (\<lambda>r. case r of
               Inl f \<Rightarrow> Some (Inl f)
             | Inr s \<Rightarrow>
                 if c \<notin> set (sc_children (the_scope p s)) then Some (Inl (Undefined ''invalidated iterator''))
                 else f pol p rest s) = Some (Inr u)"
        using eq r unfolding Cons m_def v_def Let_def by simp
      then obtain t where body: "m = Some (Inr t)" and t: "c \<in> set (sc_children (the_scope p t))" "f pol p rest t = Some (Inr u)"
        unfolding bind_sum_Some by (auto split: if_splits)
      have "root_waits root t"
      proof (cases "parent_triggered (the_scope c s) \<or> user (the_scope c v) \<noteq> kUnlocked")
        case True
        with body root v show ?thesis by (auto simp: m_def split: if_splits)
      next
        case False
        with body obtain w where w: "f pol c (sc_children (the_scope c v)) v = Some (Inr w)"
          "(if sc_children (the_scope c w) = [] then handleStartDestroy pol c w else Some (Inr w)) = Some (Inr t)"
          by (auto simp: m_def bind_sum_Some)
        have "root_waits root w" using IH [OF w(1)] pol v by blast
        with w(2) pol handleStartDestroy_waits show ?thesis by (auto split: if_splits)
      qed
      with IH [OF t(2)] pol t(1) Cons show ?thesis by (cases "rest = []") auto
    qed
  qed
qed

lemma root_returns_iff:
  assumes "root_waits root s" "\<not> parent_triggered (the_scope root s)"
  shows "(\<exists>u. blocking_destroy Sync root s = Some (Inr u)) \<longleftrightarrow> sc_children (the_scope root s) = []"
proof
  let ?s = "upd root (\<lambda>sc. sc\<lparr>parent_triggered := True\<rparr>) s"
  have ch: "sc_children (the_scope root ?s) = sc_children (the_scope root s)"
    using assms(1) by (simp add: root_waits_def)
  { assume "sc_children (the_scope root s) = []"
    with ch show "\<exists>u. blocking_destroy Sync root s = Some (Inr u)"
      by (simp add: blocking_destroy_def notify_children.simps [of _ _ "[]"] wait_loop.simps) }
  { assume "\<exists>u. blocking_destroy Sync root s = Some (Inr u)"
    then obtain t u where t: "notify_children Sync root (sc_children (the_scope root ?s)) ?s = Some (Inr t)"
      and u: "wait_loop Sync root t = Some (Inr u)" by (auto simp: blocking_destroy_def Let_def bind_sum_Some)
    show "sc_children (the_scope root s) = []"
    proof (rule ccontr)
      assume "sc_children (the_scope root s) \<noteq> []"
      with notify_children_waits [OF t, of root] root_waits_triggered [OF assms(1)] ch
      have "root_waits root t" "sc_children (the_scope root t) \<noteq> []" by auto
      then have "stuck root t" by (auto simp: stuck_def root_waits_def)
      with wait_loop_stuck u show False by simp
    qed }
qed

lemma tree_inv_children:
  assumes "tree_inv s" "scopes s i \<noteq> None"
  shows "set (sc_children (the_scope i s)) = {c. (i, c) \<in> parents s \<and> c \<notin> set (finished s)}"
proof -
  have "(i, c) \<in> parents s \<Longrightarrow> c \<in> set (sc_children (the_scope i s)) \<longleftrightarrow> c \<notin> set (finished s)" for c
    using tree_inv_ok [OF assms(1), of c] by (simp add: parents_def scope_ok_def)
  moreover have "c \<in> set (sc_children (the_scope i s)) \<Longrightarrow> (i, c) \<in> parents s" for c
    using tree_inv_ok [OF assms] by (simp add: parents_def scope_ok_def)
  ultimately show ?thesis by blast
qed

text \<open>
  C11. With the synchronous destruction that is compiled in, a client that detaches a scope only
  when it has no child left runs without undefined behaviour: the held objects are destroyed in the
  order of the calls, each started and finished exactly once; the objects that live are exactly those
  not detached, and every scope's set of children is what was made below it and not detached. The
  blocking scope's destructor returns if and only if everything made directly below it has been
  detached: otherwise it is undefined behaviour or it waits for ever.
\<close>

theorem leaf_first_destroys_once:
  assumes "admissible async_pre async_step xs (blocking_scope root)"
  shows "\<exists>t. run_ops async_step xs (blocking_scope root) = Inr t
    \<and> finished t = fold detached xs [] \<and> started t = finished t \<and> distinct (finished t)
    \<and> (\<forall>i. scopes t i \<noteq> None \<longleftrightarrow> i = root \<or> (\<exists>p. AMake p i \<in> set xs))
    \<and> (\<forall>i. scopes t i \<noteq> None \<longrightarrow> (held (the_scope i t) \<longleftrightarrow> ADetach i \<notin> set xs)
         \<and> set (sc_children (the_scope i t)) = {c. AMake i c \<in> set xs \<and> ADetach c \<notin> set xs})
    \<and> ((\<exists>u. blocking_destroy Sync root t = Some (Inr u))
        \<longleftrightarrow> (\<forall>c. AMake root c \<in> set xs \<longrightarrow> ADetach c \<in> set xs))"
proof -
  have "tree_view (blocking_scope root) = ([], {}, {root})"
    by (auto simp: tree_view_def blocking_scope_def parents_def roots_def the_scope_def new_scope_def split: if_splits)
  then obtain t where t: "run_ops async_step xs (blocking_scope root) = Inr t" "tree_inv t"
    "tree_view t = (fold detached xs [], {(p, c). AMake p c \<in> set xs}, {root})"
    using async_scopes.run_refines [OF tree_inv_new assms] by (auto simp: fold_tree_step fold_made)
  then have view: "finished t = fold detached xs []" "parents t = {(p, c). AMake p c \<in> set xs}" "roots t = {root}"
    by (simp_all add: tree_view_def)
  have fin: "set (finished t) = {i. ADetach i \<in> set xs}" by (simp add: view set_fold_detached)
  have dom: "scopes t i \<noteq> None \<longleftrightarrow> i \<in> roots t \<or> (\<exists>p. (p, i) \<in> parents t)" for i
    by (auto simp: roots_def parents_def)
  have root: "scopes t root \<noteq> None" "sc_parent (the_scope root t) = None" using view(3) by (auto simp: roots_def)
  note ok = tree_inv_ok [OF t(2)]
  have kids: "set (sc_children (the_scope i t)) = {c. AMake i c \<in> set xs \<and> ADetach c \<notin> set xs}"
    if "scopes t i \<noteq> None" for i using tree_inv_children [OF t(2) that] view(2) fin by auto
  have "root_waits root t" "\<not> parent_triggered (the_scope root t)"
  proof -
    have "object (the_scope root t) = kValid" and "\<not> parent_triggered (the_scope root t)"
      using ok [OF root(1)] root(2) by (simp_all add: scope_ok_def)
    with root t(2) show "root_waits root t" "\<not> parent_triggered (the_scope root t)"
      by (simp_all only: root_waits_def tree_inv_def object_state.distinct simp_thms)
  qed
  note returns_iff = root_returns_iff [OF this]
  have empty: "sc_children (the_scope root t) = [] \<longleftrightarrow> (\<forall>c. AMake root c \<in> set xs \<longrightarrow> ADetach c \<in> set xs)"
  proof -
    have "sc_children (the_scope root t) = [] \<longleftrightarrow> {c. AMake root c \<in> set xs \<and> ADetach c \<notin> set xs} = {}"
      by (simp only: set_empty flip: kids [OF root(1)])
    then show ?thesis by auto
  qed
  have held: "held (the_scope i t) \<longleftrightarrow> ADetach i \<notin> set xs" if "scopes t i \<noteq> None" for i
  proof -
    have "held (the_scope i t) \<longleftrightarrow> i \<notin> set (finished t)" using ok [OF that] by (simp add: scope_ok_def)
    then show ?thesis unfolding fin by simp
  qed
  have known: "scopes t i \<noteq> None \<longleftrightarrow> i = root \<or> (\<exists>p. AMake p i \<in> set xs)" for i
    unfolding dom view by simp
  have "started t = finished t" "distinct (finished t)" using t(2) by (simp_all add: tree_inv_def)
  with t(1) view(1) show ?thesis
    by (intro exI [of _ t] conjI allI impI known held kids trans [OF returns_iff empty])
qed

theorem leaf_first_destroys_once_witness:
  "\<exists>t. run_ops async_step [AMake 0 8, ALock 8, AMake 8 9, AUnlock 8, ADetach 9, ADetach 8] (blocking_scope 0) = Inr t
    \<and> finished t = [9, 8] \<and> \<not> held (the_scope 9 t) \<and> sc_children (the_scope 0 t) = []
    \<and> (\<exists>u. blocking_destroy Sync 0 t = Some (Inr u))"
proof -
  let ?s = "(blocking_scope 0)\<lparr>scopes := (\<lambda>_. None)(0 \<mapsto> (new_scope None)\<lparr>sc_children := [8]\<rparr>,
    8 \<mapsto> (new_scope (Some 0))\<lparr>sc_children := [9]\<rparr>, 9 \<mapsto> new_scope (Some 8))\<rparr>"
  note eval = blocking_scope_def new_scope_def the_scope_def upd_def
  have pre: "admissible async_pre async_step (xs @ ys) s \<longleftrightarrow>
      admissible async_pre async_step xs s
      \<and> (case run_ops async_step xs s of Inl _ \<Rightarrow> True | Inr t \<Rightarrow> admissible async_pre async_step ys t)" for xs ys s
  proof (induction xs arbitrary: s)
    case (Cons x xs)
    then show ?case by (cases "async_step x s") simp_all
  qed simp
  have make: "admissible async_pre async_step [AMake 0 8, ALock 8, AMake 8 9, AUnlock 8] (blocking_scope 0)"
    "run_ops async_step [AMake 0 8, ALock 8, AMake 8 9, AUnlock 8] (blocking_scope 0) = Inr ?s"
    by (auto simp: eval MakeUniqueAsyncScoped_def Add_child_def holder_Lock_def scope_Lock_def locked_destroy_def
        scope_Unlock_def returns_def Let_def)
  have two: "Detach Sync 9 ?s = Some (Inr (detach_leaf 8 9 ?s))"
    by (rule Detach_Sync_leaf) (simp_all add: leaf_def eval)
  have one: "Detach Sync 8 (detach_leaf 8 9 ?s) = Some (Inr (detach_leaf 0 8 (detach_leaf 8 9 ?s)))"
    by (rule Detach_Sync_leaf) (simp_all add: leaf_def eval detach_leaf_def finish_leaf_def erase_child_def Let_def)
  have "admissible async_pre async_step [ADetach 9, ADetach 8] ?s"
  proof -
    have "async_pre (ADetach 9) ?s" "async_pre (ADetach 8) (detach_leaf 8 9 ?s)"
      by (simp_all add: eval is_root_def detach_leaf_def finish_leaf_def erase_child_def Let_def)
    then show ?thesis by (simp only: admissible.simps async_step.simps holder_destroy_def returns_def two one option.case sum.case simp_thms)
  qed
  with make pre [of "[AMake 0 8, ALock 8, AMake 8 9, AUnlock 8]" "[ADetach 9, ADetach 8]" "blocking_scope 0"]
  have "admissible async_pre async_step [AMake 0 8, ALock 8, AMake 8 9, AUnlock 8, ADetach 9, ADetach 8] (blocking_scope 0)"
    by simp
  from leaf_first_destroys_once [OF this] obtain t where
    "run_ops async_step [AMake 0 8, ALock 8, AMake 8 9, AUnlock 8, ADetach 9, ADetach 8] (blocking_scope 0) = Inr t"
    "finished t = [9, 8]" "\<exists>u. blocking_destroy Sync 0 t = Some (Inr u)"
    "scopes t 0 \<noteq> None" "scopes t 9 \<noteq> None"
    and each: "\<forall>i. scopes t i \<noteq> None \<longrightarrow>
      (held (the_scope i t) \<longleftrightarrow> ADetach i \<notin> set [AMake 0 8, ALock 8, AMake 8 9, AUnlock 8, ADetach 9, ADetach 8])
      \<and> set (sc_children (the_scope i t))
        = {c. AMake i c \<in> set [AMake 0 8, ALock 8, AMake 8 9, AUnlock 8, ADetach 9, ADetach 8]
            \<and> ADetach c \<notin> set [AMake 0 8, ALock 8, AMake 8 9, AUnlock 8, ADetach 9, ADetach 8]}"
    by auto
  moreover from this have "\<not> held (the_scope 9 t)" "set (sc_children (the_scope 0 t)) = {}" by auto
  moreover from this have "sc_children (the_scope 0 t) = []" by (simp only: set_empty)
  ultimately show ?thesis by blast
qed

end
