(* ===== verification/Lang_AsyncDraft.thy ===== *)
theory Lang_AsyncDraft
  imports Machine
begin

text \<open>
  \<^verbatim>\<open>src/lang/random/test_async_scopes_0.cpp\<close>: the first draft of the asynchronous scopes. Scope 0
  is the \<^verbatim>\<open>ExecutionContext\<close>, the others are \<^verbatim>\<open>TestAsyncScope\<close> objects in the order of their
  construction; a queued operation is the number of the scope whose lambda it is. The set of
  children is the list of its elements, whose order nothing here depends on.
\<close>

section \<open>State and operations\<close>

record draft_scope =
  depth :: nat
  sc_i :: nat
  parent :: nat
  children :: "nat list"
  detached :: bool
  counter :: nat
  destroyed :: bool

record draft_world =
  scopes :: "nat \<Rightarrow> draft_scope"
  n_scopes :: nat
  ctx_ops :: "nat list"

definition new_draft_scope :: "nat \<Rightarrow> nat \<Rightarrow> nat \<Rightarrow> draft_scope" where
  "new_draft_scope d i p = \<lparr>depth = d, sc_i = i, parent = p, children = [], detached = False, counter = 0, destroyed = False\<rparr>"

definition new_draft_world :: draft_world where
  "new_draft_world = \<lparr>scopes = (\<lambda>_. new_draft_scope 0 0 0), n_scopes = 1, ctx_ops = []\<rparr>"

definition upd_scope :: "nat \<Rightarrow> (draft_scope \<Rightarrow> draft_scope) \<Rightarrow> draft_world \<Rightarrow> draft_world" where
  "upd_scope x f w = w\<lparr>scopes := (scopes w)(x := f (scopes w x))\<rparr>"

definition add_child :: "nat \<Rightarrow> nat \<Rightarrow> draft_world \<Rightarrow> draft_world" where
  "add_child p x = upd_scope p (\<lambda>s. s\<lparr>children := children s @ [x]\<rparr>)"

text \<open>The context does nothing when it is ready, a test scope enqueues its lambda.\<close>

definition handleReadyForDestruction :: "nat \<Rightarrow> draft_world \<Rightarrow> draft_world" where
  "handleReadyForDestruction x w = (if x = 0 then w else w\<lparr>ctx_ops := ctx_ops w @ [x]\<rparr>)"

definition Remove_child :: "nat \<Rightarrow> nat \<Rightarrow> draft_world \<Rightarrow> draft_world" where
  "Remove_child p x w =
     (let w = upd_scope p (\<lambda>s. s\<lparr>children := removeAll x (children s)\<rparr>) w
      in if children (scopes w p) = [] \<and> detached (scopes w p) then handleReadyForDestruction p w else w)"

text \<open>\<^verbatim>\<open>handleStartDestroyParent\<close> of the children has an empty body in both classes.\<close>

definition StartDestroy :: "nat \<Rightarrow> draft_world \<Rightarrow> draft_world" where
  "StartDestroy x w =
     (let w = upd_scope x (\<lambda>s. s\<lparr>detached := True\<rparr>) w
      in if children (scopes w x) = [] then handleReadyForDestruction x w else w)"

definition construct_scope :: "nat \<Rightarrow> nat \<Rightarrow> nat \<Rightarrow> draft_world \<Rightarrow> draft_world" where
  "construct_scope p d i w =
     add_child p (n_scopes w) (w\<lparr>scopes := (scopes w)(n_scopes w := new_draft_scope d i p), n_scopes := n_scopes w + 1\<rparr>)"

definition destruct_scope :: "nat \<Rightarrow> draft_world \<Rightarrow> draft_world" where
  "destruct_scope x w =
     Remove_child (parent (scopes w x)) x (upd_scope x (\<lambda>s. s\<lparr>destroyed := True\<rparr>) w)"

definition run_lambda :: "nat \<Rightarrow> draft_world \<Rightarrow> fault + draft_world" where
  "run_lambda x w =
     (if destroyed (scopes w x) then Inl (Undefined ''use of a destroyed scope'')
      else
        let w = upd_scope x (\<lambda>s. s\<lparr>counter := counter s + 1\<rparr>) w
        in Inr (if counter (scopes w x) = depth (scopes w x) * 5 + sc_i (scopes w x) then destruct_scope x w else w))"

definition pop_lambda :: "draft_world \<Rightarrow> draft_world" where
  "pop_lambda w = w\<lparr>ctx_ops := tl (ctx_ops w)\<rparr>"

definition draft_Poll :: "draft_world \<Rightarrow> fault + nat \<times> draft_world" where
  "draft_Poll w =
     (let num_ops = length (ctx_ops w)
      in bind_res (drain run_lambda ctx_ops pop_lambda num_ops w) (\<lambda>w. Inr (num_ops, w)))"

text \<open>\<^verbatim>\<open>~ExecutionContext\<close>\<close>

partial_function (option) destruct_loop :: "draft_world \<Rightarrow> (fault + draft_world) option" where
  "destruct_loop w =
     (if children (scopes w 0) \<noteq> [] \<or> ctx_ops w \<noteq> [] then
        case draft_Poll w of
          Inl f \<Rightarrow> Some (Inl f)
        | Inr (n, w') \<Rightarrow> destruct_loop w'
      else Some (Inr w))"

definition destruct_context :: "draft_world \<Rightarrow> (fault + draft_world) option" where
  "destruct_context w = destruct_loop (upd_scope 0 (\<lambda>s. s\<lparr>detached := True\<rparr>) w)"

text \<open>The generator of \<^verbatim>\<open>Test0\<close>; \<open>levels\<close> is \<^verbatim>\<open>3 - idepth\<close>. The vector of owners is in the order of
  its \<^verbatim>\<open>push_back\<close>s.\<close>

fun generate_scopes :: "nat \<Rightarrow> nat \<Rightarrow> nat \<Rightarrow> nat \<Rightarrow> draft_world \<times> nat list \<Rightarrow> draft_world \<times> nat list" where
  "generate_scopes 0 idepth iwidth current st = st"
| "generate_scopes (Suc levels) idepth iwidth current st =
     fold (\<lambda>i (w, owners).
         let x = n_scopes w;
             w = construct_scope current idepth (iwidth * 5 + i) w;
             (w, owners) = generate_scopes levels (idepth + 1) i x (w, owners)
         in (w, owners @ [x]))
       [0..<5] st"

text \<open>The end of \<^verbatim>\<open>Test0\<close>: the vector is destroyed first, then the context.\<close>

definition draft_Test0 :: "(fault + draft_world) option" where
  "draft_Test0 =
     (let (w, owners) = generate_scopes 3 0 0 0 (new_draft_world, [])
      in destruct_context (fold StartDestroy owners w))"

section \<open>Nothing is ever destroyed\<close>

text \<open>A scope that counts its first run is destroyed only when \<open>depth * 5 + i\<close> is 1. \<open>never_ready w\<close>: every
  queued lambda is of another scope and runs for the first time, and the context has a child.\<close>

definition never_ready :: "draft_world \<Rightarrow> bool" where
  "never_ready w \<longleftrightarrow> children (scopes w 0) \<noteq> [] \<and> 0 \<notin> set (ctx_ops w) \<and> distinct (ctx_ops w)
     \<and> (\<forall>x. \<not> destroyed (scopes w x))
     \<and> (\<forall>x \<in> set (ctx_ops w). counter (scopes w x) = 0 \<and> depth (scopes w x) * 5 + sc_i (scopes w x) \<noteq> 1)"

lemma never_ready_step:
  assumes "never_ready w" "ctx_ops w = x # later"
  shows "\<exists>w'. run_lambda x (pop_lambda w) = Inr w' \<and> never_ready w' \<and> ctx_ops w' = later"
proof -
  let ?w = "upd_scope x (\<lambda>s. s\<lparr>counter := counter s + 1\<rparr>) (pop_lambda w)"
  have "run_lambda x (pop_lambda w) = Inr ?w"
    using assms by (simp add: run_lambda_def never_ready_def Let_def upd_scope_def pop_lambda_def)
  moreover have "never_ready ?w" "ctx_ops ?w = later"
    using assms by (auto simp: never_ready_def upd_scope_def pop_lambda_def)
  ultimately show ?thesis by blast
qed

lemma never_ready_Poll:
  assumes "never_ready w"
  shows "\<exists>w'. draft_Poll w = Inr (length (ctx_ops w), w') \<and> never_ready w'"
proof -
  have "\<exists>w' new. drain run_lambda ctx_ops pop_lambda (length (ctx_ops w)) w = Inr w' \<and> never_ready w'
      \<and> ctx_ops w' = drop (length (ctx_ops w)) (ctx_ops w) @ new"
    by (rule drain_invariant [where I = never_ready]) (use never_ready_step assms in \<open>fastforce+\<close>)
  then show ?thesis by (auto simp: draft_Poll_def Let_def)
qed

text \<open>The world after the first Poll: every queued lambda has counted one run.\<close>

definition counted :: "draft_world \<Rightarrow> draft_world" where
  "counted w = w\<lparr>scopes := (\<lambda>x. if x \<in> set (ctx_ops w) then (scopes w x)\<lparr>counter := 1\<rparr> else scopes w x), ctx_ops := []\<rparr>"

lemma never_ready_counted:
  "never_ready w \<Longrightarrow> drain run_lambda ctx_ops pop_lambda (length (ctx_ops w)) w = Inr (counted w)"
proof (induction "ctx_ops w" arbitrary: w)
  case Nil
  from Nil(1) [symmetric] show ?case by (simp add: counted_def)
next
  case (Cons x later)
  note q = Cons(2) [symmetric]
  from never_ready_step [OF Cons(3) q] obtain w' where
    w': "run_lambda x (pop_lambda w) = Inr w'" "never_ready w'" "ctx_ops w' = later" by blast
  have "w' = upd_scope x (\<lambda>s. s\<lparr>counter := 1\<rparr>) (pop_lambda w)"
    using w'(1) Cons(3) q
    by (auto simp: run_lambda_def never_ready_def Let_def upd_scope_def pop_lambda_def split: if_splits)
  then have "counted w' = counted w"
    using Cons(3) q by (auto simp: counted_def upd_scope_def pop_lambda_def never_ready_def fun_eq_iff)
  with Cons(1) [OF w'(3) [symmetric] w'(2)] w' q show ?case by (simp add: drain.simps(2))
qed

lemma never_ready_forever: "never_ready w \<Longrightarrow> destruct_loop w = None"
proof -
  have "\<not> never_ready w" if "destruct_loop w = Some r" for w r
  proof (rule destruct_loop.raw_induct [where P = "\<lambda>w r. \<not> never_ready w", OF _ that])
    fix loop :: "draft_world \<Rightarrow> (fault + draft_world) option" and w r
    assume IH: "\<And>w r. loop w = Some r \<Longrightarrow> \<not> never_ready w"
      and eq: "(if children (scopes w 0) \<noteq> [] \<or> ctx_ops w \<noteq> [] then
          case draft_Poll w of Inl f \<Rightarrow> Some (Inl f) | Inr (n, w') \<Rightarrow> loop w'
        else Some (Inr w)) = Some r"
    show "\<not> never_ready w"
    proof
      assume s: "never_ready w"
      then obtain w' where w': "draft_Poll w = Inr (length (ctx_ops w), w')" "never_ready w'" using never_ready_Poll by blast
      from s have "children (scopes w 0) \<noteq> []" by (simp add: never_ready_def)
      with eq w'(1) have "loop w' = Some r" by simp
      from IH [OF this] w'(2) show False by contradiction
    qed
  qed
  then show "never_ready w \<Longrightarrow> destruct_loop w = None" by (cases "destruct_loop w") auto
qed


section \<open>The tree of Test0\<close>

definition fresh :: "draft_scope \<Rightarrow> bool" where
  "fresh s \<longleftrightarrow> counter s = 0 \<and> \<not> destroyed s \<and> (children s = [] \<longrightarrow> depth s * 5 + sc_i s \<noteq> 1)"

text \<open>How many scopes, and how many without children, a tree of so many levels has.\<close>

fun tree_size :: "nat \<Rightarrow> nat \<times> nat" where
  "tree_size 0 = (0, 0)"
| "tree_size (Suc levels) =
     (case tree_size levels of (k, m) \<Rightarrow> (5 * (k + 1), 5 * (if levels = 0 then 1 else m)))"

text \<open>\<open>grows cur (k, m) st st'\<close>: scope \<open>cur\<close> has been given children, the \<open>k\<close> scopes made are fresh and
  owned, and \<open>m\<close> of them have no children.\<close>

definition grows :: "nat \<Rightarrow> nat \<times> nat \<Rightarrow> draft_world \<times> nat list \<Rightarrow> draft_world \<times> nat list \<Rightarrow> bool" where
  "grows cur km st st' \<longleftrightarrow> (case st of (w, os) \<Rightarrow> case st' of (w', os') \<Rightarrow>
     n_scopes w \<le> n_scopes w' \<and> ctx_ops w' = ctx_ops w
     \<and> (\<forall>x. x \<noteq> cur \<longrightarrow> x < n_scopes w \<or> n_scopes w' \<le> x \<longrightarrow> scopes w' x = scopes w x)
     \<and> (\<exists>cs. scopes w' cur = (scopes w cur)\<lparr>children := children (scopes w cur) @ cs\<rparr>)
     \<and> (\<forall>x. n_scopes w \<le> x \<longrightarrow> x < n_scopes w' \<longrightarrow> fresh (scopes w' x))
     \<and> (\<exists>new. os' = os @ new \<and> distinct new \<and> set new = {n_scopes w..<n_scopes w'}
         \<and> length new = fst km \<and> length (filter (\<lambda>x. children (scopes w' x) = []) new) = snd km))"

lemma grows_refl: "grows cur (0, 0) st st"
  by (cases st) (auto simp: grows_def intro: exI [of _ "[]"])

lemma grows_trans:
  assumes "grows cur (k, m) (w, os) (w', os')" "grows cur (k', m') (w', os') (w'', os'')" "cur < n_scopes w"
  shows "grows cur (k + k', m + m') (w, os) (w'', os'')"
proof -
  from assms(1) obtain cs new where 1: "n_scopes w \<le> n_scopes w'" "ctx_ops w' = ctx_ops w"
    "\<And>x. x \<noteq> cur \<Longrightarrow> x < n_scopes w \<or> n_scopes w' \<le> x \<Longrightarrow> scopes w' x = scopes w x"
    "scopes w' cur = (scopes w cur)\<lparr>children := children (scopes w cur) @ cs\<rparr>"
    "\<And>x. n_scopes w \<le> x \<Longrightarrow> x < n_scopes w' \<Longrightarrow> fresh (scopes w' x)"
    "os' = os @ new" "distinct new" "set new = {n_scopes w..<n_scopes w'}"
    "length new = k" "length (filter (\<lambda>x. children (scopes w' x) = []) new) = m" by (auto simp: grows_def)
  from assms(2) obtain cs' new' where 2: "n_scopes w' \<le> n_scopes w''" "ctx_ops w'' = ctx_ops w'"
    "\<And>x. x \<noteq> cur \<Longrightarrow> x < n_scopes w' \<or> n_scopes w'' \<le> x \<Longrightarrow> scopes w'' x = scopes w' x"
    "scopes w'' cur = (scopes w' cur)\<lparr>children := children (scopes w' cur) @ cs'\<rparr>"
    "\<And>x. n_scopes w' \<le> x \<Longrightarrow> x < n_scopes w'' \<Longrightarrow> fresh (scopes w'' x)"
    "os'' = os' @ new'" "distinct new'" "set new' = {n_scopes w'..<n_scopes w''}"
    "length new' = k'" "length (filter (\<lambda>x. children (scopes w'' x) = []) new') = m'" by (auto simp: grows_def)
  have "fresh (scopes w'' x)" if "n_scopes w \<le> x" "x < n_scopes w''" for x
    using that 1(5) 2(3,5) assms(3) by (cases "x < n_scopes w'") auto
  moreover have "\<exists>cs. scopes w'' cur = (scopes w cur)\<lparr>children := children (scopes w cur) @ cs\<rparr>"
    using 1(4) 2(4) by auto
  moreover have "distinct (new @ new')" "set (new @ new') = {n_scopes w..<n_scopes w''}"
    using 1(1,7,8) 2(1,7,8) by auto
  moreover have "filter (\<lambda>x. children (scopes w'' x) = []) new = filter (\<lambda>x. children (scopes w' x) = []) new"
    using 1(8) 2(3) assms(3) by (intro filter_cong) auto
  then have "length (new @ new') = k + k'" "length (filter (\<lambda>x. children (scopes w'' x) = []) (new @ new')) = m + m'"
    using 1(9,10) 2(9,10) by simp_all
  ultimately show ?thesis using 1(1-3,6) 2(1-3,6)
    unfolding grows_def prod.case fst_conv snd_conv by (intro conjI) (auto intro: exI [of _ "new @ new'"])
qed

lemma generate_grows:
  "levels + idepth = 3 \<Longrightarrow> cur < n_scopes w \<Longrightarrow>
     grows cur (tree_size levels) (w, os) (generate_scopes levels idepth iwidth cur (w, os))
     \<and> (0 < levels \<longrightarrow> children (scopes (fst (generate_scopes levels idepth iwidth cur (w, os))) cur) \<noteq> [])"
proof (induction levels arbitrary: idepth iwidth cur w os)
  case 0
  then show ?case by (simp add: grows_refl)
next
  case (Suc levels)
  obtain k m where size: "tree_size levels = (k, m)" by fastforce
  define m1 where "m1 = (if levels = 0 then 1 else m)"
  define body where "body = (\<lambda>i (w, owners).
         let x = n_scopes w;
             w = construct_scope cur idepth (iwidth * 5 + i) w;
             (w, owners) = generate_scopes levels (idepth + 1) i x (w, owners)
         in (w, owners @ [x]))"
  have one: "grows cur (k + 1, m1) (w, os) (body i (w, os)) \<and> children (scopes (fst (body i (w, os))) cur) \<noteq> []"
    if cur: "cur < n_scopes w" for i w os
  proof -
    let ?x = "n_scopes w" and ?w1 = "construct_scope cur idepth (iwidth * 5 + i) w"
    obtain w2 os2 where g: "generate_scopes levels (idepth + 1) i ?x (?w1, os) = (w2, os2)" by fastforce
    have w1: "n_scopes ?w1 = ?x + 1" "ctx_ops ?w1 = ctx_ops w" "scopes ?w1 ?x = new_draft_scope idepth (iwidth * 5 + i) cur"
      "scopes ?w1 cur = (scopes w cur)\<lparr>children := children (scopes w cur) @ [?x]\<rparr>"
      "\<And>y. y \<noteq> ?x \<Longrightarrow> y \<noteq> cur \<Longrightarrow> scopes ?w1 y = scopes w y"
      using cur by (simp_all add: construct_scope_def add_child_def upd_scope_def)
    from Suc.IH [of "idepth + 1" ?x ?w1 os i] Suc.prems(1) w1(1) g
    have gr: "grows ?x (k, m) (?w1, os) (w2, os2)" and ch: "0 < levels \<longrightarrow> children (scopes w2 ?x) \<noteq> []"
      by (auto simp: size)
    from gr obtain cs new where 2: "?x + 1 \<le> n_scopes w2" "ctx_ops w2 = ctx_ops w"
      "\<And>y. y \<noteq> ?x \<Longrightarrow> y < ?x + 1 \<or> n_scopes w2 \<le> y \<Longrightarrow> scopes w2 y = scopes ?w1 y"
      "scopes w2 ?x = (scopes ?w1 ?x)\<lparr>children := children (scopes ?w1 ?x) @ cs\<rparr>"
      "\<And>y. ?x + 1 \<le> y \<Longrightarrow> y < n_scopes w2 \<Longrightarrow> fresh (scopes w2 y)"
      "os2 = os @ new" "distinct new" "set new = {?x + 1..<n_scopes w2}"
      "length new = k" "length (filter (\<lambda>x. children (scopes w2 x) = []) new) = m"
      unfolding grows_def prod.case w1(1,2) fst_conv snd_conv by blast
    have fx: "fresh (scopes w2 ?x)"
      using 2(4) ch Suc.prems(1) w1(3) by (cases "levels = 0") (auto simp: fresh_def new_draft_scope_def)
    have cur2: "scopes w2 cur = (scopes w cur)\<lparr>children := children (scopes w cur) @ [?x]\<rparr>"
      using 2(3) [of cur] cur w1(4) by simp
    have b: "body i (w, os) = (w2, os2 @ [?x])" using g by (simp add: body_def Let_def)
    have fr: "fresh (scopes w2 y)" if "?x \<le> y" "y < n_scopes w2" for y
      using that fx 2(5) [of y] by (cases "y = ?x") auto
    have old: "scopes w2 y = scopes w y" if "y \<noteq> cur" "y < ?x \<or> n_scopes w2 \<le> y" for y
      using that 2(1) 2(3) [of y] w1(5) [of y] by auto
    have "distinct (new @ [?x]) \<and> set (new @ [?x]) = {?x..<n_scopes w2}" using 2(1,7,8) by auto
    moreover have "length (filter (\<lambda>x. children (scopes w2 x) = []) (new @ [?x])) = m1"
    proof (cases "levels = 0")
      case True
      with g have "w2 = ?w1" "new = []" using 2(6) by auto
      with True w1(3) show ?thesis by (simp add: m1_def new_draft_scope_def)
    qed (use 2(10) ch in \<open>simp add: m1_def\<close>)
    ultimately have "grows cur (k + 1, m1) (w, os) (w2, os2 @ [?x])"
      unfolding grows_def prod.case fst_conv snd_conv using 2(9) 2(1,2,6) fr old cur2 by (intro conjI) (auto intro: exI [of _ "new @ [?x]"])
    with b cur2 show ?thesis by simp
  qed
  have all: "grows cur (length js * (k + 1), length js * m1) (w, os) (fold body js (w, os)) \<and> (js \<noteq> [] \<longrightarrow> children (scopes (fst (fold body js (w, os))) cur) \<noteq> [])"
    if "cur < n_scopes w" for "js" w os
    using that
  proof (induction "js" arbitrary: w os)
    case Nil
    then show ?case by (simp add: grows_refl)
  next
    case (Cons i js')
    obtain w1 os1 where b: "body i (w, os) = (w1, os1)" by fastforce
    obtain w2 os2 where r: "fold body js' (w1, os1) = (w2, os2)" by fastforce
    from one [OF Cons.prems, of os i] b have 1: "grows cur (k + 1, m1) (w, os) (w1, os1)" "children (scopes w1 cur) \<noteq> []" by auto
    then have "cur < n_scopes w1" using Cons.prems by (auto simp: grows_def)
    from Cons.IH [OF this, of os1] r have 2: "grows cur (length js' * (k + 1), length js' * m1) (w1, os1) (w2, os2)" by auto
    then have "children (scopes w2 cur) \<noteq> []" using 1(2) by (auto simp: grows_def)
    with grows_trans [OF 1(1) 2 Cons.prems] b r show ?case by (simp add: add.commute add.left_commute)
  qed
  show ?case using all [OF Suc.prems(2), where js = "[0..<5]" and os = os]
    unfolding generate_scopes.simps body_def [symmetric] by (simp add: size m1_def)
qed


lemma StartDestroy_sel:
  "scopes (StartDestroy x w) y = (if y = x then (scopes w x)\<lparr>detached := True\<rparr> else scopes w y)"
  "x \<noteq> 0 \<Longrightarrow> ctx_ops (StartDestroy x w) = ctx_ops w @ (if children (scopes w x) = [] then [x] else [])"
  by (simp_all add: StartDestroy_def handleReadyForDestruction_def upd_scope_def Let_def)

lemma StartDestroy_all:
  "0 \<notin> set xs \<Longrightarrow>
     (\<forall>y. \<exists>b. scopes (fold StartDestroy xs w) y = (scopes w y)\<lparr>detached := b\<rparr>)
     \<and> ctx_ops (fold StartDestroy xs w) = ctx_ops w @ filter (\<lambda>x. children (scopes w x) = []) xs"
proof (induction xs arbitrary: w)
  case Nil
  have "\<exists>b. scopes w y = (scopes w y)\<lparr>detached := b\<rparr>" for y
    by (rule exI [of _ "detached (scopes w y)"]) simp
  then show ?case by simp
next
  case (Cons x xs)
  have eq: "(\<lambda>y. children (scopes (StartDestroy x w) y) = []) = (\<lambda>y. children (scopes w y) = [])"
    by (auto simp: fun_eq_iff StartDestroy_sel)
  from Cons have "\<forall>y. \<exists>b. scopes (fold StartDestroy xs (StartDestroy x w)) y = (scopes (StartDestroy x w) y)\<lparr>detached := b\<rparr>"
    "ctx_ops (fold StartDestroy xs (StartDestroy x w))
      = ctx_ops (StartDestroy x w) @ filter (\<lambda>x. children (scopes w x) = []) xs"
    using Cons.IH [of "StartDestroy x w"] eq by auto
  moreover have "x \<noteq> 0" using Cons.prems by auto
  moreover have "\<exists>b. (scopes (StartDestroy x w) y)\<lparr>detached := b'\<rparr> = (scopes w y)\<lparr>detached := b\<rparr>" for y b'
    by (auto simp: StartDestroy_sel)
  ultimately show ?case by (auto simp: StartDestroy_sel(2)) metis
qed

section \<open>The property of the draft\<close>

lemma tree_size_3: "tree_size 3 = (155, 125)"
  by (simp add: numeral_3_eq_3)

text \<open>
  C34. The test program of the draft never returns. It makes 155 scopes; when their owners are gone,
  exactly the 125 of them that have no children are queued on the context, once each. The first Poll
  counts one run of each and destroys none, since no leaf has \<^verbatim>\<open>depth * 5 + i\<close> equal to 1, and it leaves
  the queue empty; every later Poll changes nothing, so no scope is ever destroyed, the context keeps
  its children and its destructor loops for ever.
\<close>

theorem draft_never_returns:
  "\<exists>w owners w0 w1. generate_scopes 3 0 0 0 (new_draft_world, []) = (w, owners) \<and> length owners = 155
     \<and> w0 = upd_scope 0 (\<lambda>s. s\<lparr>detached := True\<rparr>) (fold StartDestroy owners w)
     \<and> ctx_ops w0 = filter (\<lambda>x. children (scopes w x) = []) owners
     \<and> length (ctx_ops w0) = 125 \<and> distinct (ctx_ops w0)
     \<and> draft_Poll w0 = Inr (125, w1) \<and> ctx_ops w1 = []
     \<and> (\<forall>x. scopes w1 x = (scopes w0 x)\<lparr>counter := (if x \<in> set (ctx_ops w0) then 1 else 0)\<rparr>)
     \<and> (\<forall>x. \<not> destroyed (scopes w1 x) \<and> children (scopes w1 x) = children (scopes w x)) \<and> children (scopes w1 0) \<noteq> []
     \<and> draft_Poll w1 = Inr (0, w1) \<and> draft_Test0 = None"
proof -
  obtain w os where g: "generate_scopes 3 0 0 0 (new_draft_world, []) = (w, os)" by fastforce
  from generate_grows [of 3 0 0 new_draft_world "[]" 0] g
  have gr: "grows 0 (155, 125) (new_draft_world, []) (w, os)" and ch: "children (scopes w 0) \<noteq> []"
    by (auto simp: new_draft_world_def tree_size_3)
  have w: "ctx_ops w = []" "\<And>x. 1 \<le> x \<Longrightarrow> x < n_scopes w \<Longrightarrow> fresh (scopes w x)"
    "distinct os" "set os = {1..<n_scopes w}" "length os = 155"
    "length (filter (\<lambda>x. children (scopes w x) = []) os) = 125"
    using gr by (auto simp: grows_def new_draft_world_def)
  have new: "\<not> destroyed (scopes w x) \<and> counter (scopes w x) = 0" for x
  proof (cases "1 \<le> x \<and> x < n_scopes w")
    case True
    then show ?thesis using w(2) by (simp add: fresh_def)
  next
    case False
    then show ?thesis using gr by (cases "x = 0") (auto simp: grows_def new_draft_world_def new_draft_scope_def)
  qed
  let ?w = "fold StartDestroy os w"
  have "0 \<notin> set os" using w(4) by auto
  from StartDestroy_all [OF this, of w] obtain b where
    sc: "\<And>y. scopes ?w y = (scopes w y)\<lparr>detached := b y\<rparr>" and
    op: "ctx_ops ?w = filter (\<lambda>x. children (scopes w x) = []) os" using w(1) by (auto simp: choice_iff)
  define w0 where "w0 = upd_scope 0 (\<lambda>s. s\<lparr>detached := True\<rparr>) ?w"
  have w0: "ctx_ops w0 = filter (\<lambda>x. children (scopes w x) = []) os"
    "\<And>x. counter (scopes w0 x) = 0 \<and> \<not> destroyed (scopes w0 x) \<and> children (scopes w0 x) = children (scopes w x)"
    using new by (simp_all add: w0_def upd_scope_def op sc)
  have ready: "never_ready w0"
    using ch w new by (auto simp: never_ready_def upd_scope_def sc op fresh_def w0_def)
  have poll: "draft_Poll w0 = Inr (125, counted w0)"
    using never_ready_counted [OF ready] w(6) w0(1) by (simp add: draft_Poll_def Let_def)
  have idle: "draft_Poll (counted w0) = Inr (0, counted w0)"
    by (simp add: draft_Poll_def Let_def counted_def)
  have count: "scopes (counted w0) x = (scopes w0 x)\<lparr>counter := (if x \<in> set (ctx_ops w0) then 1 else 0)\<rparr>" for x
    using w0(2) [of x] by (simp add: counted_def)
  have "draft_Test0 = None"
    using never_ready_forever [OF ready] g by (simp add: draft_Test0_def destruct_context_def w0_def)
  with g w w0 poll idle count ch w0_def show ?thesis
    by (intro exI [of _ w] exI [of _ os] exI [of _ w0] exI [of _ "counted w0"]) (simp add: counted_def)
qed

text \<open>The protocol itself does work for a single scope whose target is 1.\<close>

lemma draft_single_scope:
  "map_option (map_sum id (\<lambda>w. (destroyed (scopes w 1), children (scopes w 0))))
     (destruct_context (StartDestroy 1 (construct_scope 0 0 1 new_draft_world))) = Some (Inr (True, []))"
  by (simp add: destruct_context_def destruct_loop.simps draft_Poll_def drain.simps(2) run_lambda_def destruct_scope_def
      Remove_child_def StartDestroy_def construct_scope_def add_child_def upd_scope_def handleReadyForDestruction_def
      new_draft_world_def new_draft_scope_def pop_lambda_def Let_def)

end
