(* ===== verification/Iostream.thy ===== *)
theory Iostream
  imports Timtim_Loops
begin

text \<open>
  Formatted extraction with \<^verbatim>\<open>operator>>\<close> of the standard library, for the programs that read
  \<^verbatim>\<open>std::cin\<close>: a stream is the input still to be read and the fail bit. An extraction first skips
  white space; when the stream has failed or nothing is left, it sets the fail bit and leaves
  its target alone (\<open>None\<close> below).
\<close>

section \<open>Extraction\<close>

record istream =
  rest :: string
  fail_bit :: bool

definition open_stream :: "string \<Rightarrow> istream" where
  "open_stream s = \<lparr>rest = s, fail_bit = False\<rparr>"

definition extraction :: "(string \<Rightarrow> 'a option \<times> bool \<times> string) \<Rightarrow> istream \<Rightarrow> 'a option \<times> istream" where
  "extraction get st =
     (let r = dropWhile c_isspace (rest st) in
      if fail_bit st then (None, st)
      else if r = [] then (None, st\<lparr>rest := [], fail_bit := True\<rparr>)
      else let (x, bad, r) = get r in (x, st\<lparr>rest := r, fail_bit := bad\<rparr>))"

definition read_word :: "istream \<Rightarrow> string option \<times> istream" where
  "read_word = extraction (\<lambda>r. (Some (takeWhile (\<lambda>c. \<not> c_isspace c) r), False, dropWhile (\<lambda>c. \<not> c_isspace c) r))"

definition dec_value :: "string \<Rightarrow> nat" where
  "dec_value s = fold (\<lambda>c n. 10 * n + (of_char c - 48)) s 0"

text \<open>An \<^verbatim>\<open>int\<close> out of range is the nearest one, and fails; without digits it is 0, and fails.\<close>

definition clamp_int :: "int \<Rightarrow> int" where
  "clamp_int v = (if v < - (2 ^ 31) then - (2 ^ 31) else if v \<ge> 2 ^ 31 then 2 ^ 31 - 1 else v)"

definition get_int :: "string \<Rightarrow> int option \<times> bool \<times> string" where
  "get_int r =
     (let neg = (hd r = CHR ''-'');
          r = (if hd r = CHR ''-'' \<or> hd r = CHR ''+'' then tl r else r);
          ds = takeWhile c_isdigit r;
          v = (if neg then - int (dec_value ds) else int (dec_value ds))
      in (Some (clamp_int v), ds = [] \<or> \<not> int_range v, dropWhile c_isdigit r))"

definition read_int :: "istream \<Rightarrow> int option \<times> istream" where
  "read_int = extraction get_int"

section \<open>Reading what was printed\<close>

definition word :: "string \<Rightarrow> bool" where
  "word w \<longleftrightarrow> w \<noteq> [] \<and> (\<forall>c \<in> set w. \<not> c_isspace c)"

lemma digit_char_digit: "d < 10 \<Longrightarrow> c_isdigit (digit_char d) \<and> of_char (digit_char d) = 48 + (d :: nat)"
  by (simp add: digit_char_def c_isdigit_def)

lemma show_nat_digits: "show_nat n \<noteq> [] \<and> (\<forall>c \<in> set (show_nat n). c_isdigit c)"
proof (induction n rule: show_nat.induct)
  case (1 n)
  then show ?case
    using digit_char_digit [of n] digit_char_digit [of "n mod 10"] by (subst show_nat.simps) (auto simp: show_nat.simps [of n])
qed

lemma dec_value_show: "dec_value (show_nat n) = n"
proof (induction n rule: show_nat.induct)
  case (1 n)
  show ?case
  proof (cases "n < 10")
    case True
    then show ?thesis using digit_char_digit [of n] by (subst show_nat.simps) (simp add: dec_value_def)
  next
    case False
    with 1 have "dec_value (show_nat (n div 10)) = n div 10" by simp
    with False show ?thesis using digit_char_digit [of "n mod 10"]
      by (subst show_nat.simps) (simp add: dec_value_def)
  qed
qed

lemma extraction_skip: "c_isspace c \<Longrightarrow> extraction g \<lparr>rest = c # r, fail_bit = False\<rparr> = extraction g \<lparr>rest = r, fail_bit = False\<rparr>"
  by (simp add: extraction_def Let_def)

lemma read_word_append:
  assumes "word w" "c_isspace c"
  shows "read_word \<lparr>rest = w @ c # r, fail_bit = False\<rparr> = (Some w, \<lparr>rest = c # r, fail_bit = False\<rparr>)"
proof -
  obtain x xs where w: "w = x # xs" "\<not> c_isspace x" using assms(1) by (cases w) (auto simp: word_def)
  have "takeWhile (\<lambda>c. \<not> c_isspace c) (w @ c # r) = w" "dropWhile (\<lambda>c. \<not> c_isspace c) (w @ c # r) = c # r"
    using assms by (auto simp: word_def takeWhile_append dropWhile_append)
  with w show ?thesis by (simp add: read_word_def extraction_def)
qed

lemma read_int_append:
  assumes "n < 2 ^ 31" "\<not> c_isdigit c"
  shows "read_int \<lparr>rest = show_nat n @ c # r, fail_bit = False\<rparr> = (Some (int n), \<lparr>rest = c # r, fail_bit = False\<rparr>)"
proof -
  note d = show_nat_digits [of n]
  obtain x xs where w: "show_nat n = x # xs" "c_isdigit x" using d by (cases "show_nat n") auto
  then have x: "\<not> c_isspace x" "x \<noteq> CHR ''-''" "x \<noteq> CHR ''+''"
    using c_isspace_not_digit by (auto simp: c_isdigit_def)
  have "takeWhile c_isdigit (show_nat n @ c # r) = show_nat n" "dropWhile c_isdigit (show_nat n @ c # r) = c # r"
    using assms(2) d by (auto simp: takeWhile_append dropWhile_append)
  with w x assms(1) show ?thesis
    using dec_value_show [of n] by (simp add: read_int_def extraction_def get_int_def Let_def clamp_int_def int_range_def)
qed

end
