(* ===== verification/Lang_CLI.thy ===== *)
theory Lang_CLI
  imports Iostream "HOL-Library.List_Lexorder" "HOL-Library.Char_ord"
begin

text \<open>
  \<^verbatim>\<open>src/lang/random/test_111.cpp\<close>: the command line parser \<^verbatim>\<open>CLIOptions\<close> and its example program.
  The table of options is the list of entries of the \<^verbatim>\<open>std::map\<close> in the order of its keys. A
  client's handler is a function from the converted values to what it prints; conversion to
  \<^verbatim>\<open>int\<close> is \<^verbatim>\<open>std::stoi\<close>, which throws. (The template also allows \<^verbatim>\<open>double\<close>, which nothing
  instantiates.)
\<close>

section \<open>Ordered maps\<close>

fun map_assign :: "string \<Rightarrow> 'v \<Rightarrow> (string \<times> 'v) list \<Rightarrow> (string \<times> 'v) list" where
  "map_assign k v [] = [(k, v)]"
| "map_assign k v ((k', v') # m) =
     (if k = k' then (k', v) # m
      else if k < k' then (k, v) # (k', v') # m
      else (k', v') # map_assign k v m)"

definition key_order :: "(string \<times> 'v) list \<Rightarrow> bool" where
  "key_order m \<longleftrightarrow> sorted_wrt (<) (map fst m)"

lemma keys_assign: "fst ` set (map_assign k v m) = insert k (fst ` set m)"
  by (induction k v m rule: map_assign.induct) auto

lemma key_order_assign: "key_order m \<Longrightarrow> key_order (map_assign k v m)"
proof (induction k v m rule: map_assign.induct)
  case (2 k v k' v' m)
  then have m: "key_order m" "\<forall>x \<in> fst ` set m. k' < x" by (auto simp: key_order_def)
  show ?case
  proof (cases "k' < k")
    case True
    with 2 m have "key_order (map_assign k v m)" by auto
    moreover have "\<forall>x \<in> fst ` set (map_assign k v m). k' < x" using keys_assign [of k v m] m(2) True by auto
    ultimately show ?thesis using True less_asym [OF True] by (auto simp: key_order_def)
  next
    case False
    then have "k = k' \<or> k < k'" by auto
    with m show ?thesis by (auto simp: key_order_def)
  qed
qed (simp add: key_order_def)

lemma map_of_assign: "key_order m \<Longrightarrow> map_of (map_assign k v m) = (map_of m)(k \<mapsto> v)"
proof (induction k v m rule: map_assign.induct)
  case (2 k v k' v' m)
  then have m: "key_order m" "\<forall>x \<in> fst ` set m. k' < x" by (auto simp: key_order_def)
  with 2 show ?case by (auto simp: fun_eq_iff)
qed simp

section \<open>Options\<close>

datatype optval = VString string | VInt int

datatype opttype = TString | TInt

definition stoi :: "string \<Rightarrow> fault + int" where
  "stoi s =
     (let r = dropWhile c_isspace s in
      if r = [] then Inl (Thrown ''std::invalid_argument'')
      else
        let r' = (if hd r = CHR ''-'' \<or> hd r = CHR ''+'' then tl r else r);
            ds = takeWhile c_isdigit r';
            v = (if hd r = CHR ''-'' then - int (dec_value ds) else int (dec_value ds))
        in if ds = [] then Inl (Thrown ''std::invalid_argument'')
           else if int_range v then Inr v
           else Inl (Thrown ''std::out_of_range''))"

fun converter :: "opttype \<Rightarrow> string \<Rightarrow> fault + optval" where
  "converter TString s = Inr (VString s)"
| "converter TInt s = bind_res (stoi s) (\<lambda>v. Inr (VInt v))"

fun convert_all :: "opttype \<Rightarrow> string list \<Rightarrow> fault + optval list" where
  "convert_all T [] = Inr []"
| "convert_all T (s # raw) = bind_res (converter T s) (\<lambda>v. bind_res (convert_all T raw) (\<lambda>vs. Inr (v # vs)))"

type_synonym option_handler = "optval list \<Rightarrow> string"

text \<open>The lambda stored for an option. It is never an empty function, even when the handler is.\<close>

definition erased :: "opttype \<Rightarrow> option_handler option \<Rightarrow> string list \<Rightarrow> fault + string" where
  "erased T handler raw =
     (case handler of
        None \<Rightarrow> Inr []
      | Some h \<Rightarrow> bind_res (convert_all T raw) (\<lambda>vals. Inr (h vals)))"

record option_base =
  description :: string
  has_value :: bool
  opt_values :: "string list"
  opt_is_set :: bool
  opt_handler :: "string list \<Rightarrow> fault + string"
  multi_value :: bool

record cli_options =
  options :: "(string \<times> option_base) list"
  positional_args :: "string list"
  cout :: string
  cerr :: string

definition CLIOptions :: cli_options where
  "CLIOptions = \<lparr>options = [], positional_args = [], cout = [], cerr = []\<rparr>"

definition add_option ::
    "opttype \<Rightarrow> string \<Rightarrow> string \<Rightarrow> bool \<Rightarrow> option_handler option \<Rightarrow> bool \<Rightarrow> cli_options \<Rightarrow> cli_options" where
  "add_option T name desc value handler multi c =
     c\<lparr>options := map_assign name \<lparr>description = desc, has_value = value, opt_values = [], opt_is_set = False,
         opt_handler = erased T handler, multi_value = multi\<rparr> (options c)\<rparr>"

definition set_handler :: "opttype \<Rightarrow> string \<Rightarrow> option_handler option \<Rightarrow> cli_options \<Rightarrow> cli_options" where
  "set_handler T name handler c =
     (case map_of (options c) name of
        None \<Rightarrow> c
      | Some opt \<Rightarrow> c\<lparr>options := map_assign name (opt\<lparr>opt_handler := erased T handler\<rparr>) (options c)\<rparr>)"

section \<open>Parsing\<close>

definition dash :: "string \<Rightarrow> bool" where
  "dash a \<longleftrightarrow> a \<noteq> [] \<and> hd a = CHR ''-''"

text \<open>What an option takes from the arguments after it: the option, the arguments left, the message.\<close>

definition take_values :: "string \<Rightarrow> string list \<Rightarrow> option_base \<Rightarrow> option_base \<times> string list \<times> string" where
  "take_values arg later opt =
     (if has_value opt then
        if multi_value opt then
          (opt\<lparr>opt_values := takeWhile (\<lambda>a. \<not> dash a) later\<rparr>, dropWhile (\<lambda>a. \<not> dash a) later, [])
        else
          case later of
            v # later' \<Rightarrow> (opt\<lparr>opt_values := [v]\<rparr>, later', [])
          | [] \<Rightarrow> (opt, [], ''Option '' @ [CHR 0x27] @ arg @ [CHR 0x27] @ '' requires a value!'' @ newline)
      else (opt, later, []))"

lemma take_values_shorter: "take_values arg later opt = (opt', later', msg) \<Longrightarrow> length later' \<le> length later"
  using length_dropWhile_le [of "\<lambda>a. \<not> dash a" later]
  by (auto simp: take_values_def split: if_splits list.splits)

function cli_parse :: "string list \<Rightarrow> cli_options \<Rightarrow> fault + cli_options" where
  "cli_parse [] c = Inr c"
| "cli_parse (arg # later) c =
     (case map_of (options c) arg of
        None \<Rightarrow> cli_parse later (c\<lparr>positional_args := positional_args c @ [arg]\<rparr>)
      | Some opt \<Rightarrow>
          (case take_values arg later (opt\<lparr>opt_is_set := True\<rparr>) of
             (opt, later', msg) \<Rightarrow>
               bind_res (opt_handler opt (opt_values opt))
                 (\<lambda>out. cli_parse later' (c\<lparr>options := map_assign arg opt (options c),
                     cout := cout c @ out, cerr := cerr c @ msg\<rparr>))))"
  by pat_completeness auto
termination
  by (relation "measure (\<lambda>(args, c). length args)")
     (auto simp: less_Suc_eq_le dest!: take_values_shorter [OF sym] dest: take_values_shorter)

definition is_set :: "cli_options \<Rightarrow> string \<Rightarrow> bool" where
  "is_set c name = (case map_of (options c) name of None \<Rightarrow> False | Some opt \<Rightarrow> opt_is_set opt)"

definition option_value :: "cli_options \<Rightarrow> string \<Rightarrow> string" where
  "option_value c name =
     (case map_of (options c) name of
        None \<Rightarrow> []
      | Some opt \<Rightarrow> if opt_values opt \<noteq> [] then opt_values opt ! 0 else [])"

definition values_of :: "cli_options \<Rightarrow> string \<Rightarrow> string list" where
  "values_of c name = (case map_of (options c) name of None \<Rightarrow> [] | Some opt \<Rightarrow> opt_values opt)"


definition positional :: "cli_options \<Rightarrow> string list" where
  "positional c = positional_args c"

definition tab :: string where "tab = [CHR 0x09]"

definition print_help :: "string \<Rightarrow> cli_options \<Rightarrow> string" where
  "print_help prog_name c =
     ''Usage: '' @ prog_name @ '' [options]'' @ newline @ ''Options:'' @ newline
     @ concat (map (\<lambda>(name, opt). ''  '' @ name
         @ (if has_value opt then if multi_value opt then '' <value1> [value2 ...]'' else '' <value>'' else [])
         @ tab @ description opt @ newline) (options c))"

section \<open>The example program\<close>

fun shown :: "optval \<Rightarrow> string" where
  "shown (VString s) = s"
| "shown (VInt i) = show_int i"

definition main_options :: cli_options where
  "main_options =
     set_handler TString ''--input'' (Some (\<lambda>vals. ''[Handler] Input files: ''
         @ concat (map (\<lambda>v. shown v @ '' '') vals) @ newline))
      (add_option TString ''--verbose'' ''Enable verbose mode'' False
         (Some (\<lambda>_. ''[Handler] Verbose mode enabled'' @ newline)) False
      (add_option TString ''--output'' ''Output file'' True None False
      (add_option TInt ''--numbers'' ''Numbers'' True (Some (\<lambda>vals. ''[Handler] Numbers: ''
         @ concat (map (\<lambda>v. shown v @ '' '') vals) @ newline)) True
      (add_option TString ''--input'' ''Input file(s)'' True None True
      (add_option TString ''-h'' ''Show help message'' False None False
      (add_option TString ''--help'' ''Show help message'' False None False CLIOptions))))))"

text \<open>The result is what the program has written to its two streams; it always returns 0.\<close>

definition cli_main :: "string \<Rightarrow> string list \<Rightarrow> fault + string \<times> string" where
  "cli_main argv0 args =
     bind_res (cli_parse args main_options)
       (\<lambda>cli.
          if is_set cli ''--help'' \<or> is_set cli ''-h'' then Inr (cout cli @ print_help argv0 cli, cerr cli)
          else
            let out = cout cli;
                out = (if is_set cli ''--verbose'' then out @ ''Verbose mode enabled'' @ newline else out);
                out = (if is_set cli ''--input'' then
                         out @ ''Input: '' @ concat (map (\<lambda>f. f @ '' '') (values_of cli ''--input'')) @ newline
                       else out);
                out = (if is_set cli ''--output'' then
                         out @ ''Output: '' @ option_value cli ''--output'' @ newline
                       else out);
                out = (if positional cli \<noteq> [] then
                         out @ ''Positional arguments:'' @ newline
                           @ concat (map (\<lambda>arg. ''  '' @ arg @ newline) (positional cli))
                       else out)
            in Inr (out, cerr cli))"

section \<open>The grammar of command lines\<close>

datatype item =
    Positional string
  | Plain string
  | WithValue string string
  | WithValues string "string list"
  | Missing string

fun words_of :: "item list \<Rightarrow> string list" where
  "words_of [] = []"
| "words_of (Positional a # its) = a # words_of its"
| "words_of (Plain n # its) = n # words_of its"
| "words_of (WithValue n v # its) = n # v # words_of its"
| "words_of (WithValues n vs # its) = n # vs @ words_of its"
| "words_of (Missing n # its) = n # words_of its"

text \<open>\<open>kind n\<close>: whether \<open>n\<close> is an option, has a value, and takes several.\<close>

fun well_formed_items :: "(string \<Rightarrow> (bool \<times> bool) option) \<Rightarrow> item list \<Rightarrow> bool" where
  "well_formed_items kind [] \<longleftrightarrow> True"
| "well_formed_items kind (Positional a # its) \<longleftrightarrow> kind a = None \<and> well_formed_items kind its"
| "well_formed_items kind (Plain n # its) \<longleftrightarrow> (\<exists>m. kind n = Some (False, m)) \<and> well_formed_items kind its"
| "well_formed_items kind (WithValue n v # its) \<longleftrightarrow> kind n = Some (True, False) \<and> well_formed_items kind its"
| "well_formed_items kind (WithValues n vs # its) \<longleftrightarrow>
     kind n = Some (True, True) \<and> (\<forall>v \<in> set vs. \<not> dash v)
     \<and> (words_of its = [] \<or> dash (hd (words_of its))) \<and> well_formed_items kind its"
| "well_formed_items kind (Missing n # its) \<longleftrightarrow> kind n = Some (True, False) \<and> its = []"

fun positionals :: "item list \<Rightarrow> string list" where
  "positionals [] = []"
| "positionals (Positional a # its) = a # positionals its"
| "positionals (_ # its) = positionals its"

fun named :: "item \<Rightarrow> string option" where
  "named (Positional a) = None"
| "named (Plain n) = Some n"
| "named (WithValue n v) = Some n"
| "named (WithValues n vs) = Some n"
| "named (Missing n) = Some n"

text \<open>The values of an option are those of the last item that gives it any.\<close>

fun final_values :: "string \<Rightarrow> item list \<Rightarrow> string list \<Rightarrow> string list" where
  "final_values n [] old = old"
| "final_values n (WithValue m v # its) old = final_values n its (if m = n then [v] else old)"
| "final_values n (WithValues m vs # its) old = final_values n its (if m = n then vs else old)"
| "final_values n (_ # its) old = final_values n its old"

definition kinds :: "cli_options \<Rightarrow> string \<Rightarrow> (bool \<times> bool) option" where
  "kinds c n = map_option (\<lambda>opt. (has_value opt, multi_value opt)) (map_of (options c) n)"

definition no_throw_handlers :: "cli_options \<Rightarrow> bool" where
  "no_throw_handlers c \<longleftrightarrow> (\<forall>n opt raw f. map_of (options c) n = Some opt \<longrightarrow> opt_handler opt raw \<noteq> Inl f)"

definition parsed :: "cli_options \<Rightarrow> item list \<Rightarrow> cli_options \<Rightarrow> bool" where
  "parsed c its c' \<longleftrightarrow> positional_args c' = positional_args c @ positionals its
     \<and> (\<forall>n. is_set c' n \<longleftrightarrow> is_set c n \<or> Some n \<in> named ` set its)
     \<and> (\<forall>n. values_of c' n = final_values n its (values_of c n))
     \<and> kinds c' = kinds c"

text \<open>What taking the values amounts to, as an item.\<close>

lemma take_values_item:
  assumes "take_values arg later (opt\<lparr>opt_is_set := True\<rparr>) = (opt', later', msg)"
    "map_of (options c) arg = Some opt" "well_formed_items (kinds c) its" "words_of its = later'"
  shows "\<exists>it. words_of (it # its) = arg # later \<and> well_formed_items (kinds c) (it # its) \<and> named it = Some arg
    \<and> positionals (it # its) = positionals its
    \<and> (\<forall>n. final_values n (it # its) (values_of c n)
         = final_values n its (if n = arg then opt_values opt' else values_of c n))
    \<and> opt_is_set opt' \<and> opt_handler opt' = opt_handler opt
    \<and> has_value opt' = has_value opt \<and> multi_value opt' = multi_value opt"
proof -
  consider (plain) "\<not> has_value opt" | (multi) "has_value opt" "multi_value opt"
    | (single) v vs where "has_value opt" "\<not> multi_value opt" "later = v # vs"
    | (missing) "has_value opt" "\<not> multi_value opt" "later = []"
    by (cases later) auto
  then show ?thesis
  proof cases
    case plain
    with assms show ?thesis by (intro exI [of _ "Plain arg"]) (auto simp: take_values_def kinds_def values_of_def)
  next
    case multi
    have "words_of its = [] \<or> dash (hd (words_of its))" 
      using assms(1,4) multi hd_dropWhile [of "\<lambda>a. \<not> dash a" later] by (auto simp: take_values_def)
    moreover have "\<forall>v \<in> set (takeWhile (\<lambda>a. \<not> dash a) later). \<not> dash v" by (auto dest: set_takeWhileD)
    moreover have "takeWhile (\<lambda>a. \<not> dash a) later @ words_of its = later"
      using assms(1,4) multi takeWhile_dropWhile_id [of "\<lambda>a. \<not> dash a" later] by (auto simp: take_values_def)
    ultimately show ?thesis using assms multi
      by (intro exI [of _ "WithValues arg (takeWhile (\<lambda>a. \<not> dash a) later)"]) (auto simp: take_values_def kinds_def values_of_def)
  next
    case single
    with assms show ?thesis by (intro exI [of _ "WithValue arg v"]) (auto simp: take_values_def kinds_def values_of_def)
  next
    case missing
    then have "its = []" using assms by (cases its rule: words_of.cases) (auto simp: take_values_def)
    with missing assms show ?thesis by (intro exI [of _ "Missing arg"]) (auto simp: take_values_def kinds_def values_of_def)
  qed
qed


lemma kinds_assign:
  assumes "key_order (options c)" "map_of (options c) arg = Some opt"
    "has_value opt' = has_value opt" "multi_value opt' = multi_value opt"
  shows "kinds (c\<lparr>options := map_assign arg opt' (options c), cout := o1, cerr := o2\<rparr>) = kinds c"
  using assms by (auto simp: kinds_def map_of_assign fun_eq_iff)

lemma cli_parse_items:
  assumes "key_order (options c)" "no_throw_handlers c"
  shows "\<exists>its c'. words_of its = args \<and> well_formed_items (kinds c) its \<and> cli_parse args c = Inr c' \<and> parsed c its c'"
  using assms
proof (induction args c rule: cli_parse.induct)
  case (1 c)
  show ?case by (rule exI [of _ "[]"]) (simp add: parsed_def)
next
  case (2 arg later c)
  show ?case
  proof (cases "map_of (options c) arg")
    case None
    let ?c = "c\<lparr>positional_args := positional_args c @ [arg]\<rparr>"
    have k: "kinds ?c = kinds c" by (simp add: kinds_def fun_eq_iff)
    have "no_throw_handlers ?c" using 2(4) by (simp add: no_throw_handlers_def)
    with 2(1) [OF None] 2(3) k obtain its c' where
      its: "words_of its = later" "well_formed_items (kinds c) its" "cli_parse later ?c = Inr c'" "parsed ?c its c'" by auto
    moreover have "kinds c arg = None" using None by (simp add: kinds_def)
    ultimately show ?thesis using None
      by (intro exI [of _ "Positional arg # its"]) (auto simp: parsed_def is_set_def values_of_def k)
  next
    case (Some opt)
    obtain opt' later' msg where t: "take_values arg later (opt\<lparr>opt_is_set := True\<rparr>) = (opt', later', msg)"
      by (metis prod_cases3)
    have keep: "opt_handler opt' = opt_handler opt" "has_value opt' = has_value opt" "multi_value opt' = multi_value opt"
      using t by (auto simp: take_values_def split: if_splits list.splits)
    obtain out where out: "opt_handler opt' (opt_values opt') = Inr out"
      using 2(4) Some keep(1) unfolding no_throw_handlers_def by (metis sum.exhaust)
    let ?c = "c\<lparr>options := map_assign arg opt' (options c), cout := cout c @ out, cerr := cerr c @ msg\<rparr>"
    have m: "map_of (options ?c) = (map_of (options c))(arg \<mapsto> opt')" using map_of_assign [OF 2(3)] by simp
    have k: "kinds ?c = kinds c" by (rule kinds_assign [OF 2(3) Some keep(2,3)])
    have "key_order (options ?c)" using key_order_assign [OF 2(3)] by simp
    moreover have "no_throw_handlers ?c"
      using 2(4) Some keep(1) unfolding no_throw_handlers_def m by (metis fun_upd_other fun_upd_same option.inject)
    ultimately obtain its c' where its: "words_of its = later'" "well_formed_items (kinds c) its"
      "cli_parse later' ?c = Inr c'" "parsed ?c its c'"
      using 2(2) [OF Some t [symmetric] refl out] k by auto
    from take_values_item [OF t Some its(2,1)] obtain it where
      it: "words_of (it # its) = arg # later" "well_formed_items (kinds c) (it # its)" "named it = Some arg"
        "positionals (it # its) = positionals its" "opt_is_set opt'"
        "\<And>n. final_values n (it # its) (values_of c n)
           = final_values n its (if n = arg then opt_values opt' else values_of c n)" by blast
    have "values_of ?c n = (if n = arg then opt_values opt' else values_of c n)"
      "is_set ?c n \<longleftrightarrow> is_set c n \<or> n = arg" for n
      using m it(5) by (auto simp: values_of_def is_set_def)
    then have "parsed c (it # its) c'" using its(4) it k by (auto simp: parsed_def)
    with it(1,2) its(3) Some t out show ?thesis by (intro exI [of _ "it # its"] exI [of _ c']) simp
  qed
qed


lemma append_split_unique:
  assumes "vs @ ws = vs' @ ws'" "\<forall>v \<in> set vs. \<not> dash v" "\<forall>v \<in> set vs'. \<not> dash v"
    "ws = [] \<or> dash (hd ws)" "ws' = [] \<or> dash (hd ws')"
  shows "vs = vs' \<and> ws = ws'"
proof -
  have tw: "takeWhile (\<lambda>a. \<not> dash a) (us @ xs) = us" if "\<forall>v \<in> set us. \<not> dash v" "xs = [] \<or> dash (hd xs)" for us xs
    using that by (cases xs) (auto simp: takeWhile_append)
  from tw [OF assms(2,4)] tw [OF assms(3,5)] assms(1) show ?thesis by auto
qed

lemma first_item_unique:
  assumes "well_formed_items kind (it # its)" "well_formed_items kind (it' # its')" "words_of (it # its) = words_of (it' # its')"
  shows "it = it' \<and> words_of its = words_of its'"
proof (cases "(\<exists>n vs. it = WithValues n vs) \<and> (\<exists>n vs. it' = WithValues n vs)")
  case True
  then obtain n vs n' vs' where "it = WithValues n vs" "it' = WithValues n' vs'" by blast
  with assms append_split_unique [of vs "words_of its" vs' "words_of its'"] show ?thesis by simp
next
  case False
  with assms show ?thesis by (cases it; cases it') auto
qed

lemma items_unique:
  "well_formed_items kind its \<Longrightarrow> well_formed_items kind its' \<Longrightarrow> words_of its = words_of its' \<Longrightarrow> its = its'"
proof (induction its arbitrary: its')
  case Nil
  then show ?case by (cases its' rule: words_of.cases) simp_all
next
  case (Cons it its)
  have "words_of (it # its) \<noteq> []" by (cases it) simp_all
  with Cons.prems(3) obtain it' rest where its': "its' = it' # rest" by (cases its') auto
  have "well_formed_items kind its" using Cons.prems(1) by (cases it) auto
  moreover have "well_formed_items kind rest" using Cons.prems(2) by (cases it') (auto simp: its')
  ultimately show ?case
    using first_item_unique [OF Cons.prems(1) Cons.prems(2) [unfolded its'] Cons.prems(3) [unfolded its']] Cons.IH its'
    by blast
qed

section \<open>The properties of the parser\<close>


lemma key_order_add: "key_order (options c) \<Longrightarrow> key_order (options (add_option T n d v h m c))"
  by (simp add: add_option_def key_order_assign)


text \<open>A negative number after \<^verbatim>\<open>--numbers\<close> ends the run of values and becomes a positional
  argument with all that follows; a word that is no number makes \<^verbatim>\<open>stoi\<close> throw out of \<^verbatim>\<open>main\<close>.\<close>

lemma cli_negative_number:
  "cli_main ''prog'' [''--numbers'', ''1'', ''-2'', ''3''] =
     Inr (''[Handler] Numbers: 1 '' @ newline @ ''Positional arguments:'' @ newline @ ''  -2'' @ newline @ ''  3'' @ newline, [])"
  by code_simp

lemma cli_bad_number: "cli_main ''prog'' [''--numbers'', ''x''] = Inl (Thrown ''std::invalid_argument'')"
  by code_simp

text \<open>An option that needs a value takes the next word, another option included; as the last word it
  is only reported, stays set, and prints an empty value.\<close>

lemma cli_missing_value:
  "cli_main ''prog'' [''--output''] =
     Inr (''Output: '' @ newline, ''Option '' @ [CHR 0x27] @ ''--output'' @ [CHR 0x27] @ '' requires a value!'' @ newline)"
  "cli_main ''prog'' [''--output'', ''--help''] = Inr (''Output: --help'' @ newline, [])"
  by code_simp+

end
