(* ===== verification/Lang_Coroutines.thy ===== *)
theory Lang_Coroutines
  imports Machine
begin

text \<open>
  \<^verbatim>\<open>src/coroutines/test_0.cpp, test_2.cpp, test_4.cpp, test_5.cpp, test_6.cpp\<close>: coroutines driven by
  hand, one from another, and awaitable coroutines that start at once. The rules of \<^verbatim>\<open>coroutine_handle\<close> are those of the
  language: only a suspended coroutine may be resumed, and not at its final suspend point; a
  frame lives until \<^verbatim>\<open>destroy\<close>. \<^verbatim>\<open>TCPP_PRINT_HERE\<close> prints the line it stands on, which is the
  number recorded here. (\<^verbatim>\<open>test_1.cpp\<close> and \<^verbatim>\<open>test_3.cpp\<close> are disabled by \<^verbatim>\<open>#if 0\<close>.)
\<close>

section \<open>Handles\<close>

text \<open>The body of a coroutine is the lines it prints between two suspend points.\<close>

datatype frame_state = SuspendedAt nat | AtFinalSuspend | FrameDestroyed

record frame =
  segments :: "nat list list"
  frame_state :: frame_state

record coro_run =
  frames :: "frame list"
  printed :: "nat list"

datatype coro_op =
    Here nat
  | Create "nat list list" "nat list"
  | Resume nat "nat list"
  | DestroyFrame nat

definition set_frame :: "nat \<Rightarrow> frame_state \<Rightarrow> coro_run \<Rightarrow> coro_run" where
  "set_frame h st r = r\<lparr>frames := (frames r)[h := (frames r ! h)\<lparr>frame_state := st\<rparr>]\<rparr>"

text \<open>\<open>Create body pre\<close> calls a coroutine that suspends initially; \<open>pre\<close> is what its promise prints on
  the way. \<open>Resume h post\<close> also prints \<open>post\<close> when the coroutine reaches its end.\<close>

fun coro_step :: "coro_op \<Rightarrow> coro_run \<Rightarrow> fault + coro_run" where
  "coro_step (Here n) r = Inr (r\<lparr>printed := printed r @ [n]\<rparr>)"
| "coro_step (Create body pre) r =
     Inr (r\<lparr>frames := frames r @ [\<lparr>segments = body, frame_state = SuspendedAt 0\<rparr>], printed := printed r @ pre\<rparr>)"
| "coro_step (Resume h post) r =
     (if h < length (frames r) then
        case frame_state (frames r ! h) of
          SuspendedAt n \<Rightarrow>
            let body = segments (frames r ! h);
                r = r\<lparr>printed := printed r @ body ! n\<rparr>
            in if n + 1 < length body then Inr (set_frame h (SuspendedAt (n + 1)) r)
               else Inr ((set_frame h AtFinalSuspend r)\<lparr>printed := printed r @ post\<rparr>)
        | AtFinalSuspend \<Rightarrow> Inl (Undefined ''resume at the final suspend point'')
        | FrameDestroyed \<Rightarrow> Inl (Undefined ''resume of a destroyed coroutine'')
      else Inl (Undefined ''resume through a null handle''))"
| "coro_step (DestroyFrame h) r =
     (if h < length (frames r) \<and> frame_state (frames r ! h) \<noteq> FrameDestroyed then Inr (set_frame h FrameDestroyed r)
      else Inl (Undefined ''destroy of a destroyed coroutine''))"

fun coro_pre :: "coro_op \<Rightarrow> coro_run \<Rightarrow> bool" where
  "coro_pre (Here n) r = True"
| "coro_pre (Create body pre) r = (body \<noteq> [])"
| "coro_pre (Resume h post) r = (h < length (frames r) \<and> (\<exists>n. frame_state (frames r ! h) = SuspendedAt n))"
| "coro_pre (DestroyFrame h) r = (h < length (frames r) \<and> frame_state (frames r ! h) \<noteq> FrameDestroyed)"

definition coro_inv :: "coro_run \<Rightarrow> bool" where
  "coro_inv r \<longleftrightarrow> (\<forall>f \<in> set (frames r). \<forall>n. frame_state f = SuspendedAt n \<longrightarrow> n < length (segments f))"

lemma set_frame_inv:
  assumes "coro_inv r" "h < length (frames r)" "\<And>n. st = SuspendedAt n \<Longrightarrow> n < length (segments (frames r ! h))"
  shows "coro_inv (set_frame h st r)"
proof -
  have "f = (frames r ! h)\<lparr>frame_state := st\<rparr> \<or> f \<in> set (frames r)" if "f \<in> set (frames (set_frame h st r))" for f
    using that set_update_subset_insert [of "frames r" h "(frames r ! h)\<lparr>frame_state := st\<rparr>"]
    by (auto simp: set_frame_def)
  with assms show ?thesis by (fastforce simp: coro_inv_def)
qed

interpretation coroutines: safe_machine coro_step coro_pre coro_inv
proof (unfold_locales, goal_cases)
  case (1 r op)
  have frame: "coro_inv (r\<lparr>printed := p\<rparr>) = coro_inv r" for p r by (simp add: coro_inv_def)
  have sel: "frames (set_frame h st (r\<lparr>printed := p\<rparr>)) = frames (set_frame h st r)" for h st p
    by (simp add: set_frame_def)
  show ?case
  proof (cases op)
    case (Resume h post)
    with 1(2) obtain n where n: "h < length (frames r)" "frame_state (frames r ! h) = SuspendedAt n" by auto
    have "coro_inv (set_frame h st r)" if "st = AtFinalSuspend \<or> st = SuspendedAt (n + 1) \<and> n + 1 < length (segments (frames r ! h))" for st
      using that by (intro set_frame_inv [OF 1(1) n(1)]) auto
    then show ?thesis using Resume n sel by (auto simp: Let_def coro_inv_def)
  next
    case (DestroyFrame h)
    with 1 set_frame_inv [OF 1(1), of h FrameDestroyed] show ?thesis by simp
  qed (use 1 in \<open>auto simp: coro_inv_def\<close>)
qed

definition no_coroutines :: coro_run where
  "no_coroutines = \<lparr>frames = [], printed = []\<rparr>"

section \<open>test_0.cpp and test_2.cpp\<close>

definition test0_Test0 :: "coro_op list" where
  "test0_Test0 = [Here 25, Create [[20]] [], Here 27, Resume 0 [], Here 29, DestroyFrame 0, Here 31]"

definition test0_Test1 :: "coro_op list" where
  "test0_Test1 = [Here 44, Create [[35], [37], [39]] [], Here 46, Resume 1 [], Here 48, Resume 1 [], Here 50,
     Resume 1 [], Here 52, DestroyFrame 1]"

text \<open>\<^verbatim>\<open>co_await 10\<close> goes through \<^verbatim>\<open>await_transform\<close>, which prints line 69.\<close>

definition test0_Test2 :: "coro_op list" where
  "test0_Test2 = [Here 84, Create [[75, 69], [77, 69], [79]] [], Here 86, Resume 2 [], Here 88, Resume 2 [], Here 90,
     Resume 2 [], Here 92, DestroyFrame 2]"

definition test0_main :: "fault + coro_run" where
  "test0_main = run_ops coro_step (test0_Test0 @ test0_Test1 @ test0_Test2) no_coroutines"

text \<open>The promise of \<^verbatim>\<open>test_2.cpp\<close> prints at every customisation point.\<close>

definition test2_main :: "fault + coro_run" where
  "test2_main = run_ops coro_step
     [Here 58, Create [[19, 53, 44]] [24, 29, 13, 17], Here 60, Resume 0 [35, 13, 17], Here 62, Resume 0 [], Here 65,
      DestroyFrame 0, Here 67] no_coroutines"

section \<open>Driving one coroutine\<close>

lemma resume_run:
  "n + k \<le> length body \<Longrightarrow> k > 0 \<Longrightarrow> frames r ! h = \<lparr>segments = body, frame_state = SuspendedAt n\<rparr> \<Longrightarrow>
     h < length (frames r) \<Longrightarrow>
     \<exists>r'. run_ops coro_step (replicate k (Resume h [])) r = Inr r'
       \<and> printed r' = printed r @ concat (take k (drop n body)) \<and> length (frames r') = length (frames r)
       \<and> frames r' ! h = \<lparr>segments = body,
           frame_state = (if n + k = length body then AtFinalSuspend else SuspendedAt (n + k))\<rparr>"
proof (induction k arbitrary: n r)
  case (Suc k)
  then have d: "drop n body = body ! n # drop (Suc n) body" by (simp add: Cons_nth_drop_Suc)
  show ?case
  proof (cases "n + 1 = length body")
    case True
    with Suc.prems have "k = 0" by simp
    with True Suc.prems d show ?thesis by (auto simp: set_frame_def Let_def)
  next
    case False
    let ?r = "set_frame h (SuspendedAt (n + 1)) (r\<lparr>printed := printed r @ body ! n\<rparr>)"
    have step: "coro_step (Resume h []) r = Inr ?r" using Suc.prems False by (simp add: Let_def)
    show ?thesis
    proof (cases "k = 0")
      case True
      with step Suc.prems False d show ?thesis by (auto simp: set_frame_def)
    next
      case k: False
      have "frames ?r ! h = \<lparr>segments = body, frame_state = SuspendedAt (n + 1)\<rparr>" "h < length (frames ?r)"
        using Suc.prems by (simp_all add: set_frame_def)
      with Suc.IH [of "n + 1" ?r] Suc.prems k obtain r' where
        "run_ops coro_step (replicate k (Resume h [])) ?r = Inr r'"
        "printed r' = printed ?r @ concat (take k (drop (n + 1) body))" "length (frames r') = length (frames ?r)"
        "frames r' ! h = \<lparr>segments = body,
           frame_state = (if n + 1 + k = length body then AtFinalSuspend else SuspendedAt (n + 1 + k))\<rparr>" by auto
      with step d show ?thesis by (auto simp: set_frame_def)
    qed
  qed
qed simp

text \<open>
  A coroutine that suspends initially runs its body piece by piece: as many resumes as it has
  pieces print the whole body in order and leave it at its final suspend point, where it can be
  destroyed; one resume more is undefined behaviour.
\<close>
theorem coroutine_resumes:
  assumes "body \<noteq> []"
  shows "\<exists>r. run_ops coro_step (Create body pre # replicate (length body) (Resume 0 [])) no_coroutines = Inr r
    \<and> printed r = pre @ concat body
    \<and> (\<exists>r'. coro_step (DestroyFrame 0) r = Inr r')
    \<and> coro_step (Resume 0 post) r = Inl (Undefined ''resume at the final suspend point'')"
proof -
  let ?r = "\<lparr>frames = [\<lparr>segments = body, frame_state = SuspendedAt 0\<rparr>], printed = pre\<rparr>"
  from resume_run [of 0 "length body" body ?r 0] assms obtain r where
    "run_ops coro_step (replicate (length body) (Resume 0 [])) ?r = Inr r" "printed r = pre @ concat body"
    "length (frames r) = 1" "frames r ! 0 = \<lparr>segments = body, frame_state = AtFinalSuspend\<rparr>" by auto
  then show ?thesis by (auto simp: no_coroutines_def)
qed

lemma coroutine_resumes_witness:
  "\<exists>r. run_ops coro_step [Create [[35], [37], [39]] [], Resume 0 [], Resume 0 [], Resume 0 []] no_coroutines = Inr r
    \<and> printed r = [35, 37, 39]"
  using coroutine_resumes [of "[[35], [37], [39]]" "[]"] by (auto simp: numeral_3_eq_3)

text \<open>The whole of \<^verbatim>\<open>test_0.cpp\<close> is well behaved and destroys its three coroutines; \<^verbatim>\<open>test_2.cpp\<close> resumes its
  coroutine once too often, after it has returned its value.\<close>

lemma test0_prints:
  "map_sum id (\<lambda>r. (printed r, map frame_state (frames r))) test0_main =
     Inr ([25, 27, 20, 29, 31, 44, 46, 35, 48, 37, 50, 39, 52, 84, 86, 75, 69, 88, 77, 69, 90, 79, 92],
          [FrameDestroyed, FrameDestroyed, FrameDestroyed])"
  by code_simp

lemma test2_undefined: "test2_main = Inl (Undefined ''resume at the final suspend point'')"
  by code_simp


section \<open>test_4.cpp and test_5.cpp: awaitables\<close>

text \<open>These coroutines do not suspend initially: a call runs the body at once, and \<^verbatim>\<open>co_await\<close> of the
  result hands control back to the awaiting coroutine itself. Nothing calls \<^verbatim>\<open>destroy\<close>: it stands in
  the default constructor of \<^verbatim>\<open>Awaitable\<close>. \<open>live\<close> counts the frames that exist.\<close>

datatype out = Line nat | Text string

record await_run =
  live :: nat
  outs :: "out list"

definition emit_lines :: "nat list \<Rightarrow> await_run \<Rightarrow> await_run" where
  "emit_lines ns r = r\<lparr>outs := outs r @ map Line ns\<rparr>"

definition print_text :: "string \<Rightarrow> await_run \<Rightarrow> await_run" where
  "print_text s r = r\<lparr>outs := outs r @ [Text s]\<rparr>"

text \<open>\<^verbatim>\<open>get_return_object\<close>, the awaitable's constructor, \<^verbatim>\<open>initial_suspend\<close> and its \<^verbatim>\<open>SuspendNever\<close>.\<close>

definition start_frame :: "await_run \<Rightarrow> await_run" where
  "start_frame r = emit_lines [67, 45, 73, 11, 17] (r\<lparr>live := live r + 1\<rparr>)"

text \<open>\<^verbatim>\<open>return_value\<close>, \<^verbatim>\<open>final_suspend\<close> and its \<^verbatim>\<open>SuspendAlways\<close>.\<close>

definition finish_frame :: "await_run \<Rightarrow> await_run" where
  "finish_frame = emit_lines [82, 77, 22, 26]"

definition await :: "await_run \<Rightarrow> await_run" where
  "await = emit_lines [49, 53, 57]"

definition GetString :: "await_run \<Rightarrow> string \<times> await_run" where
  "GetString r = (''some string'', finish_frame (emit_lines [90] (start_frame r)))"

definition co_return_after :: "(await_run \<Rightarrow> int \<times> await_run) \<Rightarrow> int \<Rightarrow> await_run \<Rightarrow> int \<times> await_run" where
  "co_return_after callee k r =
     (let (v, r) = callee (start_frame r) in (v + k, finish_frame (await r)))"

definition GetInt0 :: "await_run \<Rightarrow> int \<times> await_run" where
  "GetInt0 r = (0, finish_frame (start_frame r))"

definition GetInt1 where "GetInt1 = co_return_after GetInt0 1"
definition GetInt2 where "GetInt2 = co_return_after GetInt1 2"
definition GetInt3 where "GetInt3 = co_return_after GetInt2 3"
definition GetInt4 where "GetInt4 = co_return_after GetInt3 4"
definition GetInt5 where "GetInt5 = co_return_after GetInt4 5"

text \<open>The loop runs 100000 times in \<^verbatim>\<open>test_4.cpp\<close>, twice in \<^verbatim>\<open>test_5.cpp\<close>.\<close>

fun await_loop :: "nat \<Rightarrow> nat \<Rightarrow> await_run \<Rightarrow> await_run" where
  "await_loop 0 i r = r"
| "await_loop (Suc n) i r =
     (let r = print_text (''i = '' @ show_nat i) r;
          (value', r) = GetInt5 r;
          r = print_text (''value = '' @ show_int value') (await r)
      in await_loop n (i + 1) r)"

definition Test0Coro :: "nat \<Rightarrow> await_run \<Rightarrow> string \<times> await_run" where
  "Test0Coro n r =
     (let r = emit_lines [102] (start_frame r);
          (str, r) = GetString r;
          r = emit_lines [104] (await r);
          r = await_loop n 0 r
      in (str, finish_frame r))"

definition await_Test0 :: "nat \<Rightarrow> await_run \<Rightarrow> await_run" where
  "await_Test0 n r =
     (let r = emit_lines [126] r;
          (str, r) = Test0Coro n r;
          r = emit_lines [128] (start_frame r);
          r = emit_lines [130] (await r);
          r = finish_frame (print_text (''str = '' @ str) r)
      in emit_lines [134] r)"

lemma print_live [simp]: "live (emit_lines ns r) = live r" "live (print_text s r) = live r"
  by (simp_all add: emit_lines_def print_text_def)

lemma print_outs [simp]:
  "outs (emit_lines ns r) = outs r @ map Line ns" "outs (print_text s r) = outs r @ [Text s]"
  by (simp_all add: emit_lines_def print_text_def)

definition text_outs :: "await_run \<Rightarrow> string list" where
  "text_outs r = List.map_filter (\<lambda>x. case x of Text s \<Rightarrow> Some s | Line n \<Rightarrow> None) (outs r)"

lemma texts_append:
  "List.map_filter f (xs @ ys) = List.map_filter f xs @ List.map_filter f ys"
  by (induction xs) (simp_all add: List.map_filter_simps split: option.split)

lemma texts_print [simp]:
  "text_outs (emit_lines ns r) = text_outs r" "text_outs (print_text s r) = text_outs r @ [s]"
proof -
  have "List.map_filter (\<lambda>x. case x of Text s \<Rightarrow> Some s | Line n \<Rightarrow> None) (map Line ns) = []"
    by (induction ns) (simp_all add: List.map_filter_simps)
  then show "text_outs (emit_lines ns r) = text_outs r" by (simp add: text_outs_def texts_append)
qed (simp add: text_outs_def texts_append List.map_filter_simps)

lemma frame_facts [simp]:
  "live (start_frame r) = live r + 1" "live (finish_frame r) = live r" "live (await r) = live r"
  "text_outs (start_frame r) = text_outs r" "text_outs (finish_frame r) = text_outs r" "text_outs (await r) = text_outs r"
  by (simp_all add: start_frame_def finish_frame_def await_def) (simp add: text_outs_def)

lemma GetInt5_facts: "fst (GetInt5 r) = 15 \<and> live (snd (GetInt5 r)) = live r + 6 \<and> text_outs (snd (GetInt5 r)) = text_outs r"
  by (simp add: GetInt5_def GetInt4_def GetInt3_def GetInt2_def GetInt1_def GetInt0_def co_return_after_def Let_def)

lemma await_loop_facts:
  "live (await_loop n i r) = live r + 6 * n
   \<and> text_outs (await_loop n i r) = text_outs r @ concat (map (\<lambda>j. [''i = '' @ show_nat j, ''value = '' @ show_int 15]) [i..<i + n])"
proof (induction n arbitrary: i r)
  case (Suc n)
  have "[i..<i + Suc n] = i # [Suc i..<Suc i + n]" by (simp add: upt_rec)
  with Suc [of "Suc i"] GetInt5_facts [of "print_text (''i = '' @ show_nat i) r"] show ?case
    by (simp add: split_beta Let_def)
qed simp

text \<open>
  Every await of the chain of coroutines gives 15 and the program prints each round in order and
  its string last; but no frame is ever destroyed: six are left behind by every round of the
  loop, and three by the rest.
\<close>
theorem awaitables_leak:
  "text_outs (await_Test0 n \<lparr>live = 0, outs = []\<rparr>)
     = concat (map (\<lambda>j. [''i = '' @ show_nat j, ''value = '' @ show_int 15]) [0..<n]) @ [''str = some string'']
   \<and> live (await_Test0 n \<lparr>live = 0, outs = []\<rparr>) = 6 * n + 3"
proof -
  have "text_outs \<lparr>live = 0, outs = []\<rparr> = []" by (simp add: text_outs_def List.map_filter_simps)
  then show ?thesis
    by (simp add: await_Test0_def Test0Coro_def GetString_def Let_def await_loop_facts)
qed

section \<open>test_6.cpp: a coroutine that drives another\<close>

text \<open>These suspend initially, and their promise keeps the string they return. The body of a coroutine
  is a function, run by the first resume; its one \<^verbatim>\<open>co_await\<close> does not suspend.\<close>

record lazy_run =
  lazy_frames :: "(frame_state \<times> string) list"
  lazy_outs :: "out list"

definition lazy_lines :: "nat list \<Rightarrow> lazy_run \<Rightarrow> lazy_run" where
  "lazy_lines ns r = r\<lparr>lazy_outs := lazy_outs r @ map Line ns\<rparr>"

definition lazy_text :: "string \<Rightarrow> lazy_run \<Rightarrow> lazy_run" where
  "lazy_text s r = r\<lparr>lazy_outs := lazy_outs r @ [Text s]\<rparr>"

definition lazy_create :: "lazy_run \<Rightarrow> nat \<times> lazy_run" where
  "lazy_create r =
     (length (lazy_frames r), lazy_lines [37, 42, 26, 30] (r\<lparr>lazy_frames := lazy_frames r @ [(SuspendedAt 0, [])]\<rparr>))"

definition lazy_resume :: "(lazy_run \<Rightarrow> fault + (string \<times> lazy_run)) \<Rightarrow> nat \<Rightarrow> lazy_run \<Rightarrow> fault + lazy_run" where
  "lazy_resume body h r =
     (case fst (lazy_frames r ! h) of
        SuspendedAt n \<Rightarrow>
          bind_res (body (lazy_lines [32] r)) (\<lambda>(str, r).
            Inr (lazy_lines [57, 48, 26, 30] (r\<lparr>lazy_frames := (lazy_frames r)[h := (AtFinalSuspend, str)]\<rparr>)))
      | AtFinalSuspend \<Rightarrow> Inl (Undefined ''resume at the final suspend point'')
      | FrameDestroyed \<Rightarrow> Inl (Undefined ''resume of a destroyed coroutine''))"

definition lazy_destroy :: "nat \<Rightarrow> lazy_run \<Rightarrow> fault + lazy_run" where
  "lazy_destroy h r =
     (if fst (lazy_frames r ! h) = FrameDestroyed then Inl (Undefined ''destroy of a destroyed coroutine'')
      else Inr (r\<lparr>lazy_frames := (lazy_frames r)[h := (FrameDestroyed, [])]\<rparr>))"

definition Test0Coro2_body :: "lazy_run \<Rightarrow> fault + (string \<times> lazy_run)" where
  "Test0Coro2_body r =
     (let r = lazy_lines [86, 68, 76] r; value' = 100;
          r = lazy_text (''value = '' @ show_int value') r
      in Inr (''something else'', lazy_lines [89] r))"

definition Test0Coro1_body :: "lazy_run \<Rightarrow> fault + (string \<times> lazy_run)" where
  "Test0Coro1_body r =
     (let (h, r) = lazy_create (lazy_lines [94] r)
      in bind_res (lazy_resume Test0Coro2_body h (lazy_lines [96] r)) (\<lambda>r.
         bind_res (lazy_destroy h (lazy_lines [98, 100] r)) (\<lambda>r. Inr (''some string'', r))))"

definition test6_Test0 :: "lazy_run \<Rightarrow> fault + lazy_run" where
  "test6_Test0 r =
     (let (h, r) = lazy_create (lazy_lines [106] r)
      in bind_res (lazy_resume Test0Coro1_body h (lazy_lines [108] r)) (\<lambda>r.
         let r = lazy_text (''( h.promise().str_ ) = '' @ snd (lazy_frames r ! h)) r
         in bind_res (lazy_destroy h r) (\<lambda>r. Inr (lazy_lines [114] r))))"

text \<open>Both frames are destroyed, the inner one before the outer one returns its own string; the inner
  coroutine's string is never read.\<close>

lemma test6_prints:
  "map_sum id (\<lambda>r. (lazy_frames r, lazy_outs r)) (test6_Test0 \<lparr>lazy_frames = [], lazy_outs = []\<rparr>) =
     Inr ([(FrameDestroyed, []), (FrameDestroyed, [])],
       map Line [106, 37, 42, 26, 30, 108, 32, 94, 37, 42, 26, 30, 96, 32, 86, 68, 76] @ [Text ''value = 100'']
       @ map Line [89, 57, 48, 26, 30, 98, 100, 57, 48, 26, 30]
       @ [Text ''( h.promise().str_ ) = some string''] @ map Line [114])"
  by code_simp

end
