(* ===== verification/Timtim_Editor.thy ===== *)
theory Timtim_Editor
  imports Machine
begin

text \<open>
  \<^verbatim>\<open>src/timtim/test_editor.cpp\<close> and \<^verbatim>\<open>test_stack.cpp\<close>. The editor's \<^verbatim>\<open>std::list\<close> iterator is the
  index of the character it points to (insertion and erasure of other elements leave iterators
  valid); stepping outside the list is undefined. The stack is the growing array \<open>stack_vector\<close>,
  whose storage holds \<open>None\<close> where no item was written.
\<close>

section \<open>Editor\<close>

record editor =
  ed_text :: string
  clipboard :: string
  cursor :: nat

definition Editor :: editor where
  "Editor = \<lparr>ed_text = [], clipboard = [], cursor = 0\<rparr>"

definition ed_Left :: "editor \<Rightarrow> editor" where
  "ed_Left e = (if cursor e \<noteq> 0 then e\<lparr>cursor := cursor e - 1\<rparr> else e)"

definition ed_Right :: "editor \<Rightarrow> editor" where
  "ed_Right e = (if cursor e \<noteq> length (ed_text e) then e\<lparr>cursor := cursor e + 1\<rparr> else e)"

definition insert_at :: "nat \<Rightarrow> string \<Rightarrow> string \<Rightarrow> string" where
  "insert_at i new s = take i s @ new @ drop i s"

definition erase_range :: "nat \<Rightarrow> nat \<Rightarrow> string \<Rightarrow> string" where
  "erase_range a b s = take a s @ drop b s"

definition ed_Insert :: "char \<Rightarrow> editor \<Rightarrow> editor" where
  "ed_Insert token e = e\<lparr>ed_text := insert_at (cursor e) [token] (ed_text e), cursor := cursor e + 1\<rparr>"

text \<open>\<^verbatim>\<open>Cut\<close> clamps its count, then steps the cursor back by one to keep it off the erased range.\<close>

definition ed_Cut :: "nat \<Rightarrow> editor \<Rightarrow> fault + editor" where
  "ed_Cut tokens e =
     (let e = e\<lparr>clipboard := []\<rparr>;
          end_it = cursor e + min tokens (length (ed_text e) - cursor e);
          e = e\<lparr>clipboard := substr (ed_text e) (cursor e) end_it\<rparr>
      in if cursor e = 0 then Inl (Undefined ''decrement of begin'')
         else
           let e = e\<lparr>cursor := cursor e - 1\<rparr>;
               e = e\<lparr>ed_text := erase_range (cursor e + 1) end_it (ed_text e)\<rparr>
           in Inr (e\<lparr>cursor := cursor e + 1\<rparr>))"

definition ed_Copy :: "nat \<Rightarrow> editor \<Rightarrow> fault + editor" where
  "ed_Copy tokens e =
     (let e = e\<lparr>clipboard := []\<rparr>; end_it = cursor e + tokens
      in if end_it > length (ed_text e) then Inl (Undefined ''increment past the end'')
         else Inr (e\<lparr>clipboard := substr (ed_text e) (cursor e) end_it\<rparr>))"

definition ed_Paste :: "editor \<Rightarrow> editor" where
  "ed_Paste e =
     (if clipboard e \<noteq> [] then
        e\<lparr>ed_text := insert_at (cursor e) (clipboard e) (ed_text e), cursor := cursor e + length (clipboard e)\<rparr>
      else e)"

definition GetText :: "editor \<Rightarrow> string" where "GetText e = ed_text e"

datatype editor_op = ELeft | ERight | EInsert char | ECut nat | ECopy nat | EPaste

fun editor_step :: "editor_op \<Rightarrow> editor \<Rightarrow> fault + editor" where
  "editor_step ELeft e = Inr (ed_Left e)"
| "editor_step ERight e = Inr (ed_Right e)"
| "editor_step (EInsert c) e = Inr (ed_Insert c e)"
| "editor_step (ECut n) e = ed_Cut n e"
| "editor_step (ECopy n) e = ed_Copy n e"
| "editor_step EPaste e = Inr (ed_Paste e)"

fun editor_pre :: "editor_op \<Rightarrow> editor \<Rightarrow> bool" where
  "editor_pre (ECut n) e = (cursor e \<noteq> 0)"
| "editor_pre (ECopy n) e = (n \<le> length (ed_text e) - cursor e)"
| "editor_pre _ e = True"

definition editor_inv :: "editor \<Rightarrow> bool" where
  "editor_inv e \<longleftrightarrow> cursor e \<le> length (ed_text e)"

text \<open>The specification: the text left of the cursor, the text right of it, and the clipboard.\<close>

type_synonym page = "string \<times> string \<times> string"

definition page_of :: "editor \<Rightarrow> page" where
  "page_of e = (take (cursor e) (ed_text e), drop (cursor e) (ed_text e), clipboard e)"

fun page_step :: "editor_op \<Rightarrow> page \<Rightarrow> page" where
  "page_step ELeft (l, r, c) = (if l = [] then (l, r, c) else (butlast l, List.last l # r, c))"
| "page_step ERight (l, r, c) = (case r of [] \<Rightarrow> (l, r, c) | x # r' \<Rightarrow> (l @ [x], r', c))"
| "page_step (EInsert x) (l, r, c) = (l @ [x], r, c)"
| "page_step (ECut n) (l, r, c) = (l, drop n r, take n r)"
| "page_step (ECopy n) (l, r, c) = (l, r, take n r)"
| "page_step EPaste (l, r, c) = (l @ c, r, c)"

lemma page_parts:
  assumes "editor_inv e"
  obtains l r where "ed_text e = l @ r" "cursor e = length l" "page_of e = (l, r, clipboard e)"
  by (rule that [of "take (cursor e) (ed_text e)" "drop (cursor e) (ed_text e)"])
    (use assms in \<open>simp_all add: page_of_def editor_inv_def\<close>)

lemmas editor_defs = ed_Left_def ed_Right_def ed_Insert_def ed_Cut_def ed_Copy_def ed_Paste_def insert_at_def
  erase_range_def substr_def editor_inv_def page_of_def

lemma editor_step_refines:
  assumes "editor_inv e" "editor_pre x e"
  shows "\<exists>e'. editor_step x e = Inr e' \<and> editor_inv e' \<and> page_of e' = page_step x (page_of e)"
proof -
  obtain l r where e: "ed_text e = l @ r" "cursor e = length l" "page_of e = (l, r, clipboard e)"
    using page_parts [OF assms(1)] .
  show ?thesis
  proof (cases x)
    case ELeft
    then show ?thesis
    proof (cases "l = []")
      case False
      then obtain l' y where "l = l' @ [y]" by (metis rev_exhaust)
      then show ?thesis using e ELeft by (simp add: editor_defs)
    qed (use e assms(1) ELeft in \<open>simp add: editor_defs\<close>)
  next
    case ERight
    then show ?thesis using e by (cases r) (simp_all add: editor_defs)
  next
    case (EInsert c)
    then show ?thesis using e by (simp add: editor_defs)
  next
    case (ECut n)
    then have "l \<noteq> []" using assms(2) e by auto
    then have "length l \<noteq> 0" by simp
    then show ?thesis using e ECut by (cases "n \<le> length r") (auto simp: editor_defs Let_def)
  next
    case (ECopy n)
    then show ?thesis using e assms(2) by (simp add: editor_defs Let_def)
  next
    case EPaste
    then show ?thesis using e by (simp add: editor_defs)
  qed
qed

interpretation editor: refined_machine editor_step editor_pre editor_inv page_of page_step
proof
  fix e e' x
  assume pre: "editor_inv e" "editor_pre x e"
  then show "\<exists>e'. editor_step x e = Inr e' \<and> editor_inv e'" using editor_step_refines by blast
  show "page_of e' = page_step x (page_of e)" if "editor_step x e = Inr e'"
    using editor_step_refines [OF pre] that by auto
qed

text \<open>
  C37. A session with the editor that never cuts with the cursor at the beginning, nor copies more
  than is right of it, behaves as editing the pair of texts left and right of the cursor; cutting
  at the beginning, as the second test of the program does, is undefined behaviour.
\<close>

theorem editor_refines:
  assumes "admissible editor_pre editor_step xs Editor"
  shows "\<exists>e. run_ops editor_step xs Editor = Inr e
    \<and> (case fold page_step xs ([], [], []) of (l, r, c) \<Rightarrow> GetText e = l @ r \<and> clipboard e = c)
    \<and> (cursor e = 0 \<longrightarrow> editor_step (ECut n) e = Inl (Undefined ''decrement of begin''))"
proof -
  have "editor_inv Editor" "page_of Editor = ([], [], [])"
    by (simp_all add: Editor_def editor_inv_def page_of_def)
  then obtain e where e: "run_ops editor_step xs Editor = Inr e" "page_of e = fold page_step xs ([], [], [])"
    using editor.run_refines [OF _ assms] by auto
  have "ed_text e = fst (page_of e) @ fst (snd (page_of e))" "clipboard e = snd (snd (page_of e))"
    by (simp_all add: page_of_def)
  then show ?thesis using e by (auto simp: GetText_def ed_Cut_def Let_def split: prod.splits)
qed

theorem editor_refines_witness:
  "\<exists>e. run_ops editor_step [EInsert CHR ''a'', EInsert CHR ''b'', EInsert CHR ''c'', EInsert CHR ''d'',
        ELeft, ELeft, ELeft, ECut 2, EInsert CHR ''w''] Editor = Inr e
    \<and> GetText e = ''awd'' \<and> clipboard e = ''bc''"
proof -
  have "admissible editor_pre editor_step [EInsert CHR ''a'', EInsert CHR ''b'', EInsert CHR ''c'', EInsert CHR ''d'',
      ELeft, ELeft, ELeft, ECut 2, EInsert CHR ''w''] Editor"
    by (simp add: Editor_def ed_Insert_def ed_Left_def ed_Cut_def insert_at_def erase_range_def substr_def Let_def)
  from editor_refines [OF this, of 0] obtain e where e: "run_ops editor_step [EInsert CHR ''a'', EInsert CHR ''b'',
      EInsert CHR ''c'', EInsert CHR ''d'', ELeft, ELeft, ELeft, ECut 2, EInsert CHR ''w''] Editor = Inr e"
    "GetText e = ''awd''" "clipboard e = ''bc''" by auto
  show ?thesis by (rule exI [of _ e], intro conjI e)
qed

section \<open>Stack\<close>

text \<open>Growth by 100 elements; the recursive call of \<^verbatim>\<open>push_back\<close> finds room and ends.\<close>

record 'a stack_vector =
  sv_data :: "'a option list"
  sv_size :: nat

definition new_vector :: "'a stack_vector" where
  "new_vector = \<lparr>sv_data = [], sv_size = 0\<rparr>"

definition grow :: "'a stack_vector \<Rightarrow> 'a stack_vector" where
  "grow v =
     (let copied = take (sv_size v) (sv_data v)
      in v\<lparr>sv_data := copied @ replicate (length (sv_data v) + 100 - length copied) None\<rparr>)"

lemma grow_fields [simp]:
  "sv_size (grow v) = sv_size v" "length (sv_data (grow v)) = length (sv_data v) + 100"
  by (simp_all add: grow_def Let_def)

definition store_item :: "'a \<Rightarrow> 'a stack_vector \<Rightarrow> 'a stack_vector" where
  "store_item x v = v\<lparr>sv_data := (sv_data v)[sv_size v := Some x], sv_size := sv_size v + 1\<rparr>"

function push_back :: "'a \<Rightarrow> 'a stack_vector \<Rightarrow> 'a stack_vector" where
  "push_back x v =
     (if sv_size v < length (sv_data v) then store_item x v else push_back x (grow v))"
  by pat_completeness auto
termination
  by (relation "measure (\<lambda>(x, v). if sv_size v < length (sv_data v) then 0 else Suc (sv_size v - length (sv_data v)))")
    auto

declare push_back.simps [simp del]

definition pop_back :: "'a stack_vector \<Rightarrow> 'a stack_vector" where
  "pop_back v = (if sv_size v > 0 then v\<lparr>sv_size := sv_size v - 1\<rparr> else v)"

definition get_item :: "int \<Rightarrow> 'a stack_vector \<Rightarrow> fault + 'a" where
  "get_item idx v =
     (if 0 \<le> idx \<and> nat idx < length (sv_data v) then
        case sv_data v ! nat idx of Some x \<Rightarrow> Inr x | None \<Rightarrow> Inl (Undefined ''read of an indeterminate value'')
      else Inl (Undefined ''index out of range''))"

definition stack_top :: "'a stack_vector \<Rightarrow> fault + 'a" where
  "stack_top v = get_item (int (sv_size v) - 1) v"

definition stack_empty :: "'a stack_vector \<Rightarrow> bool" where
  "stack_empty v \<longleftrightarrow> sv_size v = 0"

definition items :: "'a stack_vector \<Rightarrow> 'a option list" where
  "items v = take (sv_size v) (sv_data v)"

definition vector_ok :: "'a stack_vector \<Rightarrow> bool" where
  "vector_ok v \<longleftrightarrow> sv_size v \<le> length (sv_data v) \<and> None \<notin> set (items v)"

lemma push_back_items:
  assumes "vector_ok v"
  shows "vector_ok (push_back x v) \<and> items (push_back x v) = items v @ [Some x]"
proof -
  have store: "vector_ok (store_item x w) \<and> items (store_item x w) = items w @ [Some x]"
    if "sv_size w < length (sv_data w)" "None \<notin> set (items w)" for w
    using that by (auto simp: vector_ok_def items_def store_item_def take_Suc_conv_app_nth)
  show ?thesis
  proof (cases "sv_size v < length (sv_data v)")
    case True
    with store [of v] assms show ?thesis by (simp add: push_back.simps vector_ok_def)
  next
    case False
    have "items (grow v) = items v" "sv_size (grow v) < length (sv_data (grow v))"
      using assms False by (auto simp: items_def grow_def vector_ok_def Let_def)
    then show ?thesis
      using store [of "grow v"] assms False by (simp add: push_back.simps [of x v] push_back.simps [of x "grow v"] vector_ok_def)
  qed
qed

text \<open>The stack laws: pushing and popping, and the last item pushed on top.\<close>

lemma stack_laws:
  assumes "vector_ok v"
  shows "stack_top (push_back x v) = Inr x" "items (pop_back (push_back x v)) = items v"
    "vector_ok (pop_back v)" "\<not> stack_empty (push_back x v)"
    "stack_empty v \<Longrightarrow> stack_top v = Inl (Undefined ''index out of range'')"
proof -
  note push = push_back_items [OF assms, of x]
  have len: "sv_size (push_back x v) = Suc (sv_size v)"
  proof -
    have "length (items (push_back x v)) = Suc (length (items v))" using push by simp
    then show ?thesis using push assms by (simp add: items_def vector_ok_def)
  qed
  have nth: "sv_data (push_back x v) ! sv_size v = Some x"
  proof -
    have "items (push_back x v) ! sv_size v = Some x"
      using push assms by (simp add: items_def vector_ok_def nth_append)
    then show ?thesis using len by (simp add: items_def)
  qed
  show "stack_top (push_back x v) = Inr x"
    using push len nth by (simp add: stack_top_def get_item_def vector_ok_def)
  show "items (pop_back (push_back x v)) = items v"
  proof -
    have "items (pop_back (push_back x v)) = take (sv_size v) (items (push_back x v))"
      by (simp add: pop_back_def items_def len)
    also have "\<dots> = items v" using push assms by (simp add: items_def vector_ok_def)
    finally show ?thesis .
  qed
  show "vector_ok (pop_back v)"
  proof -
    have "set (take (sv_size v - 1) (sv_data v)) \<subseteq> set (take (sv_size v) (sv_data v))"
      by (rule set_take_subset_set_take) simp
    with assms show ?thesis by (auto simp: pop_back_def vector_ok_def items_def)
  qed
  show "\<not> stack_empty (push_back x v)" using len by (simp add: stack_empty_def)
  show "stack_empty v \<Longrightarrow> stack_top v = Inl (Undefined ''index out of range'')"
    by (simp add: stack_empty_def stack_top_def get_item_def)
qed

end
