(* ===== verification/Timtim_Buses.thy ===== *)
theory Timtim_Buses
  imports Timtim_Loops "HOL-Library.List_Lexorder" "HOL-Library.Char_ord"
begin

text \<open>
  \<^verbatim>\<open>src/timtim/test_buses.cpp\<close>: buses, their stops, and the queries about them. A
  \<^verbatim>\<open>std::map<string, vector<string>>\<close> is the list of its entries in the order of the keys. The
  queries are those \<^verbatim>\<open>operator>>\<close> has read; Timtim_BusInput models the reading.
\<close>

section \<open>The map\<close>

type_synonym string_map = "(string \<times> string list) list"

text \<open>\<^verbatim>\<open>m[k].push_back(v)\<close>\<close>

fun map_push :: "string \<Rightarrow> string \<Rightarrow> string_map \<Rightarrow> string_map" where
  "map_push k v [] = [(k, [v])]"
| "map_push k v ((k', vs) # m) =
     (if k = k' then (k', vs @ [v]) # m
      else if k < k' then (k, [v]) # (k', vs) # m
      else (k', vs) # map_push k v m)"

definition at_key :: "string_map \<Rightarrow> string \<Rightarrow> string list" where
  "at_key m k = (case map_of m k of None \<Rightarrow> [] | Some vs \<Rightarrow> vs)"

definition in_order :: "string_map \<Rightarrow> bool" where
  "in_order m \<longleftrightarrow> sorted_wrt (<) (map fst m)"

lemma keys_push: "fst ` set (map_push k v m) = insert k (fst ` set m)"
  by (induction k v m rule: map_push.induct) auto

lemma in_order_push: "in_order m \<Longrightarrow> in_order (map_push k v m)"
proof (induction k v m rule: map_push.induct)
  case (2 k v k' vs m)
  then have m: "in_order m" "\<forall>x \<in> fst ` set m. k' < x" by (auto simp: in_order_def)
  consider "k = k'" | "k < k'" | "k' < k" "k \<noteq> k'" "\<not> k < k'" by (metis less_linear less_asym)
  then show ?case
  proof cases
    case 3
    with 2 m have "in_order (map_push k v m)" by simp
    moreover have "\<forall>x \<in> fst ` set (map_push k v m). k' < x" using keys_push [of k v m] m(2) 3(1) by auto
    ultimately show ?thesis using 3 by (simp add: in_order_def)
  qed (use m in \<open>auto simp: in_order_def\<close>)
qed (simp add: in_order_def)

lemma at_key_push:
  "in_order m \<Longrightarrow> at_key (map_push k v m) j = (if j = k then at_key m k @ [v] else at_key m j)"
proof (induction k v m rule: map_push.induct)
  case (2 k v k' vs m)
  then have m: "in_order m" "\<forall>x \<in> fst ` set m. k' < x" by (auto simp: in_order_def)
  show ?case
  proof (cases "k < k'")
    case True
    then have "k \<notin> fst ` set m" using m(2) less_asym by blast
    then have "map_of m k = None" by (simp add: map_of_eq_None_iff)
    with True show ?thesis by (auto simp: at_key_def)
  next
    case False
    with 2 m show ?thesis by (auto simp: at_key_def)
  qed
qed (simp add: at_key_def)

section \<open>BusManager\<close>

record bus_manager =
  buses_for_stop :: string_map
  stops_for_bus :: string_map

definition BusManager :: bus_manager where
  "BusManager = \<lparr>buses_for_stop = [], stops_for_bus = []\<rparr>"

definition add_stop :: "string \<Rightarrow> string \<Rightarrow> bus_manager \<Rightarrow> bus_manager" where
  "add_stop bus stop bm =
     bm\<lparr>buses_for_stop := map_push stop bus (buses_for_stop bm),
        stops_for_bus := map_push bus stop (stops_for_bus bm)\<rparr>"

text \<open>\<^verbatim>\<open>AddBus\<close> also prints its stops and the whole table of buses.\<close>

definition AddBus :: "string \<Rightarrow> string list \<Rightarrow> bus_manager \<Rightarrow> bus_manager \<times> string" where
  "AddBus bus stops bm =
     (let out = ''stops: '' @ concat (map (\<lambda>s. s @ ''  '') stops) @ newline;
          bm = fold (add_stop bus) stops bm
      in (bm, out @ concat (map (\<lambda>(stop, buses). stop @ newline
            @ concat (map (\<lambda>b. ''  '' @ b @ newline) buses)) (buses_for_stop bm))))"

definition GetBusesForStop :: "bus_manager \<Rightarrow> string \<Rightarrow> string list" where
  "GetBusesForStop bm stop =
     (if map_of (buses_for_stop bm) stop = None then []
      else fold (\<lambda>bus r. r @ [bus]) (at_key (buses_for_stop bm) stop) [])"

definition GetStopsForBus :: "bus_manager \<Rightarrow> string \<Rightarrow> string list" where
  "GetStopsForBus bm bus =
     (if map_of (stops_for_bus bm) bus = None then [] else at_key (stops_for_bus bm) bus)"

definition GetAllBuses :: "bus_manager \<Rightarrow> string_map" where
  "GetAllBuses bm = stops_for_bus bm"

section \<open>Answers\<close>

text \<open>The words separated by blanks, as both loops with \<^verbatim>\<open>is_first\<close> print them.\<close>

definition join_words :: "string list \<Rightarrow> string" where
  "join_words ws = snd (fold (\<lambda>w (is_first, out). (False, out @ (if \<not> is_first then '' '' else []) @ w)) ws (True, []))"

definition print_buses_for_stop :: "string list \<Rightarrow> string" where
  "print_buses_for_stop r = (if length r = 0 then ''No buses'' else join_words r @ newline)"

definition print_stops_for_bus :: "string list \<Rightarrow> string" where
  "print_stops_for_bus r = (if length r = 0 then ''No stops'' @ newline else join_words r @ newline)"

definition print_all_buses :: "string_map \<Rightarrow> string" where
  "print_all_buses r =
     (if r = [] then ''No buses'' @ newline
      else concat (map (\<lambda>(bus, stops). ''Bus '' @ bus @ '':'' @ concat (map (\<lambda>s. '' '' @ s) stops) @ newline) r))"

datatype query =
    NewBus string "string list"
  | BusesForStop string
  | StopsForBus string
  | AllBuses

fun run_query :: "query \<Rightarrow> bus_manager \<Rightarrow> bus_manager \<times> string" where
  "run_query (NewBus bus stops) bm = AddBus bus stops bm"
| "run_query (BusesForStop stop) bm = (bm, print_buses_for_stop (GetBusesForStop bm stop) @ newline)"
| "run_query (StopsForBus bus) bm = (bm, print_stops_for_bus (GetStopsForBus bm bus) @ newline)"
| "run_query AllBuses bm = (bm, print_all_buses (GetAllBuses bm) @ newline)"

fun buses_main :: "query list \<Rightarrow> bus_manager \<Rightarrow> bus_manager \<times> string" where
  "buses_main [] bm = (bm, [])"
| "buses_main (q # qs) bm =
     (let (bm, out) = run_query q bm; (bm, rest) = buses_main qs bm in (bm, out @ rest))"

section \<open>What the manager answers\<close>

fun stops_of :: "string \<Rightarrow> query list \<Rightarrow> string list" where
  "stops_of bus [] = []"
| "stops_of bus (NewBus b stops # qs) = (if b = bus then stops else []) @ stops_of bus qs"
| "stops_of bus (_ # qs) = stops_of bus qs"

fun buses_of :: "string \<Rightarrow> query list \<Rightarrow> string list" where
  "buses_of stop [] = []"
| "buses_of stop (NewBus b stops # qs) = replicate (count_list stops stop) b @ buses_of stop qs"
| "buses_of stop (_ # qs) = buses_of stop qs"

definition manager_ok :: "bus_manager \<Rightarrow> bool" where
  "manager_ok bm \<longleftrightarrow> in_order (buses_for_stop bm) \<and> in_order (stops_for_bus bm)"

lemma Get_at_key:
  "GetBusesForStop bm stop = at_key (buses_for_stop bm) stop" "GetStopsForBus bm bus = at_key (stops_for_bus bm) bus"
proof -
  have "fold (\<lambda>x r. r @ [x]) xs ys = ys @ xs" for xs ys :: "string list"
    by (induction xs arbitrary: ys) simp_all
  then show "GetBusesForStop bm stop = at_key (buses_for_stop bm) stop"
    by (auto simp: GetBusesForStop_def at_key_def)
qed (auto simp: GetStopsForBus_def at_key_def)

lemma add_stops_facts:
  "manager_ok bm \<Longrightarrow> manager_ok (fold (add_stop bus) stops bm)
     \<and> at_key (stops_for_bus (fold (add_stop bus) stops bm)) b
         = at_key (stops_for_bus bm) b @ (if b = bus then stops else [])
     \<and> at_key (buses_for_stop (fold (add_stop bus) stops bm)) s
         = at_key (buses_for_stop bm) s @ replicate (count_list stops s) bus"
proof (induction stops arbitrary: bm)
  case Nil
  then show ?case by simp
next
  case (Cons stop stops)
  then have "manager_ok (add_stop bus stop bm)" by (simp add: manager_ok_def add_stop_def in_order_push)
  from Cons.IH [OF this] Cons.prems show ?case
    by (auto simp: add_stop_def manager_ok_def at_key_push replicate_append_same)
qed

lemma buses_main_state:
  "manager_ok bm \<Longrightarrow> manager_ok (fst (buses_main qs bm))
     \<and> at_key (stops_for_bus (fst (buses_main qs bm))) b = at_key (stops_for_bus bm) b @ stops_of b qs
     \<and> at_key (buses_for_stop (fst (buses_main qs bm))) s = at_key (buses_for_stop bm) s @ buses_of s qs"
proof (induction qs arbitrary: bm)
  case Nil
  then show ?case by simp
next
  case (Cons q qs)
  have split: "fst (buses_main (q # qs) bm) = fst (buses_main qs (fst (run_query q bm)))"
    by (simp add: split_beta Let_def)
  show ?case
  proof (cases q)
    case (NewBus bus stops)
    have "fst (run_query q bm) = fold (add_stop bus) stops bm" by (simp add: NewBus AddBus_def Let_def)
    then show ?thesis
      unfolding split using Cons add_stops_facts [OF Cons.prems, of bus stops] NewBus by simp
  qed (use Cons split in simp_all)
qed

lemma count_buses_stops: "count_list (buses_of s qs) b = count_list (stops_of b qs) s"
proof (induction qs)
  case (Cons q qs)
  have "count_list (replicate n x) b = (if x = b then n else 0)" for n x
    by (induction n) auto
  with Cons show ?case by (cases q) auto
qed simp

text \<open>
  After any queries, the stops of a bus are those of its \<^verbatim>\<open>NEW_BUS\<close> queries in order, the buses of
  a stop are the buses that named it, once for each time and in order, and the two answers agree:
  a bus is listed for a stop as often as the stop for the bus. Both tables stay in key order.
\<close>

theorem buses_answers:
  "case buses_main qs BusManager of (bm, out) \<Rightarrow>
     GetStopsForBus bm b = stops_of b qs \<and> GetBusesForStop bm s = buses_of s qs
     \<and> count_list (GetBusesForStop bm s) b = count_list (GetStopsForBus bm b) s
     \<and> in_order (GetAllBuses bm)"
proof -
  have "manager_ok BusManager" "at_key (stops_for_bus BusManager) b = []" "at_key (buses_for_stop BusManager) s = []"
    by (simp_all add: manager_ok_def BusManager_def in_order_def at_key_def)
  with buses_main_state [OF this(1), of qs b s] show ?thesis
    by (auto simp: Get_at_key GetAllBuses_def manager_ok_def count_buses_stops split: prod.splits)
qed

theorem buses_answers_witness:
  "fst (run_query (BusesForStop ''v'') (fst (buses_main [NewBus ''1'' [''v'', ''w''], NewBus ''2'' [''v'']] BusManager)))
     = fst (buses_main [NewBus ''1'' [''v'', ''w''], NewBus ''2'' [''v'']] BusManager)
   \<and> GetBusesForStop (fst (buses_main [NewBus ''1'' [''v'', ''w''], NewBus ''2'' [''v'']] BusManager)) ''v'' = [''1'', ''2'']"
  using buses_answers [where qs = "[NewBus ''1'' [''v'', ''w''], NewBus ''2'' [''v'']]" and s = "''v''"]
  by (simp add: split_beta)

end
