(* ===== verification/Timtim_BusInput.thy ===== *)
theory Timtim_BusInput
  imports Timtim_Buses Iostream
begin

text \<open>
  \<^verbatim>\<open>src/timtim/test_buses.cpp\<close>: \<^verbatim>\<open>operator>>\<close> for queries and the program around them, from its
  standard input to its standard output. \<open>None\<close> stands for a variable that is still
  uninitialised: \<^verbatim>\<open>Query::type\<close> and the two counts are read only when an extraction has set them.
\<close>

section \<open>Reading a query\<close>

record query_vars =
  q_type :: "query option"
  q_bus :: string
  q_stop :: string
  q_stops :: "string list"

definition new_query :: query_vars where
  "new_query = \<lparr>q_type = None, q_bus = [], q_stop = [], q_stops = []\<rparr>"

definition into :: "string \<Rightarrow> string option \<Rightarrow> string" where
  "into old got = (case got of None \<Rightarrow> old | Some w \<Rightarrow> w)"

text \<open>The loop pushes \<^verbatim>\<open>q.stop\<close> also when nothing could be read into it.\<close>

fun read_stops :: "nat \<Rightarrow> query_vars \<Rightarrow> istream \<Rightarrow> query_vars \<times> istream" where
  "read_stops 0 q st = (q, st)"
| "read_stops (Suc n) q st =
     (let (w, st) = read_word st;
          q = q\<lparr>q_stop := into (q_stop q) w\<rparr>
      in read_stops n (q\<lparr>q_stops := q_stops q @ [q_stop q]\<rparr>) st)"

definition read_query :: "query_vars \<Rightarrow> istream \<Rightarrow> fault + query_vars \<times> istream" where
  "read_query q st =
     (let (w, st) = read_word st; operation_code = into [] w in
      if operation_code = ''NEW_BUS'' then
        let (w, st) = read_word st;
            q = q\<lparr>q_bus := into (q_bus q) w\<rparr>;
            (stop_count, st) = read_int st
        in case stop_count of
             None \<Rightarrow> Inl (Undefined ''uninitialised stop_count'')
           | Some n \<Rightarrow>
               let (q, st) = read_stops (nat n) (q\<lparr>q_stops := []\<rparr>) st
               in Inr (q\<lparr>q_type := Some (NewBus (q_bus q) (q_stops q))\<rparr>, st)
      else if operation_code = ''BUSES_FOR_STOP'' then
        let (w, st) = read_word st; q = q\<lparr>q_stop := into (q_stop q) w\<rparr>
        in Inr (q\<lparr>q_type := Some (BusesForStop (q_stop q))\<rparr>, st)
      else if operation_code = ''STOPS_FOR_BUS'' then
        let (w, st) = read_word st; q = q\<lparr>q_bus := into (q_bus q) w\<rparr>
        in Inr (q\<lparr>q_type := Some (StopsForBus (q_bus q))\<rparr>, st)
      else if operation_code = ''ALL_BUSES'' then Inr (q\<lparr>q_type := Some AllBuses\<rparr>, st)
      else Inr (q, st))"

section \<open>The program\<close>

fun buses_loop :: "nat \<Rightarrow> bus_manager \<Rightarrow> istream \<Rightarrow> fault + string" where
  "buses_loop 0 bm st = Inr []"
| "buses_loop (Suc n) bm st =
     bind_res (read_query new_query st)
       (\<lambda>(q, st).
          case q_type q of
            None \<Rightarrow> Inl (Undefined ''uninitialised query type'')
          | Some query \<Rightarrow>
              let (bm, out) = run_query query bm
              in bind_res (buses_loop n bm st) (\<lambda>rest. Inr (out @ rest)))"

definition buses_program :: "string \<Rightarrow> fault + string" where
  "buses_program input =
     (let (query_count, st) = read_int (open_stream input) in
      case query_count of
        None \<Rightarrow> Inl (Undefined ''uninitialised query_count'')
      | Some n \<Rightarrow> buses_loop (nat n) BusManager st)"

section \<open>Round trip\<close>

fun print_query :: "query \<Rightarrow> string" where
  "print_query (NewBus bus stops) =
     ''NEW_BUS '' @ bus @ '' '' @ show_nat (length stops) @ concat (map (\<lambda>s. CHR '' '' # s) stops) @ newline"
| "print_query (BusesForStop stop) = ''BUSES_FOR_STOP '' @ stop @ newline"
| "print_query (StopsForBus bus) = ''STOPS_FOR_BUS '' @ bus @ newline"
| "print_query AllBuses = ''ALL_BUSES'' @ newline"

fun readable :: "query \<Rightarrow> bool" where
  "readable (NewBus bus stops) \<longleftrightarrow> word bus \<and> (\<forall>s \<in> set stops. word s) \<and> length stops < 2 ^ 31"
| "readable (BusesForStop stop) \<longleftrightarrow> word stop"
| "readable (StopsForBus bus) \<longleftrightarrow> word bus"
| "readable AllBuses \<longleftrightarrow> True"

lemma spaces: "c_isspace CHR '' ''" "c_isspace CHR 0x0A" "\<not> c_isdigit CHR '' ''" "\<not> c_isdigit CHR 0x0A"
  by (simp_all add: c_isspace_def c_isdigit_def)

lemma read_word_skip:
  "c_isspace c \<Longrightarrow> read_word \<lparr>rest = c # r, fail_bit = False\<rparr> = read_word \<lparr>rest = r, fail_bit = False\<rparr>"
  by (simp add: read_word_def extraction_skip)

lemma read_int_skip:
  "c_isspace c \<Longrightarrow> read_int \<lparr>rest = c # r, fail_bit = False\<rparr> = read_int \<lparr>rest = r, fail_bit = False\<rparr>"
  by (simp add: read_int_def extraction_skip)

lemma read_code:
  assumes "word w"
  shows "read_word \<lparr>rest = w @ CHR '' '' # r, fail_bit = False\<rparr> = (Some w, \<lparr>rest = CHR '' '' # r, fail_bit = False\<rparr>)"
    "read_word \<lparr>rest = w @ CHR 0x0A # r, fail_bit = False\<rparr> = (Some w, \<lparr>rest = CHR 0x0A # r, fail_bit = False\<rparr>)"
    "read_word \<lparr>rest = CHR '' '' # w @ CHR '' '' # r, fail_bit = False\<rparr> = (Some w, \<lparr>rest = CHR '' '' # r, fail_bit = False\<rparr>)"
    "read_word \<lparr>rest = CHR '' '' # w @ CHR 0x0A # r, fail_bit = False\<rparr> = (Some w, \<lparr>rest = CHR 0x0A # r, fail_bit = False\<rparr>)"
    "read_word \<lparr>rest = CHR 0x0A # w @ CHR 0x0A # r, fail_bit = False\<rparr> = (Some w, \<lparr>rest = CHR 0x0A # r, fail_bit = False\<rparr>)"
    "read_word \<lparr>rest = CHR 0x0A # w @ CHR '' '' # r, fail_bit = False\<rparr> = (Some w, \<lparr>rest = CHR '' '' # r, fail_bit = False\<rparr>)"
  using assms by (simp_all add: read_word_skip spaces read_word_append)

lemma code_words: "word ''NEW_BUS''" "word ''BUSES_FOR_STOP''" "word ''STOPS_FOR_BUS''" "word ''ALL_BUSES''"
  by (simp_all add: word_def c_isspace_def)

lemma read_stops_words:
  "\<forall>s \<in> set stops. word s \<Longrightarrow>
   read_stops (length stops) q \<lparr>rest = concat (map (\<lambda>s. CHR '' '' # s) stops) @ CHR 0x0A # r, fail_bit = False\<rparr>
     = (q\<lparr>q_stop := (if stops = [] then q_stop q else last stops), q_stops := q_stops q @ stops\<rparr>,
        \<lparr>rest = CHR 0x0A # r, fail_bit = False\<rparr>)"
proof (induction stops arbitrary: q)
  case Nil
  then show ?case by simp
next
  case (Cons s stops)
  have "read_word \<lparr>rest = CHR '' '' # s @ concat (map (\<lambda>s. CHR '' '' # s) stops) @ CHR 0x0A # r, fail_bit = False\<rparr>
      = (Some s, \<lparr>rest = concat (map (\<lambda>s. CHR '' '' # s) stops) @ CHR 0x0A # r, fail_bit = False\<rparr>)"
    using Cons.prems by (cases stops) (simp_all add: read_code)
  with Cons show ?case by (simp add: into_def)
qed


lemma read_query_print:
  assumes "readable q"
  shows "\<exists>q'. read_query new_query \<lparr>rest = CHR 0x0A # print_query q @ r, fail_bit = False\<rparr>
      = Inr (q', \<lparr>rest = CHR 0x0A # r, fail_bit = False\<rparr>) \<and> q_type q' = Some q"
proof (cases q)
  case (NewBus bus stops)
  let ?tail = "concat (map (\<lambda>s. CHR '' '' # s) stops) @ CHR 0x0A # r"
  have eq: "CHR 0x0A # print_query q @ r
      = CHR 0x0A # ''NEW_BUS'' @ CHR '' '' # bus @ CHR '' '' # show_nat (length stops) @ ?tail"
    by (simp add: NewBus newline_def)
  have "\<exists>c t. ?tail = c # t \<and> \<not> c_isdigit c" by (cases stops) (auto simp: spaces)
  then obtain c t where tail: "?tail = c # t" "\<not> c_isdigit c" by blast
  from assms NewBus have w: "word bus" "\<forall>s \<in> set stops. word s" "length stops < 2 ^ 31" by simp_all
  have count: "read_int \<lparr>rest = CHR '' '' # show_nat (length stops) @ ?tail, fail_bit = False\<rparr>
      = (Some (int (length stops)), \<lparr>rest = ?tail, fail_bit = False\<rparr>)"
    unfolding tail(1) using read_int_append [OF w(3) tail(2)] by (simp only: read_int_skip spaces)
  show ?thesis
    unfolding read_query_def eq read_code(6) [OF code_words(1)]
    using count read_stops_words [OF w(2)] w(1)
    by (simp add: read_code into_def NewBus new_query_def)
next
  case (BusesForStop stop)
  have eq: "CHR 0x0A # print_query q @ r = CHR 0x0A # ''BUSES_FOR_STOP'' @ CHR '' '' # stop @ CHR 0x0A # r"
    by (simp add: BusesForStop newline_def)
  from assms BusesForStop show ?thesis
    unfolding read_query_def eq read_code(6) [OF code_words(2)] by (simp add: read_code into_def)
next
  case (StopsForBus bus)
  have eq: "CHR 0x0A # print_query q @ r = CHR 0x0A # ''STOPS_FOR_BUS'' @ CHR '' '' # bus @ CHR 0x0A # r"
    by (simp add: StopsForBus newline_def)
  from assms StopsForBus show ?thesis
    unfolding read_query_def eq read_code(6) [OF code_words(3)] by (simp add: read_code into_def)
next
  case AllBuses
  have eq: "CHR 0x0A # print_query q @ r = CHR 0x0A # ''ALL_BUSES'' @ CHR 0x0A # r"
    by (simp add: AllBuses newline_def)
  from AllBuses show ?thesis
    unfolding read_query_def eq read_code(5) [OF code_words(4)] by (simp add: into_def)
qed

lemma buses_loop_print:
  "\<forall>q \<in> set qs. readable q \<Longrightarrow>
   buses_loop (length qs) bm \<lparr>rest = CHR 0x0A # concat (map print_query qs) @ r, fail_bit = False\<rparr>
     = Inr (snd (buses_main qs bm))"
proof (induction qs arbitrary: bm)
  case Nil
  then show ?case by simp
next
  case (Cons q qs)
  from read_query_print [of q "concat (map print_query qs) @ r"] Cons.prems obtain q' where
    "read_query new_query \<lparr>rest = CHR 0x0A # print_query q @ concat (map print_query qs) @ r, fail_bit = False\<rparr>
      = Inr (q', \<lparr>rest = CHR 0x0A # concat (map print_query qs) @ r, fail_bit = False\<rparr>)" "q_type q' = Some q"
    by auto
  with Cons show ?case by (simp add: split_beta Let_def)
qed

section \<open>The properties of the program\<close>

text \<open>
  C32. Printing queries (names without white space, counts in range of \<^verbatim>\<open>int\<close>) and giving the text to
  the program yields exactly the output of those queries run one after the other.
\<close>
theorem buses_program_roundtrip:
  assumes "\<forall>q \<in> set qs. readable q" "length qs < 2 ^ 31"
  shows "buses_program (show_nat (length qs) @ newline @ concat (map print_query qs) @ r)
    = Inr (snd (buses_main qs BusManager))"
proof -
  have "read_int (open_stream (show_nat (length qs) @ CHR 0x0A # concat (map print_query qs) @ r))
      = (Some (int (length qs)), \<lparr>rest = CHR 0x0A # concat (map print_query qs) @ r, fail_bit = False\<rparr>)"
    using read_int_append [OF assms(2) spaces(4)] by (simp add: open_stream_def)
  with buses_loop_print [OF assms(1)] show ?thesis
    by (simp add: buses_program_def newline_def)
qed

text \<open>
  When the input ends before the announced number of queries has been read, the next query leaves its
  type uninitialised and the program reads it.
\<close>
theorem buses_program_short:
  assumes "\<forall>q \<in> set qs. readable q" "n < 2 ^ 31" "length qs < n"
  shows "buses_program (show_nat n @ newline @ concat (map print_query qs))
    = Inl (Undefined ''uninitialised query type'')"
proof -
  have short: "buses_loop n bm \<lparr>rest = CHR 0x0A # concat (map print_query qs), fail_bit = False\<rparr>
      = Inl (Undefined ''uninitialised query type'')" if "length qs < n" for bm n
    using assms(1) that
  proof (induction qs arbitrary: n bm)
    case Nil
    then obtain m where "n = Suc m" by (cases n) auto
    then show ?case
      by (simp add: read_query_def read_word_skip spaces) (simp add: read_word_def extraction_def into_def new_query_def)
  next
    case (Cons q qs)
    then obtain m where m: "n = Suc m" "length qs < m" by (cases n) auto
    from read_query_print [of q "concat (map print_query qs)"] Cons.prems obtain q' where
      "read_query new_query \<lparr>rest = CHR 0x0A # print_query q @ concat (map print_query qs), fail_bit = False\<rparr>
        = Inr (q', \<lparr>rest = CHR 0x0A # concat (map print_query qs), fail_bit = False\<rparr>)" "q_type q' = Some q"
      by auto
    with Cons m show ?case by (simp add: split_beta)
  qed
  have "read_int (open_stream (show_nat n @ CHR 0x0A # concat (map print_query qs)))
      = (Some (int n), \<lparr>rest = CHR 0x0A # concat (map print_query qs), fail_bit = False\<rparr>)"
    using read_int_append [OF assms(2) spaces(4)] by (simp add: open_stream_def)
  with short [OF assms(3)] show ?thesis by (simp add: buses_program_def newline_def)
qed

lemma buses_program_roundtrip_witness:
  "buses_program (''3'' @ newline @ ''NEW_BUS 32 2 A B'' @ newline @ ''NEW_BUS x 1 B'' @ newline @ ''BUSES_FOR_STOP B'' @ newline)
    = Inr (snd (buses_main [NewBus ''32'' [''A'', ''B''], NewBus ''x'' [''B''], BusesForStop ''B''] BusManager))"
proof -
  let ?qs = "[NewBus ''32'' [''A'', ''B''], NewBus ''x'' [''B''], BusesForStop ''B'']"
  have "\<forall>q \<in> set ?qs. readable q" "length ?qs < 2 ^ 31" by (simp_all add: word_def c_isspace_def)
  from buses_program_roundtrip [OF this, of "[]"]
  show ?thesis
  proof (rule back_subst [where P = "\<lambda>t. buses_program t = _"])
    show "show_nat (length ?qs) @ newline @ concat (map print_query ?qs) @ []
      = ''3'' @ newline @ ''NEW_BUS 32 2 A B'' @ newline @ ''NEW_BUS x 1 B'' @ newline @ ''BUSES_FOR_STOP B'' @ newline"
      by code_simp
  qed
qed

lemma buses_program_short_witness:
  "buses_program (show_nat 2 @ newline @ ''ALL_BUSES'' @ newline) = Inl (Undefined ''uninitialised query type'')"
  using buses_program_short [of "[AllBuses]" 2] by (simp add: newline_def)

end
