(* ===== verification/Timtim_Dump.thy ===== *)
theory Timtim_Dump
  imports Complex_Main Prelude
begin

text \<open>
  \<^verbatim>\<open>src/timtim/test_dump_peleng.cpp\<close>: a linked list of strings, the splitting of a line into
  words, and the rows of a log that fall in a window of time. A \<^verbatim>\<open>Node*\<close> is the number of its
  allocation. A \<^verbatim>\<open>double\<close> is a real number; \<^verbatim>\<open>stod\<close> and the printing of a double are the standard
  library's and are arguments.
\<close>

section \<open>The linked list\<close>

type_synonym node = "string \<times> nat option"

record linked_list =
  nodes :: "node list"
  head :: "nat option"
  tail :: "nat option"
  size_field :: nat

definition new_list :: linked_list where
  "new_list = \<lparr>nodes = [], head = None, tail = None, size_field = 0\<rparr>"

definition list_push_back :: "string \<Rightarrow> linked_list \<Rightarrow> linked_list" where
  "list_push_back s l =
     (let l = l\<lparr>size_field := size_field l + 1\<rparr>;
          new_tail = length (nodes l);
          l = l\<lparr>nodes := nodes l @ [(s, None)]\<rparr>
      in case tail l of
           None \<Rightarrow> l\<lparr>tail := Some new_tail, head := Some new_tail\<rparr>
         | Some t \<Rightarrow> l\<lparr>nodes := (nodes l)[t := (fst (nodes l ! t), Some new_tail)], tail := Some new_tail\<rparr>)"

text \<open>The loop of \<^verbatim>\<open>operator[]\<close> and the final access; both dereference \<^verbatim>\<open>node\<close>.\<close>

fun node_at :: "node list \<Rightarrow> nat option \<Rightarrow> nat \<Rightarrow> fault + string" where
  "node_at ns None idx = Inl (Undefined ''null node'')"
| "node_at ns (Some n) 0 = Inr (fst (ns ! n))"
| "node_at ns (Some n) (Suc idx) = node_at ns (snd (ns ! n)) idx"

definition list_get :: "linked_list \<Rightarrow> nat \<Rightarrow> fault + string" where
  "list_get l idx = node_at (nodes l) (head l) idx"

definition list_size :: "linked_list \<Rightarrow> nat" where
  "list_size l = size_field l"

text \<open>A list of strings is represented by the nodes in the order of their allocation.\<close>

definition node_chain :: "string list \<Rightarrow> node list" where
  "node_chain xs = map (\<lambda>i. (xs ! i, if Suc i < length xs then Some (Suc i) else None)) [0..<length xs]"

definition represents :: "linked_list \<Rightarrow> string list \<Rightarrow> bool" where
  "represents l xs \<longleftrightarrow>
     l = \<lparr>nodes = node_chain xs, head = (if xs = [] then None else Some 0),
          tail = (if xs = [] then None else Some (length xs - 1)), size_field = length xs\<rparr>"

lemma length_node_chain [simp]: "length (node_chain xs) = length xs"
  by (simp add: node_chain_def)

lemma nth_node_chain: "i < length xs \<Longrightarrow> node_chain xs ! i = (xs ! i, if Suc i < length xs then Some (Suc i) else None)"
  by (simp add: node_chain_def)

lemma represents_new: "represents new_list []"
  by (simp add: represents_def new_list_def node_chain_def)

lemma node_chain_snoc:
  assumes "xs \<noteq> []"
  shows "node_chain (xs @ [s]) = (node_chain xs @ [(s, None)])[length xs - 1 := (last xs, Some (length xs))]"
proof (rule nth_equalityI)
  fix i
  assume "i < length (node_chain (xs @ [s]))"
  moreover have "0 < length xs" using assms by simp
  ultimately consider "i < length xs - 1" | "i = length xs - 1" "i < length xs" | "i = length xs" by fastforce
  then show "node_chain (xs @ [s]) ! i = (node_chain xs @ [(s, None)])[length xs - 1 := (last xs, Some (length xs))] ! i"
    using \<open>0 < length xs\<close>
    by cases (auto simp: nth_node_chain nth_append nth_list_update last_conv_nth [OF assms] simp del: length_greater_0_conv)
qed simp

lemma represents_push_back:
  assumes "represents l xs"
  shows "represents (list_push_back s l) (xs @ [s])"
proof (cases "xs = []")
  case True
  with assms show ?thesis by (simp add: represents_def list_push_back_def node_chain_def)
next
  case False
  then have "fst (node_chain xs ! (length xs - Suc 0)) = last xs"
    by (simp add: nth_node_chain last_conv_nth)
  with assms False show ?thesis
    by (simp add: represents_def list_push_back_def node_chain_snoc nth_append Let_def)
qed

lemma node_at_chain:
  "n < length xs \<Longrightarrow> node_at (node_chain xs) (Some n) idx
     = (if n + idx < length xs then Inr (xs ! (n + idx)) else Inl (Undefined ''null node''))"
  by (induction idx arbitrary: n) (simp_all add: nth_node_chain)

lemma list_get_represents:
  "represents l xs \<Longrightarrow> list_get l idx = (if idx < length xs then Inr (xs ! idx) else Inl (Undefined ''null node''))"
  by (simp add: list_get_def represents_def node_at_chain)

section \<open>Splitting a line\<close>

definition is_delim :: "char \<Rightarrow> bool" where
  "is_delim c \<longleftrightarrow> c = CHR '' '' \<or> c = CHR 0x09 \<or> c = CHR 0x0D \<or> c = CHR 0x0A"

function split_loop :: "string \<Rightarrow> nat \<Rightarrow> nat \<Rightarrow> bool \<Rightarrow> linked_list \<Rightarrow> linked_list" where
  "split_loop u i start found_start out =
     (if i < length u then
        if is_delim (u ! i) then
          if found_start then split_loop u (i + 1) start False (list_push_back (substr u start i) out)
          else split_loop u (i + 1) start found_start out
        else if \<not> found_start then split_loop u (i + 1) i True out
        else split_loop u (i + 1) start found_start out
      else out)"
  by pat_completeness auto
termination
  by (relation "measure (\<lambda>(u, i, _). length u - i)") auto

declare split_loop.simps [simp del]

definition SplitByDelim :: "string \<Rightarrow> linked_list" where
  "SplitByDelim u = split_loop u 0 0 False new_list"

text \<open>The words of a line, and those that a delimiter ends.\<close>

function words :: "string \<Rightarrow> string list" where
  "words u =
     (let v = dropWhile is_delim u
      in if v = [] then [] else takeWhile (\<lambda>c. \<not> is_delim c) v # words (dropWhile (\<lambda>c. \<not> is_delim c) v))"
  by pat_completeness auto
termination
proof (relation "measure length", simp)
  fix u v :: string
  assume "v = dropWhile is_delim u" "v \<noteq> []"
  then have "\<not> is_delim (hd v)" "length v \<le> length u"
    by (simp_all add: hd_dropWhile length_dropWhile_le)
  with \<open>v \<noteq> []\<close> have "length (dropWhile (\<lambda>c. \<not> is_delim c) v) < length v"
    by (cases v) (simp_all add: le_imp_less_Suc length_dropWhile_le)
  with \<open>length v \<le> length u\<close> show "(dropWhile (\<lambda>c. \<not> is_delim c) v, u) \<in> measure length" by simp
qed

declare words.simps [simp del]

fun ended_words :: "string \<Rightarrow> string \<Rightarrow> string list" where
  "ended_words w [] = []"
| "ended_words w (c # cs) =
     (if is_delim c then (if w \<noteq> [] then w # ended_words [] cs else ended_words [] cs)
      else ended_words (w @ [c]) cs)"

text \<open>The loop collects the ended words; \<open>substr u start i\<close> is the word it is in.\<close>

lemma substr_snoc: "start \<le> i \<Longrightarrow> i < length u \<Longrightarrow> substr u start i @ [u ! i] = substr u start (Suc i)"
  by (simp add: substr_def Suc_diff_le take_Suc_conv_app_nth)

lemma split_loop_represents:
  assumes "represents out xs" "i \<le> length u" "start \<le> i" "found_start \<longrightarrow> start < i"
  shows "represents (split_loop u i start found_start out)
    (xs @ ended_words (if found_start then substr u start i else []) (drop i u))"
  using assms
proof (induction u i start found_start out arbitrary: xs rule: split_loop.induct)
  case (1 u i start found_start out)
  show ?case
  proof (cases "i < length u")
    case False
    with 1(5-) show ?thesis by (simp add: split_loop.simps)
  next
    case True
    then have drop: "drop i u = u ! i # drop (Suc i) u" by (simp add: Cons_nth_drop_Suc)
    have word: "found_start \<Longrightarrow> substr u start i \<noteq> []"
      using True 1(8) by (auto simp: substr_def)
    have first: "substr u i (Suc i) = [u ! i]" using True by (simp add: substr_def take_Suc_conv_app_nth)
    have longer: "substr u start i @ [u ! i] = substr u start (Suc i)" using True 1(7) by (rule substr_snoc [rotated])
    consider (word_end) "is_delim (u ! i)" found_start | (blank) "is_delim (u ! i)" "\<not> found_start"
      | (word_start) "\<not> is_delim (u ! i)" "\<not> found_start" | (inside) "\<not> is_delim (u ! i)" found_start
      by blast
    then show ?thesis
    proof cases
      case word_end
      with 1(1) [OF True word_end represents_push_back [OF 1(5)]] True 1(7) drop word show ?thesis
        by (simp add: split_loop.simps [of u i])
    next
      case blank
      with 1(2) [OF True blank 1(5)] True 1(7) drop show ?thesis
        by (simp add: split_loop.simps [of u i])
    next
      case word_start
      with 1(3) [OF True word_start 1(5)] True drop first show ?thesis
        by (simp add: split_loop.simps [of u i])
    next
      case inside
      with 1(4) [OF True inside(1) _ 1(5)] True 1(7) drop longer show ?thesis
        by (simp add: split_loop.simps [of u i])
    qed
  qed
qed

lemma SplitByDelim_represents: "represents (SplitByDelim u) (ended_words [] u)"
  using split_loop_represents [OF represents_new, of 0 u 0 False] by (simp add: SplitByDelim_def)


lemma ended_words_skip: "ended_words [] (dropWhile is_delim u) = ended_words [] u"
  by (induction u) simp_all

lemma ended_words_run: "\<forall>c \<in> set v. \<not> is_delim c \<Longrightarrow> ended_words w (v @ u) = ended_words (w @ v) u"
  by (induction v arbitrary: w) simp_all

lemma ended_words_words:
  "ended_words [] u = (if u = [] \<or> is_delim (last u) then words u else butlast (words u))"
proof (induction u rule: words.induct)
  case (1 u)
  define v w rest where defs: "v = dropWhile is_delim u" "w = takeWhile (\<lambda>c. \<not> is_delim c) v"
    "rest = dropWhile (\<lambda>c. \<not> is_delim c) v"
  have start: "ended_words [] u = ended_words [] v" by (simp add: defs(1) ended_words_skip)
  show ?case
  proof (cases "v = []")
    case True
    then have "\<forall>c \<in> set u. is_delim c" by (simp add: defs(1))
    then have "u = [] \<or> is_delim (last u)" using last_in_set [of u] by blast
    moreover have "words u = []" using True by (simp add: words.simps [of u] defs(1))
    ultimately show ?thesis using start True by simp
  next
    case False
    have v: "v = w @ rest" by (simp add: defs(2,3))
    have nd: "\<forall>c \<in> set w. \<not> is_delim c" by (auto simp: defs(2) dest: set_takeWhileD)
    have "\<not> is_delim (hd v)" using False by (simp add: defs(1) hd_dropWhile)
    then have w: "w \<noteq> []" using False by (cases v) (simp_all add: defs(2))
    have eq: "takeWhile is_delim u @ v = u" by (simp add: defs(1))
    have last: "last u = last v" "u \<noteq> []"
      using last_appendR [OF False, of "takeWhile is_delim u"] False unfolding eq by (auto simp: defs(1))
    have words: "words u = w # words rest"
      unfolding words.simps [of u] Let_def defs(1) [symmetric] defs(2,3) using False by simp
    have end1: "ended_words [] u = ended_words w rest"
      using start v ended_words_run [OF nd, of "[]" rest] by simp
    show ?thesis
    proof (cases rest)
      case Nil
      moreover have "words [] = []" by (simp add: words.simps)
      moreover have "\<not> is_delim (last u)" using last(1) v w nd Nil by simp
      ultimately show ?thesis using end1 words last(2) by simp
    next
      case (Cons d ds)
      then have "is_delim d" using hd_dropWhile [of "\<lambda>c. \<not> is_delim c" v] by (simp add: defs(3))
      then have "ended_words w rest = w # ended_words [] rest" using Cons w by simp
      moreover have "last u = last rest" using last(1) v Cons by simp
      moreover have "words rest \<noteq> []" if "\<not> is_delim (last rest)"
      proof -
        have "dropWhile is_delim rest \<noteq> []" using that Cons last_in_set [of rest] by (auto simp del: last_in_set)
        then show ?thesis by (simp add: words.simps [of rest] Let_def)
      qed
      ultimately show ?thesis
        using 1 [OF refl] False Cons end1 words last(2) by (simp add: defs [symmetric])
    qed
  qed
qed

text \<open>
  \<^verbatim>\<open>SplitByDelim\<close> returns the words of its argument in their order, except that it drops the last word
  when no delimiter follows it; the index operator of the list returns the word at each index and
  dereferences a null pointer beyond.
\<close>
theorem SplitByDelim_words:
  "let ws = (if u = [] \<or> is_delim (last u) then words u else butlast (words u)) in
   list_size (SplitByDelim u) = length ws
   \<and> list_get (SplitByDelim u) idx = (if idx < length ws then Inr (ws ! idx) else Inl (Undefined ''null node''))"
  using SplitByDelim_represents [of u] list_get_represents [OF SplitByDelim_represents, of u idx]
  by (simp add: ended_words_words [symmetric] list_size_def represents_def Let_def)

section \<open>The log\<close>

text \<open>\<^verbatim>\<open>std::getline\<close>: the next line and what follows it, or nothing at the end of the file.\<close>

definition getline :: "string \<Rightarrow> (string \<times> string) option" where
  "getline u =
     (if u = [] then None
      else Some (takeWhile (\<lambda>c. c \<noteq> CHR 0x0A) u, drop 1 (dropWhile (\<lambda>c. c \<noteq> CHR 0x0A) u)))"

definition dump_line :: "(string \<Rightarrow> string + real) \<Rightarrow> (real \<Rightarrow> string) \<Rightarrow> string \<Rightarrow> fault + string" where
  "dump_line stod show_double entry =
     (let splitted = SplitByDelim entry;
          num = (\<lambda>s. case stod s of Inl what \<Rightarrow> Inl (Thrown what) | Inr x \<Rightarrow> Inr x)
      in bind_res (bind_res (list_get splitted 0) num) (\<lambda>time.
         bind_res (bind_res (list_get splitted 1) num) (\<lambda>range.
         bind_res (if list_size splitted = 6 then list_get splitted 2
                   else bind_res (list_get splitted 2) (\<lambda>s. bind_res (list_get splitted 3) (\<lambda>t. Inr (s @ t)))) (\<lambda>status.
         bind_res (bind_res (list_get splitted (if list_size splitted = 6 then 3 else 4)) num) (\<lambda>b.
         Inr (if time \<ge> 5 / 2 \<and> time \<le> 13 / 2
              then show_double time @ ''  '' @ show_double range @ ''  '' @ status @ ''  '' @ show_double b @ [CHR 0x0A]
              else []))))))"

function dump_rows :: "(string \<Rightarrow> string + real) \<Rightarrow> (real \<Rightarrow> string) \<Rightarrow> string \<Rightarrow> string \<Rightarrow> fault + string" where
  "dump_rows stod show_double u out =
     (case getline u of
        None \<Rightarrow> Inr out
      | Some (entry, u') \<Rightarrow> bind_res (dump_line stod show_double entry) (\<lambda>row. dump_rows stod show_double u' (out @ row)))"
  by pat_completeness auto
termination
proof (relation "measure (\<lambda>(_, _, u, _). length u)", simp)
  fix stod :: "string \<Rightarrow> string + real" and show_double and u out entry u' row :: string and r
  assume "getline u = Some r" "(entry, u') = r"
  then have "u \<noteq> []" "u' = drop 1 (dropWhile (\<lambda>c. c \<noteq> CHR 0x0A) u)" by (auto simp: getline_def split: if_splits)
  then have "length u' < length u"
    using length_dropWhile_le [of "\<lambda>c. c \<noteq> CHR 0x0A" u] by (cases "dropWhile (\<lambda>c. c \<noteq> CHR 0x0A) u") auto
  then show "((stod, show_double, u', out @ row), stod, show_double, u, out) \<in> measure (\<lambda>(_, _, u, _). length u)"
    by simp
qed

declare dump_rows.simps [simp del]

text \<open>The first line is a header; a file that cannot be opened has no lines.\<close>

definition Dump :: "(string \<Rightarrow> string + real) \<Rightarrow> (real \<Rightarrow> string) \<Rightarrow> string \<Rightarrow> fault + string" where
  "Dump stod show_double content =
     (case getline content of
        None \<Rightarrow> Inr []
      | Some (entry, rest) \<Rightarrow> dump_rows stod show_double rest [])"

definition dump_main ::
  "(string \<Rightarrow> string + real) \<Rightarrow> (real \<Rightarrow> string) \<Rightarrow> (string \<Rightarrow> string) \<Rightarrow> string list \<Rightarrow> fault + (int \<times> string)" where
  "dump_main stod show_double files args =
     (case args of
        [file] \<Rightarrow> bind_res (Dump stod show_double (files file)) (\<lambda>out. Inr (0, out))
      | _ \<Rightarrow> Inr (1, ''provide file name'' @ [CHR 0x0A]))"


section \<open>What is printed\<close>

text \<open>The words that \<^verbatim>\<open>SplitByDelim\<close> finds, and the row they make.\<close>

definition found_words :: "string \<Rightarrow> string list" where
  "found_words u = (if u = [] \<or> is_delim (last u) then words u else butlast (words u))"

definition value_column :: "string list \<Rightarrow> nat" where
  "value_column ws = (if length ws = 6 then 3 else 4)"

definition well_formed :: "(string \<Rightarrow> string + real) \<Rightarrow> string list \<Rightarrow> bool" where
  "well_formed stod ws \<longleftrightarrow> 5 \<le> length ws
     \<and> (\<forall>k \<in> {0, 1, value_column ws}. case stod (ws ! k) of Inl _ \<Rightarrow> False | Inr _ \<Rightarrow> True)"

definition log_row :: "(string \<Rightarrow> string + real) \<Rightarrow> (real \<Rightarrow> string) \<Rightarrow> string list \<Rightarrow> string" where
  "log_row stod show_double ws =
     (let num = (\<lambda>k. projr (stod (ws ! k)));
          status = (if length ws = 6 then ws ! 2 else ws ! 2 @ ws ! 3)
      in if 5 / 2 \<le> num 0 \<and> num 0 \<le> 13 / 2
         then show_double (num 0) @ ''  '' @ show_double (num 1) @ ''  '' @ status @ ''  ''
           @ show_double (num (value_column ws)) @ [CHR 0x0A]
         else [])"

lemma SplitByDelim_get:
  "list_get (SplitByDelim u) idx
     = (if idx < length (found_words u) then Inr (found_words u ! idx) else Inl (Undefined ''null node''))"
  "list_size (SplitByDelim u) = length (found_words u)"
  using SplitByDelim_represents [of u] list_get_represents [OF SplitByDelim_represents, of u idx]
  by (simp_all add: found_words_def ended_words_words [symmetric] list_size_def represents_def)

lemma dump_line_row:
  "well_formed stod (found_words entry) \<Longrightarrow>
     dump_line stod show_double entry = Inr (log_row stod show_double (found_words entry))"
  by (cases "length (found_words entry) = 6")
     (auto simp: dump_line_def log_row_def well_formed_def value_column_def SplitByDelim_get Let_def
      split: sum.splits)

lemma dump_line_short:
  "length (found_words entry) \<le> 4 \<Longrightarrow> \<exists>f. dump_line stod show_double entry = Inl f"
  by (cases "list_get (SplitByDelim entry) 0"; cases "list_get (SplitByDelim entry) 1")
     (auto simp: dump_line_def SplitByDelim_get Let_def bind_res_def split: sum.splits if_splits)

lemma getline_line:
  "CHR 0x0A \<notin> set entry \<Longrightarrow> getline (entry @ CHR 0x0A # u) = Some (entry, u)"
proof -
  assume "CHR 0x0A \<notin> set entry"
  then have "\<forall>c \<in> set entry. c \<noteq> CHR 0x0A" by auto
  then show ?thesis by (simp add: getline_def takeWhile_append dropWhile_append)
qed

lemma dump_rows_lines:
  "\<forall>entry \<in> set entries. CHR 0x0A \<notin> set entry \<and> well_formed stod (found_words entry) \<Longrightarrow>
     dump_rows stod show_double (concat (map (\<lambda>entry. entry @ [CHR 0x0A]) entries)) out
     = Inr (out @ concat (map (\<lambda>entry. log_row stod show_double (found_words entry)) entries))"
proof (induction entries arbitrary: out)
  case Nil
  then show ?case by (simp add: dump_rows.simps getline_def)
next
  case (Cons entry entries)
  then show ?case
    by (subst dump_rows.simps) (simp add: getline_line dump_line_row)
qed

text \<open>
  On a file of a header and rows, each of at least five words that a delimiter follows and with numbers in its
  number columns, the program prints the rows whose time is between 2.5 and 6.5, in their
  order and with the columns of a row of six words or of any other length, and exits with 0.
\<close>
theorem dump_prints_window:
  assumes "CHR 0x0A \<notin> set header"
    and "\<forall>entry \<in> set entries. CHR 0x0A \<notin> set entry \<and> well_formed stod (found_words entry)"
    and "files file = header @ CHR 0x0A # concat (map (\<lambda>entry. entry @ [CHR 0x0A]) entries)"
  shows "dump_main stod show_double files [file]
    = Inr (0, concat (map (\<lambda>entry. log_row stod show_double (found_words entry)) entries))"
  using assms(1) dump_rows_lines [OF assms(2), of show_double "[]"]
  by (simp add: dump_main_def assms(3) Dump_def getline_line)

definition sample_stod :: "string \<Rightarrow> string + real" where
  "sample_stod s = (if s = ''3'' then Inr 3 else if s = ''9'' then Inr 9 else Inl ''stod'')"

lemma dump_prints_window_witness:
  "dump_main sample_stod (\<lambda>x. if x = 3 then ''3'' else ''9'')
     (\<lambda>_. ''t r s b'' @ [CHR 0x0A] @ ''3 9 on off 3 '' @ [CHR 0x0A] @ ''9 9 on off 3 '' @ [CHR 0x0A]) [''log'']
   = Inr (0, ''3  9  onoff  3'' @ [CHR 0x0A])"
proof -
  have words: "found_words ''3 9 on off 3 '' = [''3'', ''9'', ''on'', ''off'', ''3'']"
    "found_words ''9 9 on off 3 '' = [''9'', ''9'', ''on'', ''off'', ''3'']"
    by (simp_all add: found_words_def words.simps Let_def is_delim_def)
  have "dump_main sample_stod (\<lambda>x. if x = 3 then ''3'' else ''9'')
     (\<lambda>_. ''t r s b'' @ CHR 0x0A # concat (map (\<lambda>entry. entry @ [CHR 0x0A]) [''3 9 on off 3 '', ''9 9 on off 3 ''])) [''log'']
     = Inr (0, concat (map (\<lambda>entry. log_row sample_stod (\<lambda>x. if x = 3 then ''3'' else ''9'') (found_words entry))
         [''3 9 on off 3 '', ''9 9 on off 3 '']))"
    by (rule dump_prints_window) (simp_all add: words well_formed_def value_column_def sample_stod_def)
  then show ?thesis by (simp add: words log_row_def value_column_def sample_stod_def)
qed

end
