(* ===== verification/Boost_Echo.thy ===== *)
theory Boost_Echo
  imports Machine
begin

text \<open>
  The echo programs of \<^verbatim>\<open>src/boost_test/common\<close>: \<^verbatim>\<open>tcp_echo_server.cpp\<close>, \<^verbatim>\<open>udp_echo_server.cpp\<close>
  and \<^verbatim>\<open>udp_client.cpp\<close>. Boost.Asio is outside the repository: a program is the handlers it passes
  to the library, and an event is a completion the library delivers, with the bytes it has
  transferred. What the library documents of its completions is the precondition of the event.
  \<open>received\<close> and \<open>written\<close> record the data read from a connection and the texts passed to
  \<^verbatim>\<open>async_write\<close>.
\<close>

section \<open>The TCP server\<close>

text \<open>
  The operation a \<^verbatim>\<open>Connection\<close> has outstanding; its handler holds the only reference to the
  connection, so \<open>Idle\<close> is a destroyed connection. \<open>Writing text n\<close> has passed a buffer of \<open>text\<close>,
  of which the socket has taken \<open>n\<close> bytes in the initiating call. The buffer is of the temporary
  \<^verbatim>\<open>_tmp + '\n'\<close>, which is gone when \<^verbatim>\<open>DoWrite\<close> returns.
\<close>

datatype tcp_pending = Idle | Reading | Writing string nat

record connection =
  buf :: string
  pending :: tcp_pending
  console :: string
  received :: string
  written :: "string list"

definition linefeed :: char where "linefeed = CHR 0x0A"

text \<open>\<^verbatim>\<open>_is >> _tmp\<close> on the characters of \<^verbatim>\<open>buf_\<close>: the word and what is left.\<close>

definition extract_word :: "string \<Rightarrow> string \<times> string" where
  "extract_word b =
     (let u = dropWhile c_isspace b
      in (takeWhile (\<lambda>c. \<not> c_isspace c) u, dropWhile (\<lambda>c. \<not> c_isspace c) u))"

definition DoRead :: "connection \<Rightarrow> connection" where
  "DoRead c = c\<lparr>pending := Reading\<rparr>"

definition DoWrite :: "nat \<Rightarrow> connection \<Rightarrow> connection" where
  "DoWrite n c =
     (let (tmp, rest) = extract_word (buf c); text = tmp @ [linefeed]
      in c\<lparr>buf := rest, pending := Writing text n, written := written c @ [text]\<rparr>)"

definition Connection_Start :: "connection \<Rightarrow> connection" where
  "Connection_Start c = DoRead c"

definition new_connection :: connection where
  "new_connection = \<lparr>buf = [], pending = Idle, console = [], received = [], written = []\<rparr>"

text \<open>The two completion handlers.\<close>

definition read_handler :: "bool \<Rightarrow> nat \<Rightarrow> nat \<Rightarrow> connection \<Rightarrow> connection" where
  "read_handler ec bytes n c =
     (let c = c\<lparr>console := console c @ ''read '' @ show_nat bytes @ '' bytes'' @ [linefeed], pending := Idle\<rparr>
      in if \<not> ec then DoWrite n c else c)"

definition write_handler :: "bool \<Rightarrow> nat \<Rightarrow> connection \<Rightarrow> connection" where
  "write_handler ec bytes c =
     (let c = c\<lparr>console := console c @ ''wrote '' @ show_nat bytes @ '' bytes'' @ [linefeed], pending := Idle\<rparr>
      in if \<not> ec then DoRead c else c)"

text \<open>
  \<open>ReadDone ec chunk n\<close>: \<^verbatim>\<open>async_read_until\<close> has appended \<open>chunk\<close> to the buffer and completes, and
  the socket takes \<open>n\<close> bytes of the text that the handler then writes before \<^verbatim>\<open>async_write\<close> returns.
  \<open>WriteDone ec bytes\<close>: the write completes; bytes that were taken after \<^verbatim>\<open>async_write\<close> had returned
  have been read from a dead buffer.
\<close>

datatype conn_event = ReadDone bool string nat | WriteDone bool nat

definition upto_linefeed :: "string \<Rightarrow> nat" where
  "upto_linefeed b = Suc (length (takeWhile (\<lambda>c. c \<noteq> linefeed) b))"

fun conn_step :: "conn_event \<Rightarrow> connection \<Rightarrow> fault + connection" where
  "conn_step (ReadDone ec chunk n) c =
     (let c = c\<lparr>buf := buf c @ chunk, received := received c @ chunk\<rparr>
      in Inr (read_handler ec (if ec then 0 else upto_linefeed (buf c)) n c))"
| "conn_step (WriteDone ec bytes) c =
     (case pending c of
        Writing text n \<Rightarrow>
          if n < bytes then Inl (Undefined ''async_write reads the buffer of a destroyed temporary'')
          else Inr (write_handler ec bytes c)
      | _ \<Rightarrow> Inl (Undefined ''completion without an operation''))"

text \<open>
  What the library promises: a completion belongs to the outstanding operation; a read without
  error leaves the delimiter in the buffer, and reads nothing if it was there before; a write
  transfers at least what was taken at once, at most the text, and all of it if there is no error. How
  much is taken at once it does not promise.
\<close>

fun conn_pre :: "conn_event \<Rightarrow> connection \<Rightarrow> bool" where
  "conn_pre (ReadDone ec chunk n) c \<longleftrightarrow>
     pending c = Reading
     \<and> (if linefeed \<in> set (buf c) then \<not> ec \<and> chunk = [] else ec \<or> linefeed \<in> set chunk)
     \<and> (ec \<or> n \<le> Suc (length (fst (extract_word (buf c @ chunk)))))"
| "conn_pre (WriteDone ec bytes) c \<longleftrightarrow>
     (case pending c of
        Writing text n \<Rightarrow> n \<le> bytes \<and> bytes \<le> length text \<and> (ec \<or> bytes = length text)
      | _ \<Rightarrow> False)"

text \<open>The fault to expect: the completion of a write that the initiating call has not finished.\<close>

fun conn_expect :: "conn_event \<Rightarrow> connection \<Rightarrow> fault option" where
  "conn_expect (ReadDone ec chunk n) c = None"
| "conn_expect (WriteDone ec bytes) c =
     (case pending c of
        Writing text n \<Rightarrow>
          if n < bytes then Some (Undefined ''async_write reads the buffer of a destroyed temporary'') else None
      | _ \<Rightarrow> None)"

record tcp_server =
  accepting :: bool
  conns :: "connection list"

definition DoAccept :: "tcp_server \<Rightarrow> tcp_server" where
  "DoAccept s = s\<lparr>accepting := True\<rparr>"

definition TcpServer :: tcp_server where
  "TcpServer = DoAccept \<lparr>accepting = False, conns = []\<rparr>"

definition accept_handler :: "bool \<Rightarrow> tcp_server \<Rightarrow> tcp_server" where
  "accept_handler ec s =
     (let s = s\<lparr>accepting := False\<rparr>
      in if \<not> ec then s\<lparr>conns := conns s @ [Connection_Start new_connection]\<rparr> else s)"

datatype tcp_event = Accepted bool | OnConn nat conn_event

fun tcp_step :: "tcp_event \<Rightarrow> tcp_server \<Rightarrow> fault + tcp_server" where
  "tcp_step (Accepted ec) s = Inr (accept_handler ec s)"
| "tcp_step (OnConn i e) s =
     bind_res (conn_step e (conns s ! i)) (\<lambda>c. Inr (s\<lparr>conns := (conns s)[i := c]\<rparr>))"

fun tcp_pre :: "tcp_event \<Rightarrow> tcp_server \<Rightarrow> bool" where
  "tcp_pre (Accepted ec) s \<longleftrightarrow> accepting s"
| "tcp_pre (OnConn i e) s \<longleftrightarrow> i < length (conns s) \<and> conn_pre e (conns s ! i)"

fun tcp_expect :: "tcp_event \<Rightarrow> tcp_server \<Rightarrow> fault option" where
  "tcp_expect (Accepted ec) s = None"
| "tcp_expect (OnConn i e) s = conn_expect e (conns s ! i)"

section \<open>The text that is echoed\<close>

definition nonspace :: "string \<Rightarrow> string" where
  "nonspace u = filter (\<lambda>c. \<not> c_isspace c) u"

definition is_word :: "string \<Rightarrow> bool" where
  "is_word w \<longleftrightarrow> (\<forall>c \<in> set w. \<not> c_isspace c)"

lemma c_isspace_linefeed [simp]: "c_isspace linefeed"
  by (simp add: linefeed_def char_class_defs)

lemma nonspace_simps [simp]:
  "nonspace [] = []" "nonspace (u @ v) = nonspace u @ nonspace v" "nonspace [linefeed] = []"
  "nonspace (dropWhile c_isspace u) = nonspace u"
  by (simp_all add: nonspace_def) (induction u; simp)

lemma nonspace_word: "is_word w \<Longrightarrow> nonspace w = w"
  by (simp add: nonspace_def is_word_def)

lemma extract_word_is_word: "is_word (fst (extract_word b))"
  by (auto simp: extract_word_def Let_def is_word_def dest: set_takeWhileD)

lemma extract_word_nonspace:
  "nonspace (fst (extract_word b)) @ nonspace (snd (extract_word b)) = nonspace b"
  unfolding extract_word_def Let_def fst_conv snd_conv nonspace_simps(2) [symmetric] takeWhile_dropWhile_id
  by simp

text \<open>The invariant of a connection, and of the server.\<close>

definition conn_inv :: "connection \<Rightarrow> bool" where
  "conn_inv c \<longleftrightarrow>
     nonspace (received c) = nonspace (concat (written c)) @ nonspace (buf c)
     \<and> (\<forall>t \<in> set (written c). \<exists>w. is_word w \<and> t = w @ [linefeed])"

definition tcp_inv :: "tcp_server \<Rightarrow> bool" where
  "tcp_inv s \<longleftrightarrow> (\<forall>c \<in> set (conns s). conn_inv c) \<and> length (conns s) + (if accepting s then 1 else 0) \<le> 1"

lemma conn_step_ok:
  assumes "conn_inv c" "conn_pre e c"
  shows "case conn_expect e c of Some f \<Rightarrow> conn_step e c = Inl f | None \<Rightarrow> \<exists>c'. conn_step e c = Inr c' \<and> conn_inv c'"
proof (cases e)
  case (WriteDone ec bytes)
  with assms show ?thesis
    by (auto simp: conn_inv_def write_handler_def DoRead_def Let_def split: tcp_pending.splits)
next
  case (ReadDone ec chunk n)
  obtain w rest where w: "extract_word (buf c @ chunk) = (w, rest)" by fastforce
  have "is_word w" and "nonspace w @ nonspace rest = nonspace (buf c @ chunk)"
    using extract_word_is_word [of "buf c @ chunk"] extract_word_nonspace [of "buf c @ chunk"] w by simp_all
  with assms w ReadDone show ?thesis
    by (auto simp: conn_inv_def read_handler_def DoWrite_def Let_def)
qed

interpretation tcp: checked_machine tcp_step tcp_pre tcp_inv tcp_expect
proof
  fix s e
  assume inv: "tcp_inv s" and pre: "tcp_pre e s"
  show "case tcp_expect e s of Some f \<Rightarrow> tcp_step e s = Inl f | None \<Rightarrow> \<exists>s'. tcp_step e s = Inr s' \<and> tcp_inv s'"
  proof (cases e)
    case (Accepted ec)
    with inv pre show ?thesis
      by (auto simp: tcp_inv_def accept_handler_def Connection_Start_def DoRead_def new_connection_def
          conn_inv_def Let_def)
  next
    case (OnConn i ev)
    with inv pre have i: "i < length (conns s)" "conn_inv (conns s ! i)" "conn_pre ev (conns s ! i)"
      by (auto simp: tcp_inv_def)
    note step = conn_step_ok [OF i(2,3)]
    show ?thesis
    proof (cases "conn_expect ev (conns s ! i)")
      case (Some f)
      with step OnConn show ?thesis by simp
    next
      case None
      with step obtain c' where "conn_step ev (conns s ! i) = Inr c'" "conn_inv c'" by auto
      with inv None OnConn show ?thesis
        by (auto simp: tcp_inv_def dest!: set_update_subset_insert [THEN subsetD])
    qed
  qed
qed

lemma tcp_first_fault:
  "first_fault tcp_expect tcp_step events s = Some f \<Longrightarrow>
     f = Undefined ''async_write reads the buffer of a destroyed temporary''"
proof (induction events arbitrary: s)
  case (Cons e events)
  have "tcp_expect e s = Some f \<Longrightarrow> f = Undefined ''async_write reads the buffer of a destroyed temporary''"
    by (cases e) (auto elim!: conn_expect.elims split: tcp_pending.splits if_splits)
  with Cons show ?case by (auto split: option.splits sum.splits)
qed simp


text \<open>
  A word cut in two by the transport is echoed as two lines: the text \<^verbatim>\<open>a bc\<close> and its end of line arrive
  as \<^verbatim>\<open>x\<close>, end of line, \<^verbatim>\<open>b\<close> and \<^verbatim>\<open>c\<close>, end of line.
\<close>

definition split_session :: "tcp_event list" where
  "split_session =
     [Accepted False, OnConn 0 (ReadDone False [CHR ''x'', linefeed, CHR ''b''] 2), OnConn 0 (WriteDone False 2),
      OnConn 0 (ReadDone False [] 2), OnConn 0 (WriteDone False 2), OnConn 0 (ReadDone False [CHR ''c'', linefeed] 2)]"

lemmas tcp_eval = split_session_def TcpServer_def DoAccept_def accept_handler_def new_connection_def
  Connection_Start_def DoRead_def DoWrite_def read_handler_def write_handler_def extract_word_def
  upto_linefeed_def linefeed_def char_class_defs

text \<open>The same session when the last write is taken byte by byte.\<close>

definition slow_session :: "tcp_event list" where
  "slow_session = butlast split_session @ [OnConn 0 (ReadDone False [CHR ''c'', linefeed] 1), OnConn 0 (WriteDone False 2)]"


lemma split_session_writes:
  "map_sum id (\<lambda>s. map written (conns s)) (run_ops tcp_step split_session TcpServer)
   = Inr [[[CHR ''x'', linefeed], [CHR ''b'', linefeed], [CHR ''c'', linefeed]]]"
  by (simp add: tcp_eval)

section \<open>What a line is answered with\<close>

text \<open>A line of words, and the completions after it has arrived in one piece.\<close>

fun line_of :: "string list \<Rightarrow> string" where
  "line_of [] = [linefeed]"
| "line_of [w] = w @ [linefeed]"
| "line_of (w # v # ws) = w @ CHR '' '' # line_of (v # ws)"

definition echo_events :: "string \<Rightarrow> string \<Rightarrow> conn_event list" where
  "echo_events chunk w = [ReadDone False chunk (Suc (length w)), WriteDone False (Suc (length w))]"

lemma c_isspace_blank [simp]: "c_isspace CHR '' ''"
  by (simp add: char_class_defs)

lemma extract_word_append:
  assumes "is_word w" "w \<noteq> []" "c_isspace b"
  shows "extract_word (w @ b # rest) = (w, b # rest)"
proof -
  obtain x xs where w: "w = x # xs" using assms(2) by (cases w) auto
  with assms have "dropWhile c_isspace (w @ b # rest) = w @ b # rest" by (simp add: is_word_def)
  with assms show ?thesis by (simp add: extract_word_def is_word_def takeWhile_append dropWhile_append)
qed

lemma extract_word_skip: "c_isspace b \<Longrightarrow> extract_word (b # u) = extract_word u"
  by (simp add: extract_word_def)

lemma extract_word_linefeed: "extract_word [linefeed] = ([], [])"
  by (simp add: extract_word_def)

definition rest_of_line :: "string list \<Rightarrow> string" where
  "rest_of_line ws = (if ws = [] then [linefeed] else CHR '' '' # line_of ws)"

lemma linefeed_in_line [simp]: "linefeed \<in> set (line_of ws)"
  by (induction ws rule: line_of.induct) simp_all

lemma linefeed_in_rest: "linefeed \<in> set (rest_of_line ws)"
  by (simp add: rest_of_line_def)

lemma extract_line:
  assumes "is_word w" "w \<noteq> []"
  shows "extract_word (line_of (w # ws)) = (w, rest_of_line ws)"
  using assms by (cases ws) (simp_all add: extract_word_append rest_of_line_def)

lemma extract_rest:
  "is_word w \<Longrightarrow> w \<noteq> [] \<Longrightarrow> extract_word (rest_of_line (w # ws)) = (w, rest_of_line ws)"
  using extract_line [of w ws] by (simp add: rest_of_line_def extract_word_skip)

lemma echo_events_run:
  assumes "pending c = Reading" "extract_word (buf c @ chunk) = (w, rest)"
    "if linefeed \<in> set (buf c) then chunk = [] else linefeed \<in> set chunk"
  shows "admissible conn_pre conn_step (echo_events chunk w) c
    \<and> (\<exists>c'. run_ops conn_step (echo_events chunk w) c = Inr c' \<and> pending c' = Reading
         \<and> buf c' = rest \<and> written c' = written c @ [w @ [linefeed]])"
  using assms by (simp add: echo_events_def read_handler_def write_handler_def DoWrite_def DoRead_def Let_def)

lemma rest_of_line_run:
  assumes "pending c = Reading" "buf c = rest_of_line ws" "\<forall>w \<in> set ws. is_word w \<and> w \<noteq> []"
  shows "admissible conn_pre conn_step (concat (map (echo_events []) (ws @ [[]]))) c
    \<and> (\<exists>c'. run_ops conn_step (concat (map (echo_events []) (ws @ [[]]))) c = Inr c' \<and> pending c' = Reading
         \<and> buf c' = [] \<and> written c' = written c @ map (\<lambda>w. w @ [linefeed]) (ws @ [[]]))"
  using assms
proof (induction ws arbitrary: c)
  case Nil
  have "extract_word (buf c @ []) = ([], [])"
    using Nil.prems(2) by (simp add: rest_of_line_def extract_word_linefeed)
  from echo_events_run [OF Nil.prems(1) this] Nil.prems(2) show ?case by (auto simp: linefeed_in_rest)
next
  case (Cons w ws)
  have "extract_word (buf c @ []) = (w, rest_of_line ws)"
    using Cons.prems(2,3) extract_rest [of w ws] by simp
  from echo_events_run [OF Cons.prems(1) this] Cons.prems(2) obtain d where
    d: "run_ops conn_step (echo_events [] w) c = Inr d" "pending d = Reading" "buf d = rest_of_line ws"
      "written d = written c @ [w @ [linefeed]]" "admissible conn_pre conn_step (echo_events [] w) c"
    by (auto simp: linefeed_in_rest)
  from Cons.IH [OF d(2,3)] Cons.prems(3) d(1,4,5) show ?case by (auto simp: run_ops_append admissible_append)
qed

text \<open>
  A line of words that arrives in one piece is not answered with the line: the TCP echo server writes
  each of its words on a line of its own, then an empty line, and then waits for more.
\<close>
theorem tcp_echo_line:
  assumes "pending c = Reading" "buf c = []" "w # ws = words" "\<forall>w \<in> set words. is_word w \<and> w \<noteq> []"
  shows "let events = echo_events (line_of words) w @ concat (map (echo_events []) (ws @ [[]])) in
    admissible conn_pre conn_step events c
    \<and> (\<exists>c'. run_ops conn_step events c = Inr c' \<and> pending c' = Reading \<and> buf c' = []
         \<and> written c' = written c @ map (\<lambda>w. w @ [linefeed]) (words @ [[]]))"
proof -
  have "extract_word (buf c @ line_of words) = (w, rest_of_line ws)"
    using assms(2,4) extract_line [of w ws] by (simp add: assms(3) [symmetric])
  from echo_events_run [OF assms(1) this] assms(2) obtain d where
    d: "run_ops conn_step (echo_events (line_of words) w) c = Inr d" "pending d = Reading" "buf d = rest_of_line ws"
      "written d = written c @ [w @ [linefeed]]" "admissible conn_pre conn_step (echo_events (line_of words) w) c"
    by (auto simp: linefeed_in_line)
  from rest_of_line_run [OF d(2,3)] assms(3,4) d(1,4,5) show ?thesis
    by (auto simp: Let_def run_ops_append admissible_append)
qed

lemma tcp_echo_line_witness:
  "\<exists>c'. run_ops conn_step (echo_events (''hello world'' @ [linefeed]) ''hello''
       @ concat (map (echo_events []) [''world'', []])) (Connection_Start new_connection) = Inr c'
     \<and> written c' = [''hello'' @ [linefeed], ''world'' @ [linefeed], [linefeed]]"
proof -
  have "let events = echo_events (line_of [''hello'', ''world'']) ''hello''
       @ concat (map (echo_events []) ([''world''] @ [[]])) in
     admissible conn_pre conn_step events (Connection_Start new_connection)
     \<and> (\<exists>c'. run_ops conn_step events (Connection_Start new_connection) = Inr c'
          \<and> pending c' = Reading \<and> buf c' = []
          \<and> written c' = written (Connection_Start new_connection) @ map (\<lambda>w. w @ [linefeed]) ([''hello'', ''world''] @ [[]]))"
    by (rule tcp_echo_line)
       (simp_all add: Connection_Start_def DoRead_def new_connection_def is_word_def char_class_defs)
  then show ?thesis by (auto simp: Let_def Connection_Start_def DoRead_def new_connection_def)
qed


section \<open>The UDP server and client\<close>

datatype udp_pending = Receiving | Sending nat

text \<open>
  \<open>udp_buf\<close> are the 1024 characters of \<^verbatim>\<open>buf_\<close>; an endpoint is a value of \<open>'e\<close>. \<open>sent\<close> records the
  datagrams passed to \<^verbatim>\<open>async_send_to\<close>.
\<close>

record 'e udp_server =
  udp_buf :: string
  udp_src :: 'e
  udp_pending :: udp_pending
  sent :: "(string \<times> 'e) list"

definition buf_size :: nat where "buf_size = 1024"

definition udp_DoRead :: "'e udp_server \<Rightarrow> 'e udp_server" where
  "udp_DoRead s = s\<lparr>udp_pending := Receiving\<rparr>"

definition udp_DoWrite :: "nat \<Rightarrow> 'e udp_server \<Rightarrow> fault + 'e udp_server" where
  "udp_DoWrite nbytes s =
     (if nbytes < buf_size
      then Inr (s\<lparr>udp_pending := Sending nbytes, sent := sent s @ [(take nbytes (udp_buf s), udp_src s)]\<rparr>)
      else Inl (Terminated ''bytes received must be less than buffer capacity!''))"

definition receive_handler :: "bool \<Rightarrow> nat \<Rightarrow> 'e udp_server \<Rightarrow> fault + 'e udp_server" where
  "receive_handler ec nbytes s =
     (if \<not> ec \<and> nbytes > 0 then udp_DoWrite nbytes s else Inr (udp_DoRead s))"

definition send_handler :: "bool \<Rightarrow> 'e udp_server \<Rightarrow> 'e udp_server" where
  "send_handler ec s = udp_DoRead s"

definition UdpServer :: "(nat \<Rightarrow> char) \<Rightarrow> 'e \<Rightarrow> 'e udp_server" where
  "UdpServer contents src =
     udp_DoRead \<lparr>udp_buf = map contents [0..<buf_size], udp_src = src, udp_pending = Receiving, sent = []\<rparr>"

text \<open>
  A receive without error stores the datagram, cut to the size of the buffer, and its source; a
  receive with an error stores nothing.
\<close>

datatype 'e udp_event = Received bool string 'e | SendDone bool

fun udp_step :: "'e udp_event \<Rightarrow> 'e udp_server \<Rightarrow> fault + 'e udp_server" where
  "udp_step (Received ec d from) s =
     (if ec then receive_handler ec 0 s
      else let n = min (length d) buf_size
           in receive_handler ec n (s\<lparr>udp_buf := take n d @ drop n (udp_buf s), udp_src := from\<rparr>))"
| "udp_step (SendDone ec) s = Inr (send_handler ec s)"

text \<open>
  A datagram with the error codes of its receive and of the send that may follow, and the
  completions it causes.
\<close>

type_synonym 'e packet = "bool \<times> string \<times> 'e \<times> bool"

fun echoed :: "'e packet \<Rightarrow> bool" where
  "echoed (ec, d, from, ec') \<longleftrightarrow> \<not> ec \<and> d \<noteq> []"

fun packet_events :: "'e packet \<Rightarrow> 'e udp_event list" where
  "packet_events (ec, d, from, ec') =
     Received ec d from # (if echoed (ec, d, from, ec') then [SendDone ec'] else [])"

fun fits :: "'e packet \<Rightarrow> bool" where
  "fits (ec, d, from, ec') \<longleftrightarrow> ec \<or> length d < buf_size"

definition payload :: "'e packet \<Rightarrow> string \<times> 'e" where
  "payload p = (fst (snd p), fst (snd (snd p)))"

lemmas udp_defs = receive_handler_def udp_DoWrite_def udp_DoRead_def send_handler_def Let_def

lemma packet_fits:
  "fits p \<Longrightarrow> \<exists>s'. run_ops udp_step (packet_events p) s = Inr s'
     \<and> udp_pending s' = Receiving \<and> sent s' = sent s @ map payload (filter echoed [p])"
  by (cases p) (auto simp: udp_defs payload_def)

lemma packet_too_long:
  "\<not> fits p \<Longrightarrow> run_ops udp_step (packet_events p) s
     = Inl (Terminated ''bytes received must be less than buffer capacity!'')"
  by (cases p) (auto simp: udp_defs buf_size_def)

text \<open>
  C36. The UDP echo server sends the datagrams it receives without an error back to their sources, in
  order and unchanged, except the empty ones, whatever becomes of the sends; a datagram of 1024 or
  more bytes, from anybody, aborts it.
\<close>
theorem udp_echo_bounds:
  "(case run_ops udp_step (concat (map packet_events ps)) (UdpServer contents src) of
      Inr s \<Rightarrow> (\<forall>p \<in> set ps. fits p) \<and> udp_pending s = Receiving \<and> sent s = map payload (filter echoed ps)
    | Inl e \<Rightarrow> (\<exists>p \<in> set ps. \<not> fits p) \<and> e = Terminated ''bytes received must be less than buffer capacity!'')"
proof -
  have "case run_ops udp_step (concat (map packet_events ps)) s of
      Inr s' \<Rightarrow> (\<forall>p \<in> set ps. fits p) \<and> udp_pending s' = Receiving \<and> sent s' = sent s @ map payload (filter echoed ps)
    | Inl e \<Rightarrow> (\<exists>p \<in> set ps. \<not> fits p) \<and> e = Terminated ''bytes received must be less than buffer capacity!''"
    if "udp_pending s = Receiving" for s :: "'a udp_server"
    using that
  proof (induction ps arbitrary: s)
    case Nil
    then show ?case by simp
  next
    case (Cons p ps)
    show ?case
    proof (cases "fits p")
      case False
      then show ?thesis by (simp add: run_ops_append packet_too_long)
    next
      case True
      from packet_fits [OF this, of s] obtain t where
        t: "run_ops udp_step (packet_events p) s = Inr t" "udp_pending t = Receiving"
          "sent t = sent s @ map payload (filter echoed [p])" by blast
      with Cons.IH [OF t(2)] True show ?thesis
        by (simp add: run_ops_append split: sum.splits)
    qed
  qed
  from this [of "UdpServer contents src"] show ?thesis
    by (simp add: UdpServer_def udp_DoRead_def cong: sum.case_cong)
qed

lemma udp_echo_bounds_witness:
  "\<exists>s. run_ops udp_step [Received False ''ping'' 2, SendDone True, Received False [] 3, Received True ''x'' 4]
     (UdpServer (\<lambda>_. CHR ''?'') (9 :: nat)) = Inr s \<and> sent s = [(''ping'', 2)]"
proof -
  let ?ps = "[(False, ''ping'', 2, True), (False, [], 3, False), (True, ''x'', 4, False)] :: nat packet list"
  have "case run_ops udp_step (concat (map packet_events ?ps)) (UdpServer (\<lambda>_. CHR ''?'') 9) of
      Inr s \<Rightarrow> (\<forall>p \<in> set ?ps. fits p) \<and> udp_pending s = Receiving \<and> sent s = map payload (filter echoed ?ps)
    | Inl e \<Rightarrow> (\<exists>p \<in> set ?ps. \<not> fits p) \<and> e = Terminated ''bytes received must be less than buffer capacity!''"
    by (rule udp_echo_bounds)
  then show ?thesis by (simp add: buf_size_def payload_def del: udp_step.simps split: sum.splits)
qed

text \<open>
  The client sends to the first endpoint that \<^verbatim>\<open>localhost\<close> resolves to; \<open>net\<close> is the datagram that
  comes back, and \<open>None\<close> if none ever does. The result is what is sent and what is printed.
\<close>

definition udp_client_main :: "'e list \<Rightarrow> ('e \<Rightarrow> string \<Rightarrow> string option) \<Rightarrow> fault + (('e \<times> string) \<times> string) option" where
  "udp_client_main endpoints net =
     (let msg_in = ''some string!'' in
      case endpoints of
        [] \<Rightarrow> Inl (Undefined ''begin of no endpoints'')
      | e # _ \<Rightarrow>
          Inr (map_option (\<lambda>d. let bytes = min (length d) buf_size; msg = take bytes d in
              ((e, msg_in), ''msg sent: '' @ [CHR 0x27] @ msg_in @ [CHR 0x27] @ '' and msg received: ''
                 @ [CHR 0x27] @ msg @ [CHR 0x27]))
            (net e msg_in)))"

text \<open>The datagram that the server sends back first.\<close>

definition served_by :: "'e udp_server \<Rightarrow> 'e \<Rightarrow> 'f \<Rightarrow> string \<Rightarrow> string option" where
  "served_by s from e d =
     (case udp_step (Received False d from) s of
        Inl _ \<Rightarrow> None
      | Inr t \<Rightarrow> (case drop (length (sent s)) (sent t) of [] \<Rightarrow> None | (d', _) # _ \<Rightarrow> Some d'))"

lemma udp_client_of_server:
  "udp_client_main (e # es) (served_by (UdpServer contents src) from) =
     Inr (Some ((e, ''some string!''),
       ''msg sent: '' @ [CHR 0x27] @ ''some string!'' @ [CHR 0x27] @ '' and msg received: ''
         @ [CHR 0x27] @ ''some string!'' @ [CHR 0x27]))"
  by (simp add: udp_client_main_def served_by_def udp_defs UdpServer_def buf_size_def)

end
