(* ===== verification/Boost_Channel.thy ===== *)
theory Boost_Channel
  imports Machine Core_Range "HOL-Library.Sublist"
begin

text \<open>
  \<^verbatim>\<open>src/boost_test/common/test_channel.cpp\<close>: two coroutines, one sending over a channel and one
  receiving, each in a loop over \<^verbatim>\<open>core::Range{n}\<close>. The channel is the library's, without a buffer: a
  send completes when a receive takes its value, and the other way round, and the completions are
  posted to the executor. A run is the list of the choices among the posted completions, in any order
  (the executor's own is one of them). \<open>to_send\<close> and \<open>to_recv\<close> are what is left of the two loops,
  \<open>sent\<close> and \<open>received\<close> what the coroutines have printed.
\<close>

section \<open>The channel and the coroutines\<close>

datatype posted_op = SendDone string | RecvDone string

record channel_run =
  to_send :: "string list"
  to_recv :: nat
  send_op :: "string option"
  recv_op :: bool
  posted :: "posted_op list"
  sent :: "string list"
  received :: "string list"

definition value_text :: "32 word \<Rightarrow> string" where
  "value_text i = ''value = '' @ show_int (sint i)"

definition sent_text :: "string \<Rightarrow> string" where "sent_text x = ''sent: '' @ x"

definition received_text :: "string \<Rightarrow> string" where "received_text x = ''received: '' @ x"

text \<open>\<open>Produce\<close> and \<open>Consume\<close> up to their next suspension.\<close>

definition Produce_on :: "channel_run \<Rightarrow> channel_run" where
  "Produce_on s =
     (case to_send s of
        [] \<Rightarrow> s
      | x # xs \<Rightarrow>
          let s = s\<lparr>to_send := xs\<rparr>
          in if recv_op s then s\<lparr>recv_op := False, posted := posted s @ [RecvDone x, SendDone x]\<rparr>
             else s\<lparr>send_op := Some x\<rparr>)"

definition Consume_on :: "channel_run \<Rightarrow> channel_run" where
  "Consume_on s =
     (case to_recv s of
        0 \<Rightarrow> s
      | Suc n \<Rightarrow>
          let s = s\<lparr>to_recv := n\<rparr>
          in case send_op s of
               Some x \<Rightarrow> s\<lparr>send_op := None, posted := posted s @ [SendDone x, RecvDone x]\<rparr>
             | None \<Rightarrow> s\<lparr>recv_op := True\<rparr>)"

fun complete :: "posted_op \<Rightarrow> channel_run \<Rightarrow> channel_run" where
  "complete (SendDone x) s = Produce_on (s\<lparr>sent := sent s @ [sent_text x]\<rparr>)"
| "complete (RecvDone x) s = Consume_on (s\<lparr>received := received s @ [received_text x]\<rparr>)"

definition channel_choice :: "nat \<Rightarrow> channel_run \<Rightarrow> fault + channel_run" where
  "channel_choice i s =
     (if i < length (posted s)
      then Inr (complete (posted s ! i) (s\<lparr>posted := take i (posted s) @ drop (Suc i) (posted s)\<rparr>))
      else Inl (Undefined ''no such completion''))"

text \<open>\<^verbatim>\<open>co_await (Consume(ch, n) && Produce(ch, n))\<close>: both loops, the consumer's first. \<open>None\<close> and faults
  are those of the range.\<close>

definition channel_Test0 :: "32 word \<Rightarrow> (fault + channel_run) option" where
  "channel_Test0 n =
     map_option (\<lambda>r. bind_res r (\<lambda>is.
       Inr (Produce_on (Consume_on \<lparr>to_send = map value_text is, to_recv = length is, send_op = None, recv_op = False,
         posted = [], sent = [], received = []\<rparr>))))
     (range_for True (Range1 n))"

section \<open>The invariant\<close>

definition sends :: "posted_op list \<Rightarrow> string list" where
  "sends cs = List.map_filter (\<lambda>c. case c of SendDone x \<Rightarrow> Some x | RecvDone _ \<Rightarrow> None) cs"

definition recvs :: "posted_op list \<Rightarrow> string list" where
  "recvs cs = List.map_filter (\<lambda>c. case c of RecvDone x \<Rightarrow> Some x | SendDone _ \<Rightarrow> None) cs"

lemma sends_simps [simp]:
  "sends [] = []" "sends (SendDone x # cs) = x # sends cs" "sends (RecvDone x # cs) = sends cs"
  "sends (cs @ ds) = sends cs @ sends ds"
  by (induction cs) (auto simp: sends_def List.map_filter_simps split: posted_op.splits)

lemma recvs_simps [simp]:
  "recvs [] = []" "recvs (RecvDone x # cs) = x # recvs cs" "recvs (SendDone x # cs) = recvs cs"
  "recvs (cs @ ds) = recvs cs @ recvs ds"
  by (induction cs) (auto simp: recvs_def List.map_filter_simps split: posted_op.splits)

lemma no_completion: "sends cs = [] \<Longrightarrow> recvs cs = [] \<Longrightarrow> cs = []"
  by (cases cs) (auto, metis posted_op.exhaust list.distinct(1) recvs_simps(2) sends_simps(2))

text \<open>\<open>k\<close> values have gone through the channel. Either loop waits in the channel for the next, or its
  completion is posted, or it has ended.\<close>

definition producer_at :: "string list \<Rightarrow> nat \<Rightarrow> channel_run \<Rightarrow> bool" where
  "producer_at msgs k s \<longleftrightarrow> (\<exists>p \<le> length msgs. sent s = map sent_text (take p msgs)
     \<and> to_send s = drop (Suc p) msgs
     \<and> (if p < length msgs \<and> k = p then send_op s = Some (msgs ! p) \<and> sends (posted s) = []
        else if p < length msgs then k = Suc p \<and> send_op s = None \<and> sends (posted s) = [msgs ! p]
        else k = p \<and> send_op s = None \<and> sends (posted s) = []))"

definition consumer_at :: "string list \<Rightarrow> nat \<Rightarrow> channel_run \<Rightarrow> bool" where
  "consumer_at msgs k s \<longleftrightarrow> (\<exists>q \<le> length msgs. received s = map received_text (take q msgs)
     \<and> to_recv s = length msgs - Suc q
     \<and> (if q < length msgs \<and> k = q then recv_op s \<and> recvs (posted s) = []
        else if q < length msgs then k = Suc q \<and> \<not> recv_op s \<and> recvs (posted s) = [msgs ! q]
        else k = q \<and> \<not> recv_op s \<and> recvs (posted s) = []))"

definition channel_at :: "string list \<Rightarrow> channel_run \<Rightarrow> bool" where
  "channel_at msgs s \<longleftrightarrow> \<not> (send_op s \<noteq> None \<and> recv_op s) \<and> (\<exists>k. producer_at msgs k s \<and> consumer_at msgs k s)"

lemma consumer_frame:
  "received t = received s \<Longrightarrow> to_recv t = to_recv s \<Longrightarrow> recv_op t = recv_op s \<Longrightarrow>
     recvs (posted t) = recvs (posted s) \<Longrightarrow> consumer_at msgs k t = consumer_at msgs k s"
  by (simp add: consumer_at_def)

lemma producer_frame:
  "sent t = sent s \<Longrightarrow> to_send t = to_send s \<Longrightarrow> send_op t = send_op s \<Longrightarrow>
     sends (posted t) = sends (posted s) \<Longrightarrow> producer_at msgs k t = producer_at msgs k s"
  by (simp add: producer_at_def)

lemma Produce_on_ok:
  assumes "sent s = map sent_text (take p msgs)" "p \<le> length msgs" "to_send s = drop p msgs"
    and "send_op s = None" "sends (posted s) = []" "consumer_at msgs p s"
  shows "channel_at msgs (Produce_on s)"
proof (cases "p < length msgs")
  case False
  then have "Produce_on s = s" using assms(3) by (simp add: Produce_on_def)
  moreover have "producer_at msgs p s"
    unfolding producer_at_def by (rule exI [of _ p]) (use assms False in simp)
  ultimately show ?thesis using assms(4,6) by (auto simp: channel_at_def)
next
  case True
  then have more: "to_send s = msgs ! p # drop (Suc p) msgs" by (simp add: assms(3) Cons_nth_drop_Suc)
  show ?thesis
  proof (cases "recv_op s")
    case False
    let ?s = "s\<lparr>to_send := drop (Suc p) msgs, send_op := Some (msgs ! p)\<rparr>"
    have "Produce_on s = ?s" using more False by (simp add: Produce_on_def)
    moreover have "producer_at msgs p ?s"
      unfolding producer_at_def by (rule exI [of _ p]) (use assms True in simp)
    moreover have "consumer_at msgs p ?s" using assms(6) by (subst consumer_frame [where s = s]) simp_all
    ultimately show ?thesis using False by (auto simp: channel_at_def)
  next
    case waiting: True
    let ?s = "s\<lparr>to_send := drop (Suc p) msgs, recv_op := False, posted := posted s @ [RecvDone (msgs ! p), SendDone (msgs ! p)]\<rparr>"
    have eq: "Produce_on s = ?s" using more waiting by (simp add: Produce_on_def)
    have prod: "producer_at msgs (Suc p) ?s"
      unfolding producer_at_def by (rule exI [of _ p]) (use assms True in simp)
    from assms(6) waiting obtain q where "q \<le> length msgs" "received s = map received_text (take q msgs)"
      "to_recv s = length msgs - Suc q" "q < length msgs" "p = q" "recvs (posted s) = []"
      unfolding consumer_at_def by (auto split: if_splits)
    then have "consumer_at msgs (Suc p) ?s"
      unfolding consumer_at_def by (intro exI [of _ q]) simp
    with prod assms(4) show ?thesis unfolding eq by (auto simp: channel_at_def)
  qed
qed

lemma Consume_on_ok:
  assumes "received s = map received_text (take q msgs)" "q \<le> length msgs" "to_recv s = length msgs - q"
    and "\<not> recv_op s" "recvs (posted s) = []" "producer_at msgs q s"
  shows "channel_at msgs (Consume_on s)"
proof (cases "q < length msgs")
  case False
  then have "Consume_on s = s" using assms(3) by (simp add: Consume_on_def)
  moreover have "consumer_at msgs q s"
    unfolding consumer_at_def by (rule exI [of _ q]) (use assms False in simp)
  ultimately show ?thesis using assms(4,6) by (auto simp: channel_at_def)
next
  case True
  then have more: "to_recv s = Suc (length msgs - Suc q)" by (simp add: assms(3))
  show ?thesis
  proof (cases "send_op s")
    case None
    let ?s = "s\<lparr>to_recv := length msgs - Suc q, recv_op := True\<rparr>"
    have "Consume_on s = ?s" using more None by (simp add: Consume_on_def)
    moreover have "consumer_at msgs q ?s"
      unfolding consumer_at_def by (rule exI [of _ q]) (use assms True in simp)
    moreover have "producer_at msgs q ?s" using assms(6) by (subst producer_frame [where s = s]) simp_all
    ultimately show ?thesis using None by (auto simp: channel_at_def)
  next
    case (Some x)
    let ?s = "s\<lparr>to_recv := length msgs - Suc q, send_op := None, posted := posted s @ [SendDone x, RecvDone x]\<rparr>"
    have eq: "Consume_on s = ?s" using more Some by (simp add: Consume_on_def)
    from assms(6) Some obtain p where p: "p \<le> length msgs" "sent s = map sent_text (take p msgs)"
      "to_send s = drop (Suc p) msgs" "p < length msgs" "q = p" "x = msgs ! p" "sends (posted s) = []"
      unfolding producer_at_def by (auto split: if_splits)
    then have prod: "producer_at msgs (Suc q) ?s"
      unfolding producer_at_def by (intro exI [of _ p]) simp
    have "consumer_at msgs (Suc q) ?s"
      unfolding consumer_at_def by (rule exI [of _ q]) (use assms True p(5,6) in simp)
    with prod assms(4) show ?thesis unfolding eq by (auto simp: channel_at_def)
  qed
qed

lemma channel_choice_ok:
  assumes inv: "channel_at msgs s" and i: "i < length (posted s)"
  shows "\<exists>t. channel_choice i s = Inr t \<and> channel_at msgs t
    \<and> length (sent t) + length (received t) = Suc (length (sent s) + length (received s))"
proof -
  let ?xs = "take i (posted s)" and ?ys = "drop (Suc i) (posted s)"
  let ?u = "s\<lparr>posted := ?xs @ ?ys\<rparr>"
  have split: "posted s = ?xs @ posted s ! i # ?ys" using i by (rule id_take_nth_drop)
  have step: "channel_choice i s = Inr (complete (posted s ! i) ?u)" using i by (simp add: channel_choice_def)
  obtain k where k: "producer_at msgs k s" "consumer_at msgs k s" using inv by (auto simp: channel_at_def)
  have len: "sent (Produce_on t) = sent t" "received (Produce_on t) = received t"
    "sent (Consume_on t) = sent t" "received (Consume_on t) = received t" for t
    by (simp_all add: Produce_on_def Consume_on_def Let_def split: list.split nat.split option.split)
  show ?thesis
  proof (cases "posted s ! i")
    case (SendDone x)
    have all: "sends (posted s) = sends ?xs @ x # sends ?ys" "recvs (posted s) = recvs (?xs @ ?ys)"
      using SendDone by (subst split, simp)+
    with k(1) obtain p where p: "p < length msgs" "sent s = map sent_text (take p msgs)"
      "to_send s = drop (Suc p) msgs" "k = Suc p" "send_op s = None" "x = msgs ! p" "sends (?xs @ ?ys) = []"
      unfolding producer_at_def by (auto simp: append_eq_Cons_conv split: if_splits)
    have "consumer_at msgs (Suc p) (?u\<lparr>sent := sent s @ [sent_text x]\<rparr>)"
      using k(2) unfolding p(4) by (subst consumer_frame [where s = s]) (simp_all only: all(2), simp_all)
    with p have "channel_at msgs (Produce_on (?u\<lparr>sent := sent s @ [sent_text x]\<rparr>))"
      by (intro Produce_on_ok [where p = "Suc p"]) (simp_all add: take_Suc_conv_app_nth)
    then show ?thesis using step SendDone len by simp
  next
    case (RecvDone x)
    have all: "recvs (posted s) = recvs ?xs @ x # recvs ?ys" "sends (posted s) = sends (?xs @ ?ys)"
      using RecvDone by (subst split, simp)+
    with k(2) obtain q where q: "q < length msgs" "received s = map received_text (take q msgs)"
      "to_recv s = length msgs - Suc q" "k = Suc q" "\<not> recv_op s" "x = msgs ! q" "recvs (?xs @ ?ys) = []"
      unfolding consumer_at_def by (auto simp: append_eq_Cons_conv split: if_splits)
    have "producer_at msgs (Suc q) (?u\<lparr>received := received s @ [received_text x]\<rparr>)"
      using k(1) unfolding q(4) by (subst producer_frame [where s = s]) (simp_all only: all(2), simp_all)
    with q have "channel_at msgs (Consume_on (?u\<lparr>received := received s @ [received_text x]\<rparr>))"
      by (intro Consume_on_ok [where q = "Suc q"]) (simp_all add: take_Suc_conv_app_nth)
    then show ?thesis using step RecvDone len by simp
  qed
qed

interpretation channel_program: safe_machine channel_choice "\<lambda>i s. i < length (posted s)" "channel_at msgs" for msgs
  by unfold_locales (use channel_choice_ok in blast)

section \<open>The program\<close>

lemma channel_started:
  "channel_at msgs (Produce_on (Consume_on \<lparr>to_send = msgs, to_recv = length msgs, send_op = None, recv_op = False,
     posted = [], sent = [], received = []\<rparr>))"
proof (cases msgs)
  case Nil
  then show ?thesis
    by (auto simp: channel_at_def producer_at_def consumer_at_def Produce_on_def Consume_on_def)
next
  case (Cons x xs)
  show ?thesis
    by (rule Produce_on_ok [where p = 0]) (simp_all add: Consume_on_def consumer_at_def Cons)
qed

lemma channel_steps:
  "channel_at msgs s \<Longrightarrow> run_ops channel_choice choices s = Inr t \<Longrightarrow>
     channel_at msgs t \<and> length (sent t) + length (received t) = length choices + (length (sent s) + length (received s))"
proof (induction choices arbitrary: s)
  case (Cons i choices)
  then obtain u where u: "channel_choice i s = Inr u" "run_ops channel_choice choices u = Inr t"
    by (auto simp: bind_res_Inr_iff)
  then have "i < length (posted s)" by (auto simp: channel_choice_def split: if_splits)
  from channel_choice_ok [OF Cons.prems(1) this] u(1) have
    "channel_at msgs u" "length (sent u) + length (received u) = Suc (length (sent s) + length (received s))" by auto
  with Cons.IH [OF _ u(2)] show ?case by simp
qed simp

lemma channel_at_logs:
  assumes "channel_at msgs s"
  shows "\<exists>p q. p \<le> length msgs \<and> q \<le> length msgs \<and> p \<le> Suc q \<and> q \<le> Suc p
    \<and> sent s = map sent_text (take p msgs) \<and> received s = map received_text (take q msgs)
    \<and> (posted s = [] \<longrightarrow> p = length msgs \<and> q = length msgs)"
proof -
  obtain k where k: "producer_at msgs k s" "consumer_at msgs k s" "\<not> (send_op s \<noteq> None \<and> recv_op s)"
    using assms by (auto simp: channel_at_def)
  from k(1) obtain p where p: "p \<le> length msgs" "sent s = map sent_text (take p msgs)"
    and p_at: "if p < length msgs \<and> k = p then send_op s = Some (msgs ! p) \<and> sends (posted s) = []
        else if p < length msgs then k = Suc p \<and> send_op s = None \<and> sends (posted s) = [msgs ! p]
        else k = p \<and> send_op s = None \<and> sends (posted s) = []"
    unfolding producer_at_def by blast
  from k(2) obtain q where q: "q \<le> length msgs" "received s = map received_text (take q msgs)"
    and q_at: "if q < length msgs \<and> k = q then recv_op s \<and> recvs (posted s) = []
        else if q < length msgs then k = Suc q \<and> \<not> recv_op s \<and> recvs (posted s) = [msgs ! q]
        else k = q \<and> \<not> recv_op s \<and> recvs (posted s) = []"
    unfolding consumer_at_def by blast
  have kp: "k = p \<or> k = Suc p" "posted s = [] \<longrightarrow> k = p \<and> (p < length msgs \<longrightarrow> send_op s \<noteq> None)"
    using p_at by (auto split: if_splits)
  have kq: "k = q \<or> k = Suc q" "posted s = [] \<longrightarrow> k = q \<and> (q < length msgs \<longrightarrow> recv_op s)"
    using q_at by (auto split: if_splits)
  have "posted s = [] \<longrightarrow> p = length msgs \<and> q = length msgs"
    using p(1) q(1) kp(2) kq(2) k(3) by (metis le_neq_implies_less)
  moreover have "p \<le> Suc q" "q \<le> Suc p" using kp(1) kq(1) by auto
  ultimately show ?thesis using p q by blast
qed

text \<open>
  C30. For every count and every order in which the executor runs the posted completions, the two loops over
  the range print what was sent and what was received in order, never more than one apart; every step
  prints one line, so there are at most twice as many as values; and when nothing is posted any more both
  loops have ended with all values. A count below 1 ends at once.
\<close>

theorem channel_delivers:
  assumes "channel_Test0 n = Some (Inr s)" "run_ops channel_choice choices s = Inr t"
  shows "let msgs = map (\<lambda>i. ''value = '' @ show_int i) [0..sint n - 1] in
    length choices \<le> 2 * length msgs
    \<and> prefix (sent t) (map sent_text msgs) \<and> prefix (received t) (map received_text msgs)
    \<and> length (sent t) \<le> Suc (length (received t)) \<and> length (received t) \<le> Suc (length (sent t))
    \<and> (posted t = [] \<longrightarrow> length (sent t) = length msgs \<and> length (received t) = length msgs)"
proof -
  obtain vs where vs: "range_for True (Range2 0 n) = Some (Inr vs)" "map (val True) vs = [0..sint n - 1]"
    using range_for_unit_step [where 'w = 32, of True 0 n] by (auto simp: val_def)
  define msgs where "msgs = map (\<lambda>i. ''value = '' @ show_int i) [0..sint n - 1]"
  have texts: "map value_text vs = msgs"
    unfolding msgs_def vs(2) [symmetric] by (simp add: value_text_def val_def)
  then have len: "length vs = length msgs" by (metis length_map)
  have s: "s = Produce_on (Consume_on \<lparr>to_send = msgs, to_recv = length msgs, send_op = None, recv_op = False,
     posted = [], sent = [], received = []\<rparr>)"
    using assms(1) vs(1) by (simp add: channel_Test0_def Range1_def texts len)
  have none: "sent s = []" "received s = []"
    by (simp_all add: s Produce_on_def Consume_on_def Let_def split: list.split nat.split option.split)
  from channel_steps [OF _ assms(2), of msgs] channel_started [of msgs] s none have
    t: "channel_at msgs t" "length choices = length (sent t) + length (received t)" by simp_all
  from channel_at_logs [OF t(1)] obtain p q where "p \<le> length msgs" "q \<le> length msgs" "p \<le> Suc q" "q \<le> Suc p"
    "sent t = map sent_text (take p msgs)" "received t = map received_text (take q msgs)"
    "posted t = [] \<longrightarrow> p = length msgs \<and> q = length msgs" by blast
  then have "length choices \<le> 2 * length msgs
    \<and> prefix (sent t) (map sent_text msgs) \<and> prefix (received t) (map received_text msgs)
    \<and> length (sent t) \<le> Suc (length (received t)) \<and> length (received t) \<le> Suc (length (sent t))
    \<and> (posted t = [] \<longrightarrow> length (sent t) = length msgs \<and> length (received t) = length msgs)"
    using t(2) by (simp add: map_mono_prefix take_is_prefix)
  then show ?thesis unfolding Let_def msgs_def .
qed

text \<open>And it never gets stuck before: while a completion is posted, running any of them succeeds.\<close>

lemma channel_never_stuck:
  assumes "admissible (\<lambda>i s. i < length (posted s)) channel_choice choices s" "channel_Test0 n = Some (Inr s)"
  shows "\<exists>t. run_ops channel_choice choices s = Inr t"
proof -
  obtain vs where "s = Produce_on (Consume_on \<lparr>to_send = map value_text vs, to_recv = length (map value_text vs), send_op = None,
      recv_op = False, posted = [], sent = [], received = []\<rparr>)"
    using assms(2) by (auto simp: channel_Test0_def bind_res_Inr_iff)
  with channel_started [of "map value_text vs"] have "channel_at (map value_text vs) s" by (simp only:)
  from channel_program.run_safe [OF this assms(1)] show ?thesis by blast
qed

theorem channel_delivers_witness:
  "\<exists>s t. channel_Test0 2 = Some (Inr s) \<and> run_ops channel_choice [1, 0, 0, 0] s = Inr t
    \<and> length (sent t) = 2 \<and> length (received t) = 2"
proof -
  obtain vs where vs: "range_for True (Range1 (2 :: 32 word)) = Some (Inr vs)" "map (val True) vs = [0..1]"
    using range_for_unit_step [where 'w = 32, of True 0 2] by (auto simp: val_def Range1_def)
  have "[0..1] = [0, 1 :: int]" by code_simp
  then obtain a b where ab: "vs = [a, b]" using vs(2) by auto
  obtain s where s: "channel_Test0 2 = Some (Inr s)" using vs(1) by (simp add: channel_Test0_def)
  have "\<exists>t. run_ops channel_choice [1, 0, 0, 0] s = Inr t \<and> posted t = []"
    using s vs(1) by (auto simp: channel_Test0_def ab channel_choice_def Produce_on_def Consume_on_def Let_def)
  then obtain t where t: "run_ops channel_choice [1, 0, 0, 0] s = Inr t" "posted t = []" by blast
  from channel_delivers [OF s t(1)] t(2) have "length (sent t) = 2" "length (received t) = 2"
    by (simp_all add: Let_def)
  with s t(1) show ?thesis by blast
qed

end
