(* ===== verification/Grpc_Dummy.thy ===== *)
theory Grpc_Dummy
  imports Prelude
begin

text \<open>
  \<^verbatim>\<open>src/protos/grpc_dummy/examples/{server,client}.cpp\<close>: the four methods of \<^verbatim>\<open>DummyService\<close> and the
  client that calls them. gRPC and the generated stub are outside the repository. On the server
  a stream is the list of the requests it delivers and the list of responses written. The client takes a
  record \<open>stub\<close> of what the calls answer; \<open>local_stub\<close> is the one whose transport delivers every
  message to the handlers of the server, once and in order. Printed text is a string with the
  character 10 for \<^verbatim>\<open>std::endl\<close>.
\<close>

section \<open>The service\<close>

datatype rpc_status = Status_OK | Status_Error int string

text \<open>The result of a method is its status and the message of the response, empty if never set.\<close>

definition hello :: "string \<Rightarrow> string" where
  "hello name = ''Hello, '' @ name"

definition Srv_SayHelloUnary :: "string \<Rightarrow> rpc_status \<times> string" where
  "Srv_SayHelloUnary name = (Status_OK, hello name)"

fun read_names :: "string list \<Rightarrow> string \<Rightarrow> string" where
  "read_names [] names = names"
| "read_names (request # requests) names = read_names requests (names @ request @ '', '')"

text \<open>\<^verbatim>\<open>names.erase(names.length() - 2)\<close> drops the last two characters.\<close>

definition Srv_SayHelloClientStreaming :: "string list \<Rightarrow> rpc_status \<times> string" where
  "Srv_SayHelloClientStreaming requests =
     (let names = read_names requests []
      in (Status_OK, if names \<noteq> [] then hello (take (length names - 2) names) else []))"

definition Srv_SayHelloServerStreaming :: "string \<Rightarrow> rpc_status \<times> string list" where
  "Srv_SayHelloServerStreaming name =
     (Status_OK, map (\<lambda>i. ''Hello, '' @ name @ '' ('' @ show_nat (i + 1) @ '')'') [0..<3])"

fun bidi_loop :: "string list \<Rightarrow> string list \<Rightarrow> string list" where
  "bidi_loop [] responses = responses"
| "bidi_loop (request # requests) responses = bidi_loop requests (responses @ [hello request])"

definition Srv_SayHelloBidiStreaming :: "string list \<Rightarrow> rpc_status \<times> string list" where
  "Srv_SayHelloBidiStreaming requests = (Status_OK, bidi_loop requests [])"

section \<open>The client\<close>

text \<open>
  \<open>stub_write sent request\<close>: whether \<^verbatim>\<open>Write\<close> succeeds after the requests \<open>sent\<close>.
  \<open>stub_reads name\<close>: the messages that \<^verbatim>\<open>Read\<close> delivers before it returns false, and the status.
  \<open>stub_bidi_read sent n\<close>: the message that \<^verbatim>\<open>Read\<close> delivers after the requests \<open>sent\<close> and \<open>n\<close> reads, if it succeeds.
\<close>

record stub =
  stub_unary :: "string \<Rightarrow> rpc_status \<times> string"
  stub_write :: "string list \<Rightarrow> string \<Rightarrow> bool"
  stub_finish :: "string list \<Rightarrow> rpc_status \<times> string"
  stub_reads :: "string \<Rightarrow> string list \<times> rpc_status"
  stub_bidi_write :: "string list \<Rightarrow> string \<Rightarrow> bool"
  stub_bidi_read :: "string list \<Rightarrow> nat \<Rightarrow> string option"
  stub_bidi_finish :: "string list \<Rightarrow> rpc_status"

definition endl :: string where "endl = [CHR 0x0A]"

fun error_line :: "rpc_status \<Rightarrow> string" where
  "error_line Status_OK = []"
| "error_line (Status_Error code msg) = ''Error: '' @ show_int code @ '': '' @ msg @ endl"

text \<open>The calls return their result and what they have printed.\<close>

definition SayHelloUnary :: "stub \<Rightarrow> string \<Rightarrow> string \<times> string" where
  "SayHelloUnary st name =
     (let (status, message) = stub_unary st name
      in case status of Status_OK \<Rightarrow> (message, []) | _ \<Rightarrow> (''RPC failed'', error_line status))"

fun write_names :: "stub \<Rightarrow> string list \<Rightarrow> string list \<Rightarrow> string list" where
  "write_names st [] requests = requests"
| "write_names st (name # names) requests =
     (if stub_write st requests name then write_names st names (requests @ [name]) else requests)"

definition SayHelloClientStreaming :: "stub \<Rightarrow> string list \<Rightarrow> string \<times> string" where
  "SayHelloClientStreaming st names =
     (let (status, message) = stub_finish st (write_names st names [])
      in case status of Status_OK \<Rightarrow> (message, []) | _ \<Rightarrow> (''RPC failed'', error_line status))"

fun print_lines :: "string list \<Rightarrow> string" where
  "print_lines [] = []"
| "print_lines (message # messages) = message @ endl @ print_lines messages"

definition SayHelloServerStreaming :: "stub \<Rightarrow> string \<Rightarrow> string" where
  "SayHelloServerStreaming st name =
     (let (messages, status) = stub_reads st name
      in print_lines messages @ error_line status)"

text \<open>The results of \<^verbatim>\<open>Write\<close> and \<^verbatim>\<open>Read\<close> are ignored; a failed read leaves the fresh response empty.\<close>

fun bidi_names :: "stub \<Rightarrow> string list \<Rightarrow> string list \<Rightarrow> nat \<Rightarrow> string \<Rightarrow> string list \<times> string" where
  "bidi_names st [] requests n out = (requests, out)"
| "bidi_names st (name # names) requests n out =
     (let requests = (if stub_bidi_write st requests name then requests @ [name] else requests);
          response = (case stub_bidi_read st requests n of None \<Rightarrow> [] | Some message \<Rightarrow> message)
      in bidi_names st names requests (Suc n) (out @ response @ endl))"

definition SayHelloBidiStreaming :: "stub \<Rightarrow> string list \<Rightarrow> string" where
  "SayHelloBidiStreaming st names =
     (let (requests, out) = bidi_names st names [] 0 []
      in out @ error_line (stub_bidi_finish st requests))"

definition client_main :: "stub \<Rightarrow> int \<times> string" where
  "client_main st =
     (let name = ''Alice'';
          (response, out1) = SayHelloUnary st name;
          out1 = out1 @ ''Unary response: '' @ response @ endl;
          names = [''Bob'', ''Charlie'', ''Dave''];
          (response, out2) = SayHelloClientStreaming st names;
          out2 = out2 @ ''Client streaming response: '' @ response @ endl;
          name = ''Eve'';
          out3 = ''Server streaming response:'' @ endl @ SayHelloServerStreaming st name;
          names = [''Frank'', ''Grace'', ''Henry''];
          out4 = ''Bidirectional streaming response:'' @ endl @ SayHelloBidiStreaming st names
      in (0, out1 @ out2 @ out3 @ out4))"

section \<open>Client and server together\<close>

text \<open>
  The stub of a connection that loses nothing: the handlers of the server run on what the client has
  written. After \<open>n\<close> reads the next message of the stream is the one with index \<open>n\<close>.
\<close>

definition local_stub :: stub where
  "local_stub =
     \<lparr>stub_unary = Srv_SayHelloUnary, stub_write = (\<lambda>_ _. True), stub_finish = Srv_SayHelloClientStreaming,
      stub_reads = prod.swap \<circ> Srv_SayHelloServerStreaming, stub_bidi_write = (\<lambda>_ _. True),
      stub_bidi_read = (\<lambda>requests n. let responses = snd (Srv_SayHelloBidiStreaming requests)
         in if n < length responses then Some (responses ! n) else None),
      stub_bidi_finish = fst \<circ> Srv_SayHelloBidiStreaming\<rparr>"

fun comma_separated :: "string list \<Rightarrow> string" where
  "comma_separated [] = []"
| "comma_separated [name] = name"
| "comma_separated (name # names) = name @ '', '' @ comma_separated names"

lemma read_names_append: "read_names requests names = names @ read_names requests []"
proof (induction requests arbitrary: names)
  case Nil
  then show ?case by simp
next
  case (Cons r rs)
  show ?case
    using Cons.IH [of "names @ r @ '', ''"] Cons.IH [of "r @ '', ''"] by simp
qed

lemma read_names_separated:
  "names \<noteq> [] \<Longrightarrow> read_names names [] = comma_separated names @ '', ''"
proof (induction names rule: comma_separated.induct)
  case (3 n m ns)
  then show ?case using read_names_append [of "m # ns" "n @ '', ''"] by simp
qed simp_all

lemma bidi_loop_map: "bidi_loop requests responses = responses @ map hello requests"
  by (induction requests arbitrary: responses) simp_all

lemma write_names_all: "write_names local_stub names requests = requests @ names"
  by (induction names arbitrary: requests) (simp_all add: local_stub_def)

lemma print_lines_append: "print_lines (xs @ ys) = print_lines xs @ print_lines ys"
  by (induction xs) simp_all

lemma bidi_names_local:
  "bidi_names local_stub names requests (length requests) out
   = (requests @ names, out @ print_lines (map hello names))"
proof (induction names arbitrary: requests out)
  case Nil
  then show ?case by simp
next
  case (Cons name names)
  have read: "stub_bidi_read local_stub (requests @ [name]) (length requests) = Some (hello name)"
    and ok: "stub_bidi_write local_stub requests name"
    by (simp_all add: local_stub_def Srv_SayHelloBidiStreaming_def bidi_loop_map nth_append)
  show ?case
    using Cons.IH [of "requests @ [name]" "out @ hello name @ endl"] read ok by simp
qed

lemma unary_local: "SayHelloUnary local_stub name = (''Hello, '' @ name, [])"
  by (simp add: SayHelloUnary_def local_stub_def Srv_SayHelloUnary_def hello_def)

lemma client_streaming_local:
  "SayHelloClientStreaming local_stub names
   = (if names = [] then [] else ''Hello, '' @ comma_separated names, [])"
proof -
  have "stub_finish local_stub = Srv_SayHelloClientStreaming" by (simp add: local_stub_def)
  then show ?thesis
    by (simp add: SayHelloClientStreaming_def write_names_all Srv_SayHelloClientStreaming_def
        read_names_separated hello_def Let_def)
qed

lemma server_streaming_local:
  "SayHelloServerStreaming local_stub name
   = print_lines [''Hello, '' @ name @ '' (1)'', ''Hello, '' @ name @ '' (2)'', ''Hello, '' @ name @ '' (3)'']"
proof -
  have "show_nat (Suc 0) = ''1''" "show_nat (Suc (Suc 0)) = ''2''" "show_nat (Suc (Suc (Suc 0))) = ''3''"
    by (simp_all add: show_nat.simps numeral_2_eq_2 [symmetric] numeral_3_eq_3 [symmetric])
  then show ?thesis
    by (simp add: SayHelloServerStreaming_def local_stub_def Srv_SayHelloServerStreaming_def upt_rec)
qed

lemma bidi_streaming_local:
  "SayHelloBidiStreaming local_stub names = print_lines (map (\<lambda>name. ''Hello, '' @ name) names)"
proof -
  have "stub_bidi_finish local_stub requests = Status_OK" for requests
    by (simp add: local_stub_def Srv_SayHelloBidiStreaming_def)
  with bidi_names_local [of names "[]" "[]"] show ?thesis
    by (simp add: SayHelloBidiStreaming_def hello_def cong: map_cong)
qed

lemmas calls_local = unary_local client_streaming_local server_streaming_local bidi_streaming_local

text \<open>
  Over a connection that loses nothing, the four calls of the client return or print what the service
  promises for any names: one greeting, one greeting of all the names separated by commas (an empty
  message for no name), three numbered greetings, and one greeting for every name in order.
\<close>
theorem hello_over_local_stub:
  "SayHelloUnary local_stub name = (''Hello, '' @ name, [])
   \<and> SayHelloClientStreaming local_stub names
      = (if names = [] then [] else ''Hello, '' @ comma_separated names, [])
   \<and> SayHelloServerStreaming local_stub name
      = print_lines [''Hello, '' @ name @ '' (1)'', ''Hello, '' @ name @ '' (2)'', ''Hello, '' @ name @ '' (3)'']
   \<and> SayHelloBidiStreaming local_stub names = print_lines (map (\<lambda>name. ''Hello, '' @ name) names)"
  by (intro conjI calls_local)

text \<open>The whole run of the client: what it prints.\<close>

lemma client_main_local:
  "client_main local_stub = (0, print_lines
     [''Unary response: Hello, Alice'', ''Client streaming response: Hello, Bob, Charlie, Dave'',
      ''Server streaming response:'', ''Hello, Eve (1)'', ''Hello, Eve (2)'', ''Hello, Eve (3)'',
      ''Bidirectional streaming response:'', ''Hello, Frank'', ''Hello, Grace'', ''Hello, Henry''])"
  by (simp add: client_main_def calls_local)

text \<open>
  Whatever the connection does, a call that fails prints one line with the code and the message,
  the two calls with a result return \<^verbatim>\<open>RPC failed\<close>, and the client exits with 0; the bidirectional
  call prints a line for every name even when each write and read fails.
\<close>
lemma failing_calls:
  "fst (stub_unary st name) = Status_Error code msg \<Longrightarrow>
     SayHelloUnary st name = (''RPC failed'', ''Error: '' @ show_int code @ '': '' @ msg @ endl)"
  "fst (stub_finish st (write_names st names [])) = Status_Error code msg \<Longrightarrow>
     SayHelloClientStreaming st names = (''RPC failed'', ''Error: '' @ show_int code @ '': '' @ msg @ endl)"
  "fst (client_main st) = 0"
  by (simp_all add: SayHelloUnary_def SayHelloClientStreaming_def client_main_def split_beta Let_def)

lemma bidi_names_dead:
  "\<forall>requests n. stub_bidi_read st requests n = None \<Longrightarrow> \<forall>requests name. \<not> stub_bidi_write st requests name \<Longrightarrow>
     bidi_names st names requests n out = (requests, out @ print_lines (map (\<lambda>_. []) names))"
  by (induction names arbitrary: n out) simp_all

end
