(* ===== verification/Mem_Pools.thy ===== *)
theory Mem_Pools
  imports Machine
begin

text \<open>
  The object pools of \<^verbatim>\<open>src/random/test_mempools.cpp\<close> (\<^verbatim>\<open>Pool\<close> and \<^verbatim>\<open>PoolForShared\<close>) and of
  \<^verbatim>\<open>src/boost_test/common/test_spsc_queue_0.cpp\<close> (\<^verbatim>\<open>Pool\<close> of messages). An object is the
  number of its allocation. A handle is the \<^verbatim>\<open>unique_ptr\<close>, or the last \<^verbatim>\<open>shared_ptr\<close>, to an object;
  \<open>handles\<close> are the ones a client holds, in the order they were given out.
\<close>

section \<open>The growing pools\<close>

text \<open>\<open>pool_alive\<close> is false once \<^verbatim>\<open>~Pool\<close> has run; \<open>live\<close> are the objects that are not deleted.\<close>

record pool =
  pool_alive :: bool
  pool_data :: "nat list"
  created :: nat
  live :: "nat set"
  handles :: "nat list"

definition new_pool :: pool where
  "new_pool = \<lparr>pool_alive = True, pool_data = [], created = 0, live = {}, handles = []\<rparr>"

text \<open>\<^verbatim>\<open>data_.push(new T{})\<close>\<close>

definition push_new :: "pool \<Rightarrow> pool" where
  "push_new p = p\<lparr>pool_data := pool_data p @ [created p], live := insert (created p) (live p),
     created := Suc (created p)\<rparr>"

definition AllocateAndConstruct :: "pool \<Rightarrow> fault + (nat \<times> pool)" where
  "AllocateAndConstruct p =
     (if \<not> pool_alive p then Inl (Undefined ''call on a destroyed pool'')
      else let p = (if pool_data p = [] then push_new p else p);
               front = hd (pool_data p)
           in Inr (front, p\<lparr>pool_data := tl (pool_data p), handles := handles p @ [front]\<rparr>))"

text \<open>The deleter of a handle that ends.\<close>

definition ReturnToPool :: "nat \<Rightarrow> pool \<Rightarrow> fault + pool" where
  "ReturnToPool ptr p =
     (let p = p\<lparr>handles := remove1 ptr (handles p)\<rparr>
      in if \<not> pool_alive p then Inl (Undefined ''push to the queue of a destroyed pool'')
         else Inr (p\<lparr>pool_data := pool_data p @ [ptr]\<rparr>))"

text \<open>\<^verbatim>\<open>~Pool\<close> deletes what has been returned.\<close>

fun delete_all :: "nat list \<Rightarrow> pool \<Rightarrow> fault + pool" where
  "delete_all [] p = Inr (p\<lparr>pool_data := []\<rparr>)"
| "delete_all (front # data) p =
     (if front \<in> live p then delete_all data (p\<lparr>live := live p - {front}\<rparr>)
      else Inl (Undefined ''delete of a deleted object''))"

definition Pool_destroy :: "pool \<Rightarrow> fault + pool" where
  "Pool_destroy p = bind_res (delete_all (pool_data p) p) (\<lambda>p. Inr (p\<lparr>pool_alive := False\<rparr>))"

text \<open>\<^verbatim>\<open>PoolForShared\<close> has no destructor of its own: the queue goes and the objects stay.\<close>

definition PoolForShared_destroy :: "pool \<Rightarrow> pool" where
  "PoolForShared_destroy p = p\<lparr>pool_alive := False, pool_data := []\<rparr>"

text \<open>A client takes handles, ends one of those it holds, and destroys the pool when it holds none.\<close>

datatype pool_op = Take | Give nat | End_pool

fun pool_step :: "pool_op \<Rightarrow> pool \<Rightarrow> fault + pool" where
  "pool_step Take p = map_sum id snd (AllocateAndConstruct p)"
| "pool_step (Give i) p = ReturnToPool (handles p ! i) p"
| "pool_step End_pool p = Pool_destroy p"

fun pool_pre :: "pool_op \<Rightarrow> pool \<Rightarrow> bool" where
  "pool_pre Take p \<longleftrightarrow> pool_alive p"
| "pool_pre (Give i) p \<longleftrightarrow> i < length (handles p)"
| "pool_pre End_pool p \<longleftrightarrow> pool_alive p \<and> handles p = []"

definition pool_inv :: "pool \<Rightarrow> bool" where
  "pool_inv p \<longleftrightarrow>
     distinct (pool_data p @ handles p) \<and> set (pool_data p @ handles p) = live p
     \<and> (if pool_alive p then live p = {..<created p} else live p = {} \<and> handles p = [])"

text \<open>The abstract pool counts: the handles out now, and the most that were out at once.\<close>

fun count_step :: "pool_op \<Rightarrow> nat \<times> nat \<Rightarrow> nat \<times> nat" where
  "count_step Take (n, peak) = (Suc n, max peak (Suc n))"
| "count_step (Give _) (n, peak) = (n - 1, peak)"
| "count_step End_pool (n, peak) = (n, peak)"

definition pool_abs :: "pool \<Rightarrow> nat \<times> nat" where
  "pool_abs p = (length (handles p), created p)"

lemma pool_size:
  assumes "pool_inv p" "pool_alive p"
  shows "length (pool_data p) + length (handles p) = created p"
  using assms distinct_card [of "pool_data p @ handles p"] by (simp add: pool_inv_def)

lemma delete_all_ok:
  "distinct data \<Longrightarrow> set data \<subseteq> live p \<Longrightarrow>
     delete_all data p = Inr (p\<lparr>live := live p - set data, pool_data := []\<rparr>)"
proof (induction data arbitrary: p)
  case Nil
  then show ?case by simp
next
  case (Cons x xs)
  let ?q = "p\<lparr>live := live p - {x}\<rparr>"
  have "distinct xs" "set xs \<subseteq> live ?q" using Cons.prems by auto
  from Cons.IH [OF this] have "delete_all xs ?q = Inr (?q\<lparr>live := live ?q - set xs, pool_data := []\<rparr>)" .
  moreover have "live ?q - set xs = live p - set (x # xs)" by auto
  ultimately show ?case using Cons.prems(2) by simp
qed

lemma Take_ok:
  assumes "pool_inv p" "pool_alive p"
  shows "\<exists>x p'. AllocateAndConstruct p = Inr (x, p') \<and> x \<notin> set (handles p) \<and> x \<in> live p'
    \<and> pool_inv p' \<and> pool_alive p' \<and> handles p' = handles p @ [x]
    \<and> created p' = max (created p) (Suc (length (handles p)))"
proof (cases "pool_data p")
  case Nil
  with assms have "distinct (handles p)" "set (handles p) = {..<created p}" "live p = {..<created p}"
    by (simp_all add: pool_inv_def)
  moreover have "length (handles p) = created p"
    using pool_size [OF assms] Nil by simp
  ultimately show ?thesis
    using assms(2) Nil by (simp add: AllocateAndConstruct_def push_new_def pool_inv_def Let_def lessThan_Suc)
next
  case (Cons x xs)
  then have "length (handles p) < created p" using pool_size [OF assms] by simp
  moreover have "distinct ((x # xs) @ handles p)" "set ((x # xs) @ handles p) = live p" "live p = {..<created p}"
    using assms Cons by (simp_all add: pool_inv_def)
  moreover from this have "x < created p" by auto
  moreover have "AllocateAndConstruct p = Inr (x, p\<lparr>pool_data := xs, handles := handles p @ [x]\<rparr>)"
    using assms(2) Cons by (simp add: AllocateAndConstruct_def)
  ultimately show ?thesis
    using assms(2) by (simp add: pool_inv_def)
qed

lemma Give_ok:
  assumes "pool_inv p" "i < length (handles p)"
  shows "\<exists>p'. ReturnToPool (handles p ! i) p = Inr p' \<and> pool_inv p'
    \<and> length (handles p') = length (handles p) - 1 \<and> created p' = created p"
proof -
  have mem: "handles p ! i \<in> set (handles p)" using assms(2) by simp
  have alive: "pool_alive p" using assms by (auto simp: pool_inv_def split: if_splits)
  have "set (remove1 (handles p ! i) (handles p)) = set (handles p) - {handles p ! i}"
    using assms(1) by (simp add: pool_inv_def set_remove1_eq)
  moreover have "distinct (pool_data p)" "distinct (handles p)" "set (pool_data p) \<inter> set (handles p) = {}"
    "set (pool_data p) \<union> set (handles p) = live p" "live p = {..<created p}"
    using assms(1) alive by (simp_all add: pool_inv_def)
  ultimately show ?thesis
    using alive mem by (auto simp: ReturnToPool_def pool_inv_def Let_def length_remove1)
qed

lemma End_ok:
  assumes "pool_inv p" "pool_alive p" "handles p = []"
  shows "\<exists>p'. Pool_destroy p = Inr p' \<and> pool_inv p' \<and> live p' = {} \<and> handles p' = [] \<and> created p' = created p"
  using assms delete_all_ok [of "pool_data p" p] by (simp add: Pool_destroy_def pool_inv_def)

interpretation pool: refined_machine pool_step pool_pre pool_inv pool_abs count_step
proof
  fix p op
  assume "pool_inv p" "pool_pre op p"
  then show "\<exists>p'. pool_step op p = Inr p' \<and> pool_inv p'"
    by (cases op) (use Take_ok [of p] Give_ok [of p] End_ok [of p] in fastforce)+
next
  fix p op p'
  assume "pool_inv p" "pool_pre op p" "pool_step op p = Inr p'"
  then show "pool_abs p' = count_step op (pool_abs p)"
    by (cases op) (use Take_ok [of p] Give_ok [of p] End_ok [of p] in \<open>fastforce simp: pool_abs_def\<close>)+
qed

text \<open>
  C35. A client that ends its handles before the pool never gets an object that is in use or
  deleted, whatever it takes and gives back; the pool never creates more objects than were in use at once,
  and its destructor deletes each of them once.
\<close>
theorem pool_reuses:
  assumes "admissible pool_pre pool_step ops new_pool"
  shows "\<exists>p. run_ops pool_step ops new_pool = Inr p
    \<and> distinct (handles p) \<and> set (handles p) \<subseteq> live p
    \<and> (length (handles p), created p) = fold count_step ops (0, 0)
    \<and> (pool_alive p \<longrightarrow> (\<exists>x p'. AllocateAndConstruct p = Inr (x, p') \<and> x \<notin> set (handles p) \<and> x \<in> live p'))
    \<and> (\<not> pool_alive p \<longrightarrow> live p = {})"
proof -
  have "pool_inv new_pool" by (simp add: pool_inv_def new_pool_def)
  from pool.run_refines [OF this assms] obtain p where
    p: "run_ops pool_step ops new_pool = Inr p" "pool_inv p" "pool_abs p = fold count_step ops (0, 0)"
    by (auto simp: pool_abs_def new_pool_def)
  with Take_ok [of p] show ?thesis by (auto simp: pool_inv_def pool_abs_def)
qed

lemma pool_reuses_witness:
  "\<exists>p. run_ops pool_step [Take, Take, Give 0, Take, Take, Give 2, Give 1, Give 0, End_pool] new_pool = Inr p
     \<and> live p = {} \<and> created p = 3"
proof -
  have "admissible pool_pre pool_step [Take, Take, Give 0, Take, Take, Give 2, Give 1, Give 0, End_pool] new_pool"
    by (simp add: new_pool_def AllocateAndConstruct_def ReturnToPool_def push_new_def Pool_destroy_def numeral_2_eq_2)
  from pool_reuses [OF this] show ?thesis
    by (auto simp: new_pool_def AllocateAndConstruct_def ReturnToPool_def push_new_def Pool_destroy_def numeral_2_eq_2)
qed

text \<open>A handle that outlives the pool is undefined behaviour; \<^verbatim>\<open>PoolForShared\<close> deletes nothing at all.\<close>

lemma handle_outlives_pool:
  "\<not> pool_alive p \<Longrightarrow> ReturnToPool x p = Inl (Undefined ''push to the queue of a destroyed pool'')"
  by (simp add: ReturnToPool_def)

lemma shared_pool_leaks: "live (PoolForShared_destroy p) = live p"
  by (simp add: PoolForShared_destroy_def)


section \<open>The pool of messages\<close>

text \<open>
  \<^verbatim>\<open>data_\<close> of the message pool: for each message its flag \<^verbatim>\<open>in_use_\<close>, and \<open>None\<close> for a null pointer.
  \<^verbatim>\<open>emplace_back()\<close> appends a null pointer, which the next line dereferences.
\<close>

type_synonym msg_pool = "bool option list"

definition MsgPool :: msg_pool where
  "MsgPool = replicate 100 (Some False)"

fun find_free :: "nat \<Rightarrow> msg_pool \<Rightarrow> fault + nat option" where
  "find_free i [] = Inr None"
| "find_free i (None # data) = Inl (Undefined ''null message'')"
| "find_free i (Some used # data) = (if \<not> used then Inr (Some i) else find_free (Suc i) data)"

definition MsgPool_Allocate :: "msg_pool \<Rightarrow> fault + (nat \<times> msg_pool)" where
  "MsgPool_Allocate data =
     bind_res (find_free 0 data) (\<lambda>found. case found of
         Some i \<Rightarrow> Inr (i, data[i := Some True])
       | None \<Rightarrow>
           let data = data @ [None]
           in (case last data of
                 None \<Rightarrow> Inl (Undefined ''null message'')
               | Some _ \<Rightarrow> Inr (length data - 1, data[length data - 1 := Some True])))"

text \<open>\<^verbatim>\<open>IMsgDeleter\<close> of a handle to message \<open>i\<close>.\<close>

definition IMsgDeleter :: "nat \<Rightarrow> msg_pool \<Rightarrow> msg_pool" where
  "IMsgDeleter i data = data[i := Some False]"

datatype msg_op = Acquire | Drop nat

fun msg_step :: "msg_op \<Rightarrow> msg_pool \<Rightarrow> fault + msg_pool" where
  "msg_step Acquire data = map_sum id snd (MsgPool_Allocate data)"
| "msg_step (Drop i) data = Inr (IMsgDeleter i data)"

definition used :: "msg_pool \<Rightarrow> nat set" where
  "used data = {i. i < length data \<and> data ! i = Some True}"

fun msg_pre :: "msg_op \<Rightarrow> msg_pool \<Rightarrow> bool" where
  "msg_pre Acquire data \<longleftrightarrow> Some False \<in> set data"
| "msg_pre (Drop i) data \<longleftrightarrow> i < length data \<and> data ! i = Some True"

definition msg_inv :: "msg_pool \<Rightarrow> bool" where
  "msg_inv data \<longleftrightarrow> length data = 100 \<and> None \<notin> set data"

text \<open>The abstract pool is the set of the messages in use; it gives out the first that is not.\<close>

definition first_free :: "nat set \<Rightarrow> nat" where
  "first_free A = hd (filter (\<lambda>i. i \<notin> A) [0..<100])"

fun set_step :: "msg_op \<Rightarrow> nat set \<Rightarrow> nat set" where
  "set_step Acquire A = insert (first_free A) A"
| "set_step (Drop i) A = A - {i}"

lemma find_free_none:
  "None \<notin> set data \<Longrightarrow> Some False \<notin> set data \<Longrightarrow> find_free k data = Inr None"
proof (induction data arbitrary: k)
  case (Cons x xs)
  then show ?case by (cases x) auto
qed simp

lemma find_free_first:
  "None \<notin> set data \<Longrightarrow> Some False \<in> set data \<Longrightarrow>
     find_free k data = Inr (Some (k + hd (filter (\<lambda>i. data ! i = Some False) [0..<length data])))
     \<and> filter (\<lambda>i. data ! i = Some False) [0..<length data] \<noteq> []"
proof (induction data arbitrary: k)
  case Nil
  then show ?case by simp
next
  case (Cons x xs)
  have upt: "[0..<length (x # xs)] = 0 # map Suc [0..<length xs]"
    by (simp add: map_Suc_upt upt_conv_Cons del: upt_Suc)
  show ?case
  proof (cases "x = Some False")
    case True
    then show ?thesis unfolding upt by (simp del: upt_Suc map_Suc_upt)
  next
    case False
    then obtain y where y: "x = Some y" "y" using Cons.prems(1) by (cases x) auto
    with Cons have IH: "find_free (Suc k) xs
        = Inr (Some (Suc k + hd (filter (\<lambda>i. xs ! i = Some False) [0..<length xs])))"
      "filter (\<lambda>i. xs ! i = Some False) [0..<length xs] \<noteq> []" by auto
    have "filter (\<lambda>i. (x # xs) ! i = Some False) [0..<length (x # xs)]
        = map Suc (filter (\<lambda>i. xs ! i = Some False) [0..<length xs])"
      using False by (simp only: upt) (simp add: filter_map comp_def del: upt_Suc map_Suc_upt)
    with IH y show ?thesis by (simp add: hd_map del: upt_Suc)
  qed
qed

lemma unused_iff:
  assumes "msg_inv data" "i < 100"
  shows "data ! i = Some False \<longleftrightarrow> i \<notin> used data"
proof -
  have "length data = 100" "None \<notin> set data" using assms(1) by (simp_all add: msg_inv_def)
  with assms(2) have "data ! i \<noteq> None" by (metis nth_mem)
  then obtain b where "data ! i = Some b" by blast
  then show ?thesis using assms(2) \<open>length data = 100\<close> by (simp add: used_def)
qed

lemma free_indices:
  assumes "msg_inv data"
  shows "filter (\<lambda>i. data ! i = Some False) [0..<length data] = filter (\<lambda>i. i \<notin> used data) [0..<100]"
proof -
  have "length data = 100" using assms by (simp add: msg_inv_def)
  then show ?thesis
    by (intro filter_cong) (auto simp: unused_iff [OF assms])
qed

lemma Allocate_free:
  assumes "msg_inv data" "Some False \<in> set data"
  shows "MsgPool_Allocate data = Inr (first_free (used data), data[first_free (used data) := Some True])
    \<and> first_free (used data) \<notin> used data \<and> first_free (used data) < 100"
proof -
  from find_free_first [of data 0] assms have
    found: "find_free 0 data = Inr (Some (first_free (used data)))"
      "filter (\<lambda>i. i \<notin> used data) [0..<100] \<noteq> []"
    unfolding first_free_def free_indices [OF assms(1)] by (simp_all add: msg_inv_def)
  from hd_in_set [OF found(2)] have "first_free (used data) \<in> set (filter (\<lambda>i. i \<notin> used data) [0..<100])"
    unfolding first_free_def .
  with found(1) show ?thesis by (simp add: MsgPool_Allocate_def)
qed

lemma Allocate_full:
  assumes "msg_inv data" "Some False \<notin> set data"
  shows "MsgPool_Allocate data = Inl (Undefined ''null message'')"
  using assms by (simp add: MsgPool_Allocate_def find_free_none msg_inv_def)

lemma full_iff:
  assumes "msg_inv data"
  shows "Some False \<notin> set data \<longleftrightarrow> used data = {..<100}"
proof -
  have "length data = 100" using assms by (simp add: msg_inv_def)
  then have "Some False \<in> set data \<longleftrightarrow> (\<exists>i < 100. i \<notin> used data)"
    using unused_iff [OF assms] by (auto simp: in_set_conv_nth)
  moreover have "used data \<subseteq> {..<100}" using \<open>length data = 100\<close> by (auto simp: used_def)
  ultimately show ?thesis by auto
qed

lemma msg_inv_update: "msg_inv data \<Longrightarrow> msg_inv (data[i := Some b])"
  by (auto simp: msg_inv_def dest!: set_update_subset_insert [THEN subsetD])

lemma used_update:
  "i < length data \<Longrightarrow> used (data[i := Some b]) = (if b then insert i (used data) else used data - {i})"
  by (auto simp: used_def nth_list_update)

lemma msg_step_ok:
  assumes "msg_inv data" "msg_pre op data"
  shows "\<exists>data'. msg_step op data = Inr data' \<and> msg_inv data' \<and> used data' = set_step op (used data)"
proof (cases op)
  case Acquire
  with Allocate_free [OF assms(1)] assms show ?thesis
    by (simp add: msg_inv_update used_update) (simp add: msg_inv_def used_update)
next
  case (Drop i)
  with assms show ?thesis by (simp add: IMsgDeleter_def msg_inv_update used_update)
qed

interpretation messages: refined_machine msg_step msg_pre msg_inv used set_step
  by unfold_locales (use msg_step_ok in fastforce)+

text \<open>
  The message pool behaves as the set of the messages in use: it gives out the first message that is not, as
  long as there is one; with all its 100 messages in use the next allocation dereferences a null pointer.
\<close>
theorem message_pool_bounds:
  assumes "admissible msg_pre msg_step ops MsgPool"
  shows "\<exists>data. run_ops msg_step ops MsgPool = Inr data \<and> used data = fold set_step ops {}
    \<and> used data \<subseteq> {..<100}
    \<and> (if used data = {..<100} then MsgPool_Allocate data = Inl (Undefined ''null message'')
       else \<exists>i data'. MsgPool_Allocate data = Inr (i, data') \<and> i < 100 \<and> i \<notin> used data \<and> used data' = insert i (used data))"
proof -
  have init: "msg_inv MsgPool" "used MsgPool = {}"
    by (simp_all add: msg_inv_def MsgPool_def used_def)
  from messages.run_refines [OF init(1) assms] obtain data where
    data: "run_ops msg_step ops MsgPool = Inr data" "msg_inv data" "used data = fold set_step ops {}"
    by (auto simp: init(2))
  have "used data \<subseteq> {..<100}" using data(2) by (auto simp: msg_inv_def used_def)
  with data Allocate_full [OF data(2)] Allocate_free [OF data(2)] full_iff [OF data(2)] show ?thesis
    by (auto simp: used_update msg_inv_def)
qed

lemma message_pool_bounds_witness:
  "\<exists>data. run_ops msg_step [Acquire, Acquire, Drop 0] MsgPool = Inr data \<and> used data = {1}"
proof -
  have "admissible msg_pre msg_step [Acquire, Acquire, Drop 0] MsgPool"
    by (simp add: MsgPool_def MsgPool_Allocate_def numeral_eq_Suc)
  from message_pool_bounds [OF this] show ?thesis
    by (auto simp: first_free_def upt_conv_Cons)
qed

end
