(* ===== verification/Mem_Channel.thy ===== *)
theory Mem_Channel
  imports Mem_Pools
begin

text \<open>
  \<^verbatim>\<open>src/boost_test/common/test_spsc_queue_0.cpp\<close>, \<^verbatim>\<open>Test1\<close>: a producer thread that takes messages
  from three pools in turn and a consumer thread that lets a visitor visit them, joined by the
  queue of the library, which is a bounded first-in first-out queue of one producer and one
  consumer. A schedule is the list of the threads that take the next step; a step is what a
  thread does between two accesses to the queue or to a pool. A message is its pool and its place
  in it; its flag \<^verbatim>\<open>in_use_\<close> is the one of Mem_Pools.
\<close>

section \<open>Messages and visitors\<close>

datatype msg_kind = KIMsg | KMsg1 | KMsg2

type_synonym msg_ref = "msg_kind \<times> nat"

text \<open>\<^verbatim>\<open>Accept\<close> of the most derived class picks the overload of \<^verbatim>\<open>Visit\<close>, which prints its name.\<close>

fun Visit :: "msg_kind \<Rightarrow> string" where
  "Visit KIMsg = ''virtual void IVisitor::Visit(IMsg&)''"
| "Visit KMsg1 = ''virtual void IVisitor::Visit(Msg1&)''"
| "Visit KMsg2 = ''virtual void IVisitor::Visit(Msg2&)''"

definition Accept :: "msg_kind \<Rightarrow> string" where
  "Accept k = Visit k"

definition next_kind :: "64 word \<Rightarrow> msg_kind" where
  "next_kind i = (if i mod 3 = 0 then KIMsg else if i mod 3 = 1 then KMsg1 else KMsg2)"

section \<open>The two threads\<close>

text \<open>\<open>p_msg\<close> is the producer's message between its allocation and the push, \<open>c_msg\<close> the consumer's
  between the pop and the end of its scope. \<open>pushed\<close> and \<open>visited\<close> record what went through.\<close>

record channel =
  pools :: "msg_kind \<Rightarrow> msg_pool"
  extra :: "msg_ref \<Rightarrow> bool"
  fifo :: "msg_ref list"
  p_i :: "64 word"
  p_msg :: "msg_ref option"
  c_msg :: "msg_ref option"
  p_out :: "string list"
  c_out :: "string list"
  pushed :: "msg_kind list"
  visited :: "msg_kind list"

definition new_channel :: channel where
  "new_channel = \<lparr>pools = (\<lambda>_. MsgPool), extra = (\<lambda>_. False), fifo = [], p_i = 0, p_msg = None, c_msg = None,
     p_out = [], c_out = [], pushed = [], visited = []\<rparr>"

definition release :: "msg_ref \<Rightarrow> channel \<Rightarrow> channel" where
  "release m s = s\<lparr>pools := (pools s)(fst m := IMsgDeleter (snd m) (pools s (fst m)))\<rparr>"

definition queue_capacity :: nat where "queue_capacity = 100000"

definition producer :: "channel \<Rightarrow> fault + channel" where
  "producer s =
     (case p_msg s of
        None \<Rightarrow>
          let k = next_kind (p_i s) in
          bind_res (MsgPool_Allocate (pools s k))
            (\<lambda>(j, data). Inr (s\<lparr>pools := (pools s)(k := data), extra := (extra s)((k, j) := True),
               p_msg := Some (k, j), p_i := p_i s + 1\<rparr>))
      | Some m \<Rightarrow>
          if length (fifo s) < queue_capacity then
            Inr (s\<lparr>fifo := fifo s @ [m], p_msg := None, p_out := p_out s @ [''pushed''], pushed := pushed s @ [fst m]\<rparr>)
          else Inr (release m (s\<lparr>p_msg := None, p_out := p_out s @ [''can't write'']\<rparr>)))"

definition consumer :: "channel \<Rightarrow> fault + channel" where
  "consumer s =
     (case c_msg s of
        None \<Rightarrow>
          (case fifo s of
             [] \<Rightarrow> Inr (s\<lparr>c_out := c_out s @ [''can't read'']\<rparr>)
           | m # ms \<Rightarrow> Inr (s\<lparr>fifo := ms, c_msg := Some m\<rparr>))
      | Some m \<Rightarrow>
          if extra s m then
            Inr (release m (s\<lparr>c_msg := None, c_out := c_out s @ [Accept (fst m)], visited := visited s @ [fst m]\<rparr>))
          else Inl (Undefined ''null visitor''))"

datatype thread = Producer | Consumer

fun channel_step :: "thread \<Rightarrow> channel \<Rightarrow> fault + channel" where
  "channel_step Producer s = producer s"
| "channel_step Consumer s = consumer s"

text \<open>The producer needs a free message of the kind that is next.\<close>

fun channel_pre :: "thread \<Rightarrow> channel \<Rightarrow> bool" where
  "channel_pre Producer s \<longleftrightarrow> (p_msg s = None \<longrightarrow> Some False \<in> set (pools s (next_kind (p_i s))))"
| "channel_pre Consumer s \<longleftrightarrow> True"

section \<open>Who owns a message\<close>

definition in_flight :: "channel \<Rightarrow> msg_ref list" where
  "in_flight s = (case c_msg s of None \<Rightarrow> [] | Some m \<Rightarrow> [m]) @ fifo s @ (case p_msg s of None \<Rightarrow> [] | Some m \<Rightarrow> [m])"

definition channel_inv :: "channel \<Rightarrow> bool" where
  "channel_inv s \<longleftrightarrow> (\<forall>k. msg_inv (pools s k)) \<and> distinct (in_flight s)
     \<and> (\<forall>k j. j \<in> used (pools s k) \<longleftrightarrow> (k, j) \<in> set (in_flight s))
     \<and> (\<forall>m \<in> set (in_flight s). extra s m)
     \<and> pushed s = visited s @ map fst ((case c_msg s of None \<Rightarrow> [] | Some m \<Rightarrow> [m]) @ fifo s)
     \<and> ''can't write'' \<notin> set (p_out s)
     \<and> p_i s = of_nat (length (pushed s) + (if p_msg s = None then 0 else 1))
     \<and> pushed s = map (\<lambda>n. next_kind (of_nat n)) [0..<length (pushed s)]
     \<and> (\<forall>m. p_msg s = Some m \<longrightarrow> fst m = next_kind (of_nat (length (pushed s))))"

text \<open>At most 300 messages are on their way, far below the capacity of the queue.\<close>

lemma in_flight_bound:
  assumes "channel_inv s"
  shows "length (in_flight s) \<le> 300"
proof -
  have u: "used (pools s k) \<subseteq> {..<100}" for k
  proof -
    have "msg_inv (pools s k)" using assms unfolding channel_inv_def by blast
    then show ?thesis by (auto simp: msg_inv_def used_def)
  qed
  have "set (in_flight s) \<subseteq> {KIMsg, KMsg1, KMsg2} \<times> {..<100}"
  proof (rule subsetI)
    fix m
    assume m: "m \<in> set (in_flight s)"
    obtain k j where kj: "m = (k, j)" by (cases m)
    with assms m have "j \<in> used (pools s k)" unfolding channel_inv_def by blast
    with u [of k] show "m \<in> {KIMsg, KMsg1, KMsg2} \<times> {..<100}" by (cases k) (auto simp: kj)
  qed
  from card_mono [OF _ this] have "card (set (in_flight s)) \<le> 300" by (simp add: card_cartesian_product)
  with assms show ?thesis by (simp add: channel_inv_def distinct_card)
qed

lemma used_release:
  assumes "channel_inv s" "m \<in> set (in_flight s)"
  shows "used (pools (release m s) k) = used (pools s k) - {j. (k, j) = m}" "msg_inv (pools (release m s) k)"
proof -
  have "snd m \<in> used (pools s (fst m))" using assms by (simp add: channel_inv_def)
  then have "snd m < length (pools s (fst m))" by (simp add: used_def)
  then show "used (pools (release m s) k) = used (pools s k) - {j. (k, j) = m}"
    by (cases m) (auto simp: release_def IMsgDeleter_def used_update)
  show "msg_inv (pools (release m s) k)"
    using assms(1) by (simp add: release_def IMsgDeleter_def msg_inv_update channel_inv_def)
qed

lemma release_sel [simp]:
  "extra (release m s) = extra s" "fifo (release m s) = fifo s" "p_i (release m s) = p_i s"
  "p_msg (release m s) = p_msg s" "c_msg (release m s) = c_msg s" "p_out (release m s) = p_out s"
  "c_out (release m s) = c_out s" "pushed (release m s) = pushed s" "visited (release m s) = visited s"
  by (simp_all add: release_def)

lemma producer_ok:
  assumes "channel_inv s" "channel_pre Producer s"
  shows "\<exists>s'. producer s = Inr s' \<and> channel_inv s'"
proof (cases "p_msg s")
  case None
  let ?k = "next_kind (p_i s)"
  let ?j = "first_free (used (pools s ?k))"
  have mi: "msg_inv (pools s ?k)" "Some False \<in> set (pools s ?k)" using assms None by (simp_all add: channel_inv_def)
  from Allocate_free [OF mi] have al: "MsgPool_Allocate (pools s ?k) = Inr (?j, (pools s ?k)[?j := Some True])"
    "?j \<notin> used (pools s ?k)" "?j < 100" by auto
  let ?s = "s\<lparr>pools := (pools s)(?k := (pools s ?k)[?j := Some True]), extra := (extra s)((?k, ?j) := True),
      p_msg := Some (?k, ?j), p_i := p_i s + 1\<rparr>"
  have "producer s = Inr ?s" using None al(1) by (simp add: producer_def Let_def)
  moreover have "channel_inv ?s"
  proof -
    have fl: "in_flight ?s = in_flight s @ [(?k, ?j)]" using None by (simp add: in_flight_def)
    have "(?k, ?j) \<notin> set (in_flight s)" using assms(1) al(2) by (auto simp: channel_inv_def)
    moreover have "used ((pools s ?k)[?j := Some True]) = insert ?j (used (pools s ?k))"
      using al(3) mi(1) by (simp add: used_update msg_inv_def)
    ultimately show ?thesis using assms(1) None
      unfolding channel_inv_def fl by (auto simp: msg_inv_update)
  qed
  ultimately show ?thesis by blast
next
  case (Some m)
  have "length (fifo s) \<le> 300" using in_flight_bound [OF assms(1)] by (simp add: in_flight_def)
  then have lt: "length (fifo s) < queue_capacity" by (simp add: queue_capacity_def)
  let ?s = "s\<lparr>fifo := fifo s @ [m], p_msg := None, p_out := p_out s @ [''pushed''], pushed := pushed s @ [fst m]\<rparr>"
  have "producer s = Inr ?s" using Some lt by (simp add: producer_def)
  moreover have "channel_inv ?s"
  proof -
    have fl: "in_flight ?s = in_flight s" using Some by (simp add: in_flight_def)
    show ?thesis using assms(1) Some unfolding channel_inv_def fl by auto
  qed
  ultimately show ?thesis by blast
qed

lemma consumer_ok:
  assumes "channel_inv s"
  shows "\<exists>s'. consumer s = Inr s' \<and> channel_inv s'"
proof (cases "c_msg s")
  case None
  show ?thesis
  proof (cases "fifo s")
    case Nil
    with assms None show ?thesis by (auto simp: consumer_def channel_inv_def in_flight_def)
  next
    case (Cons m ms)
    let ?s = "s\<lparr>fifo := ms, c_msg := Some m\<rparr>"
    have fl: "in_flight ?s = in_flight s" using None Cons by (simp add: in_flight_def)
    have "channel_inv ?s" using assms None Cons unfolding channel_inv_def fl by auto
    with None Cons show ?thesis by (simp add: consumer_def)
  qed
next
  case (Some m)
  let ?s = "s\<lparr>c_msg := None, c_out := c_out s @ [Accept (fst m)], visited := visited s @ [fst m]\<rparr>"
  have fl: "in_flight s = m # in_flight ?s" using Some by (simp add: in_flight_def)
  have m: "m \<in> set (in_flight s)" "extra s m" using assms fl by (simp_all add: channel_inv_def)
  have p: "pools (release m ?s) = pools (release m s)" by (simp add: release_def)
  have fl': "in_flight (release m ?s) = in_flight ?s" by (simp add: in_flight_def)
  have "channel_inv (release m ?s)"
    using assms Some used_release [OF assms m(1)] unfolding channel_inv_def fl' p
    by (auto simp: fl)
  with Some m(2) show ?thesis by (simp add: consumer_def)
qed

interpretation channel: safe_machine channel_step channel_pre channel_inv
proof (unfold_locales, goal_cases)
  case (1 s t)
  then show ?case using producer_ok consumer_ok by (cases t) auto
qed


lemma channel_invD:
  assumes "channel_inv s"
  shows "\<forall>k. msg_inv (pools s k)"
    "\<forall>k j. j \<in> used (pools s k) \<longleftrightarrow> (k, j) \<in> set (in_flight s)"
    "pushed s = visited s @ map fst ((case c_msg s of None \<Rightarrow> [] | Some m \<Rightarrow> [m]) @ fifo s)"
    "''can't write'' \<notin> set (p_out s)"
    "pushed s = map (\<lambda>n. next_kind (of_nat n)) [0..<length (pushed s)]"
proof -
  note inv = assms [unfolded channel_inv_def]
  from inv show "\<forall>k. msg_inv (pools s k)"
    by (elim conjE) assumption
  from inv show "\<forall>k j. j \<in> used (pools s k) \<longleftrightarrow> (k, j) \<in> set (in_flight s)"
    by (elim conjE) assumption
  from inv show "pushed s = visited s @ map fst ((case c_msg s of None \<Rightarrow> [] | Some m \<Rightarrow> [m]) @ fifo s)"
    by (elim conjE) assumption
  from inv show "''can't write'' \<notin> set (p_out s)"
    by (elim conjE) assumption
  from inv show "pushed s = map (\<lambda>n. next_kind (of_nat n)) [0..<length (pushed s)]"
    by (elim conjE) assumption
qed

section \<open>The property of the channel\<close>

lemma new_channel_inv: "channel_inv new_channel"
  by (auto simp: channel_inv_def new_channel_def in_flight_def msg_inv_def MsgPool_def used_def)

text \<open>
  C29. Under every schedule in which the producer finds a free message, the two threads never fault and
  the queue is never full; the visitor sees the kinds in turn, in the order they were pushed, each
  once; and a message is in use exactly while one thread or the queue has it. When 100 messages
  of the next kind are on their way, the producer dereferences a null pointer instead of waiting.
\<close>
theorem channel_in_order:
  assumes "admissible channel_pre channel_step schedule new_channel"
  shows "\<exists>s. run_ops channel_step schedule new_channel = Inr s
    \<and> visited s = map (\<lambda>n. next_kind (of_nat n)) [0..<length (visited s)]
    \<and> length (in_flight s) \<le> 300 \<and> ''can't write'' \<notin> set (p_out s)
    \<and> (\<forall>k j. j \<in> used (pools s k) \<longleftrightarrow> (k, j) \<in> set (in_flight s))
    \<and> (p_msg s = None \<and> used (pools s (next_kind (p_i s))) = {..<100}
         \<longrightarrow> channel_step Producer s = Inl (Undefined ''null message''))"
proof -
  from channel.run_safe [OF new_channel_inv assms] obtain s where
    s: "run_ops channel_step schedule new_channel = Inr s" "channel_inv s" by blast
  note inv = channel_invD [OF s(2)]
  note p = inv(5) inv(3)
  have "visited s = take (length (visited s)) (pushed s)" unfolding p(2) by simp
  also have "\<dots> = map (\<lambda>n. next_kind (of_nat n)) (take (length (visited s)) [0..<length (pushed s)])"
    by (subst p(1)) (simp add: take_map)
  also have "take (length (visited s)) [0..<length (pushed s)] = [0..<length (visited s)]"
    using arg_cong [OF p(2), of length] by simp
  finally have v: "visited s = map (\<lambda>n. next_kind (of_nat n)) [0..<length (visited s)]" .
  have full: "channel_step Producer s = Inl (Undefined ''null message'')"
    if "p_msg s = None" "used (pools s (next_kind (p_i s))) = {..<100}"
  proof -
    have "msg_inv (pools s (next_kind (p_i s)))" using inv(1) by blast
    from Allocate_full [OF this] full_iff [OF this] that show ?thesis by (simp add: producer_def Let_def)
  qed
  show ?thesis by (intro exI [of _ s] conjI impI full s(1) v in_flight_bound [OF s(2)] inv(2,4)) auto
qed

lemma channel_in_order_witness:
  "\<exists>s. run_ops channel_step [Producer, Producer, Consumer, Consumer] new_channel = Inr s
     \<and> visited s = [KIMsg] \<and> (\<forall>j. j \<notin> used (pools s KIMsg))"
proof -
  let ?schedule = "[Producer, Producer, Consumer, Consumer]"
  have first: "MsgPool_Allocate MsgPool = Inr (0, MsgPool[0 := Some True])" "Some False \<in> set MsgPool"
    by (simp_all add: MsgPool_Allocate_def MsgPool_def numeral_eq_Suc)
  note defs = new_channel_def producer_def consumer_def release_def first next_kind_def Let_def queue_capacity_def
  have "admissible channel_pre channel_step ?schedule new_channel" by (simp add: defs)
  from channel_in_order [OF this] obtain s where
    s: "run_ops channel_step ?schedule new_channel = Inr s"
    "\<forall>k j. j \<in> used (pools s k) \<longleftrightarrow> (k, j) \<in> set (in_flight s)" by blast
  from s(1) have "visited s = [KIMsg]" "in_flight s = []" by (auto simp: defs in_flight_def)
  with s show ?thesis by simp
qed

end
