(* ===== verification/Challenge_Pattern.thy ===== *)
theory Challenge_Pattern
  imports Prelude
begin

text \<open>
  \<^verbatim>\<open>src/challenges/test_coderbyte_adjpattern.cpp\<close>: the longest pattern of at least two characters that
  occurs twice in a string without overlap. The three nested loops are three functions.
  \<^verbatim>\<open>argv[1]\<close> is null when the program is called without an argument.
\<close>

section \<open>The search\<close>

definition sub :: "string \<Rightarrow> nat \<Rightarrow> nat \<Rightarrow> string" where
  "sub str i n = take n (drop i str)"

function j_loop :: "string \<Rightarrow> nat \<Rightarrow> nat \<Rightarrow> nat \<Rightarrow> bool" where
  "j_loop str pattern_size i j =
     (if j \<le> length str - pattern_size then
        if sub str i pattern_size = sub str j pattern_size then True
        else j_loop str pattern_size i (j + 1)
      else False)"
  by pat_completeness auto
termination by (relation "measure (\<lambda>(str, n, i, j). Suc (length str) - j)") auto

function i_loop :: "string \<Rightarrow> nat \<Rightarrow> nat \<Rightarrow> string option" where
  "i_loop str pattern_size i =
     (if i < length str - pattern_size then
        if j_loop str pattern_size i (i + pattern_size) then Some (sub str i pattern_size)
        else i_loop str pattern_size (i + 1)
      else None)"
  by pat_completeness auto
termination by (relation "measure (\<lambda>(str, n, i). length str - i)") auto

declare j_loop.simps [simp del] i_loop.simps [simp del]

fun pattern_loop :: "string \<Rightarrow> nat \<Rightarrow> string" where
  "pattern_loop str pattern_size =
     (if pattern_size \<ge> 2 then
        case i_loop str pattern_size 0 of
          Some p \<Rightarrow> ''yes '' @ p
        | None \<Rightarrow> pattern_loop str (pattern_size - 1)
      else ''no null'')"

declare pattern_loop.simps [simp del]

definition find_pattern :: "string \<Rightarrow> string" where
  "find_pattern str = pattern_loop str (length str div 2)"

definition pattern_main :: "string list \<Rightarrow> fault + string" where
  "pattern_main argv =
     (if length argv \<le> 1 then Inl (Undefined ''string constructed from null'')
      else Inr (find_pattern (argv ! 1) @ [CHR 0x0A]))"

section \<open>What the loops find\<close>

definition repeats :: "string \<Rightarrow> string \<Rightarrow> bool" where
  "repeats str p \<longleftrightarrow> (\<exists>a b c. str = a @ p @ b @ p @ c)"

lemma j_loop_iff: "j_loop str n i j \<longleftrightarrow> (\<exists>k. j \<le> k \<and> k \<le> length str - n \<and> sub str i n = sub str k n)"
proof (induction str n i j rule: j_loop.induct)
  case (1 str n i j)
  show ?case
  proof (cases "j \<le> length str - n \<and> sub str i n \<noteq> sub str j n")
    case True
    with 1 have "j_loop str n i (j + 1) \<longleftrightarrow> (\<exists>k. j + 1 \<le> k \<and> k \<le> length str - n \<and> sub str i n = sub str k n)" by blast
    also have "\<dots> \<longleftrightarrow> (\<exists>k. j \<le> k \<and> k \<le> length str - n \<and> sub str i n = sub str k n)"
      using True by (metis Suc_eq_plus1 Suc_leD le_antisym not_less_eq_eq)
    finally show ?thesis using True by (subst j_loop.simps) simp
  next
    case False
    then show ?thesis by (subst j_loop.simps) auto
  qed
qed

lemma sub_drop: "sub str i n @ drop (i + n) str = drop i str"
  by (metis sub_def append_take_drop_id drop_drop add.commute)

text \<open>A pattern repeats exactly when the two inner loops can meet both of its occurrences.\<close>

lemma repeats_iff:
  assumes "0 < n"
  shows "(\<exists>i < length str - n. j_loop str n i (i + n) \<and> p = sub str i n) \<longleftrightarrow> length p = n \<and> repeats str p"
proof
  assume "\<exists>i < length str - n. j_loop str n i (i + n) \<and> p = sub str i n"
  then obtain i k where i: "i < length str - n" "i + n \<le> k" "k \<le> length str - n" "sub str i n = sub str k n" "p = sub str i n"
    by (auto simp: j_loop_iff)
  have "str = take i str @ drop i str" by simp
  also have "drop i str = sub str i n @ drop (i + n) str" by (simp only: sub_drop)
  also have "drop (i + n) str = take (k - (i + n)) (drop (i + n) str) @ drop k str"
    using i(2) by (metis append_take_drop_id drop_drop le_add_diff_inverse2)
  also have "drop k str = sub str k n @ drop (k + n) str" by (simp only: sub_drop)
  finally have "repeats str p" unfolding repeats_def using i(4,5) by (metis append.assoc)
  moreover have "length p = n" using i by (simp add: sub_def)
  ultimately show "length p = n \<and> repeats str p" by simp
next
  assume "length p = n \<and> repeats str p"
  then obtain a b c where s: "str = a @ p @ b @ p @ c" "length p = n" by (auto simp: repeats_def)
  have "sub str (length a) n = p" "sub str (length (a @ p @ b)) n = p" using s by (simp_all add: sub_def)
  moreover have "length a < length str - n" "length a + n \<le> length (a @ p @ b)" "length (a @ p @ b) \<le> length str - n"
    using s assms by simp_all
  ultimately show "\<exists>i < length str - n. j_loop str n i (i + n) \<and> p = sub str i n"
    by (intro exI [of _ "length a"]) (auto simp: j_loop_iff intro!: exI [of _ "length (a @ p @ b)"])
qed

lemma i_loop_None: "i_loop str n i = None \<longleftrightarrow> (\<forall>k. i \<le> k \<longrightarrow> k < length str - n \<longrightarrow> \<not> j_loop str n k (k + n))"
proof (induction str n i rule: i_loop.induct)
  case (1 str n i)
  show ?case
  proof (cases "i < length str - n \<and> \<not> j_loop str n i (i + n)")
    case True
    with 1 have "i_loop str n (i + 1) = None \<longleftrightarrow> (\<forall>k. i + 1 \<le> k \<longrightarrow> k < length str - n \<longrightarrow> \<not> j_loop str n k (k + n))" by blast
    also have "\<dots> \<longleftrightarrow> (\<forall>k. i \<le> k \<longrightarrow> k < length str - n \<longrightarrow> \<not> j_loop str n k (k + n))"
      using True by (metis Suc_eq_plus1 Suc_leD le_antisym not_less_eq_eq)
    finally show ?thesis using True by (subst i_loop.simps) simp
  next
    case False
    then show ?thesis by (subst i_loop.simps) auto
  qed
qed

lemma i_loop_Some: "i_loop str n i = Some p \<Longrightarrow> \<exists>k < length str - n. j_loop str n k (k + n) \<and> p = sub str k n"
proof (induction str n i rule: i_loop.induct)
  case (1 str n i)
  then show ?case by (subst (asm) (2) i_loop.simps) (auto split: if_splits)
qed

lemma pattern_loop_longest:
  "(\<exists>p. pattern_loop str n = ''yes '' @ p \<and> repeats str p \<and> 2 \<le> length p
      \<and> (\<forall>q. repeats str q \<longrightarrow> length q \<le> n \<longrightarrow> length q \<le> length p))
   \<or> (pattern_loop str n = ''no null'' \<and> (\<forall>q. repeats str q \<longrightarrow> length q \<le> n \<longrightarrow> length q < 2))"
proof (induction n)
  case 0
  have "pattern_loop str 0 = ''no null''" by (subst pattern_loop.simps) simp
  then show ?case by simp
next
  case (Suc n)
  show ?case
  proof (cases "2 \<le> Suc n")
    case False
    moreover have "pattern_loop str (Suc n) = ''no null''" using False by (subst pattern_loop.simps) simp
    ultimately show ?thesis by auto
  next
    case True
    show ?thesis
    proof (cases "i_loop str (Suc n) 0")
      case None
      then have "\<not> repeats str q" if "length q = Suc n" for q
        using repeats_iff [of "Suc n" str q] that by (auto simp: i_loop_None)
      then have "length q \<le> Suc n \<longleftrightarrow> length q \<le> n" if "repeats str q" for q
        using that le_Suc_eq by blast
      moreover have "pattern_loop str (Suc n) = pattern_loop str n"
        using True None by (subst pattern_loop.simps) simp
      ultimately show ?thesis using Suc.IH by auto
    next
      case (Some p)
      from i_loop_Some [OF this] repeats_iff [of "Suc n" str p] have "length p = Suc n" "repeats str p" by auto
      moreover have "pattern_loop str (Suc n) = ''yes '' @ p" using True Some by (subst pattern_loop.simps) simp
      ultimately show ?thesis using True by auto
    qed
  qed
qed

section \<open>The property of the program\<close>

text \<open>
  C33. The answer is a longest pattern of at least two characters with two occurrences that do not
  overlap, or \<^verbatim>\<open>no null\<close> when no pattern of that size occurs twice.
\<close>
theorem pattern_longest:
  "(\<exists>p. find_pattern str = ''yes '' @ p \<and> repeats str p \<and> 2 \<le> length p \<and> (\<forall>q. repeats str q \<longrightarrow> length q \<le> length p))
   \<or> (find_pattern str = ''no null'' \<and> (\<forall>q. repeats str q \<longrightarrow> length q < 2))"
proof -
  have "length q \<le> length str div 2" if "repeats str q" for q using that by (auto simp: repeats_def)
  then show ?thesis using pattern_loop_longest [of str "length str div 2"] unfolding find_pattern_def by blast
qed

lemma pattern_longest_witness:
  "find_pattern ''aabejiabkfabed'' = ''yes abe'' \<and> find_pattern ''aabecfacef'' = ''no null''
     \<and> \<not> repeats ''aabecfacef'' ''ce''"
proof -
  have "find_pattern ''aabejiabkfabed'' = ''yes abe''" "find_pattern ''aabecfacef'' = ''no null''" by code_simp+
  with pattern_longest [of "''aabecfacef''"] show ?thesis by fastforce
qed

end
