(* ===== verification/Tools.thy ===== *)
theory Tools
  imports Core_Error
begin

text \<open>
  Small tools of the repository: the coverage guards of
  \<^verbatim>\<open>src/sanitizers/trace_pc_guard_example.cpp\<close>, the descriptor printer of
  \<^verbatim>\<open>src/protos/plugins/dummy/main.cpp\<close>, the system call wrappers of \<^verbatim>\<open>src/minaio/v1/fd_ops.h\<close>, the
  abort macros of \<^verbatim>\<open>src/core/macros.h\<close>, \<^verbatim>\<open>src/bext/utils/ctx.cpp\<close>, the class visitor of
  \<^verbatim>\<open>src/clang_test\<close>, and \<^verbatim>\<open>src/lang/random/example_error_usage.cpp\<close>. What the libraries they call
  return are arguments.
\<close>

section \<open>Coverage guards\<close>

text \<open>The guards are 32-bit cells; the static counter \<open>N\<close> has 64 bits and is truncated into them.\<close>

type_synonym guards = "nat \<Rightarrow> 32 word"

fun number_guards :: "nat list \<Rightarrow> 64 word \<times> guards \<Rightarrow> 64 word \<times> guards" where
  "number_guards [] s = s"
| "number_guards (x # xs) (N, g) = (let N = N + 1 in number_guards xs (N, g(x := ucast N)))"

definition trace_pc_guard_init :: "nat \<Rightarrow> nat \<Rightarrow> 64 word \<times> guards \<Rightarrow> 64 word \<times> guards" where
  "trace_pc_guard_init start stop s =
     (if start = stop \<or> snd s start \<noteq> 0 then s else number_guards [start..<stop] s)"

text \<open>Whether an edge with this guard is reported.\<close>

definition trace_pc_guard :: "nat \<Rightarrow> guards \<Rightarrow> bool" where
  "trace_pc_guard x g \<longleftrightarrow> g x \<noteq> 0"

lemma number_guards_upt:
  assumes "unat N + n < 2 ^ 32"
  shows "case number_guards [start..<start + n] (N, g) of (N', g') \<Rightarrow>
    unat N' = unat N + n \<and> (\<forall>x. unat (g' x) = (if start \<le> x \<and> x < start + n then unat N + (x - start) + 1 else unat (g x)))"
  using assms
proof (induction n arbitrary: start N g)
  case 0
  then show ?case by simp
next
  case (Suc n)
  have N1: "unat (N + 1) = unat N + 1"
    using Suc.prems by (simp add: unat_word_ariths)
  have "unat (ucast (N + 1) :: 32 word) = unat N + 1"
    using Suc.prems N1 by (simp add: unsigned_ucast_eq unsigned_take_bit_eq take_bit_eq_mod)
  moreover have upt: "[start..<start + Suc n] = start # [Suc start..<Suc start + n]"
    by (simp add: upt_rec)
  have step: "number_guards [start..<start + Suc n] (N, g)
      = number_guards [Suc start..<Suc start + n] (N + 1, g(start := ucast (N + 1)))"
    by (simp only: upt number_guards.simps Let_def)
  obtain N' g' where s: "number_guards [Suc start..<Suc start + n] (N + 1, g(start := ucast (N + 1))) = (N', g')"
    by fastforce
  have less: "unat (N + 1) + n < 2 ^ 32" using Suc.prems N1 by simp
  note IH = Suc.IH [OF less, of "Suc start" "g(start := ucast (N + 1))", unfolded s prod.case N1]
  have "unat N' = unat N + Suc n"
    and "unat (g' x) = (if Suc start \<le> x \<and> x < Suc start + n then unat N + 1 + (x - Suc start) + 1
      else unat ((g(start := ucast (N + 1))) x))" for x
    using IH by simp_all
  ultimately show ?case unfolding step s by auto
qed

text \<open>
  While fewer than \<open>2\<^sup>3\<^sup>2\<close> guards are numbered, initialising a fresh range numbers its guards
  consecutively from the counter and leaves the others alone, every guard of it is then reported,
  and initialising the same range again changes nothing.
\<close>

theorem guard_init_once:
  assumes "start < stop" "g start = 0" "unat N + (stop - start) < 2 ^ 32"
  shows "case trace_pc_guard_init start stop (N, g) of (N', g') \<Rightarrow>
    unat N' = unat N + (stop - start)
    \<and> (\<forall>x. start \<le> x \<and> x < stop \<longrightarrow> unat (g' x) = unat N + (x - start) + 1 \<and> trace_pc_guard x g')
    \<and> (\<forall>x. \<not> (start \<le> x \<and> x < stop) \<longrightarrow> g' x = g x)
    \<and> trace_pc_guard_init start stop (N', g') = (N', g')"
proof -
  obtain N' g' where s: "number_guards [start..<stop] (N, g) = (N', g')" by fastforce
  have stop: "start + (stop - start) = stop" using assms(1) by simp
  have facts: "unat N' = unat N + (stop - start)"
    "unat (g' x) = (if start \<le> x \<and> x < stop then unat N + (x - start) + 1 else unat (g x))" for x
    using number_guards_upt [OF assms(3), of start g] s by (simp_all add: stop)
  have pos: "g' x \<noteq> 0" if "start \<le> x" "x < stop" for x
    using facts(2) [of x] that by auto
  have same: "g' x = g x" if "\<not> (start \<le> x \<and> x < stop)" for x
    using facts(2) [of x] that by (metis unsigned_word_eqI)
  have init: "trace_pc_guard_init start stop (N, g) = (N', g')"
    using assms(1,2) s by (simp add: trace_pc_guard_init_def)
  moreover have "trace_pc_guard_init start stop (N', g') = (N', g')"
    using pos [of start] assms(1) by (simp add: trace_pc_guard_init_def)
  moreover have "\<forall>x. start \<le> x \<and> x < stop \<longrightarrow> unat (g' x) = unat N + (x - start) + 1 \<and> trace_pc_guard x g'"
    using facts(2) pos by (simp add: trace_pc_guard_def)
  ultimately show ?thesis using facts(1) same by simp
qed

theorem guard_init_once_witness:
  "case trace_pc_guard_init 2 5 (7, \<lambda>_. 0) of (N', g') \<Rightarrow>
    unat N' = 10 \<and> trace_pc_guard 4 g' \<and> g' 5 = 0 \<and> trace_pc_guard_init 2 5 (N', g') = (N', g')"
proof -
  have "case trace_pc_guard_init 2 5 (7, \<lambda>_. 0) of (N', g') \<Rightarrow>
    unat N' = unat (7 :: 64 word) + (5 - 2)
    \<and> (\<forall>x. 2 \<le> x \<and> x < 5 \<longrightarrow> unat (g' x) = unat (7 :: 64 word) + (x - 2) + 1 \<and> trace_pc_guard x g')
    \<and> (\<forall>x. \<not> (2 \<le> x \<and> x < 5) \<longrightarrow> g' x = 0)
    \<and> trace_pc_guard_init 2 5 (N', g') = (N', g')"
    by (rule guard_init_once) simp_all
  then show ?thesis by (auto split: prod.splits)
qed

section \<open>The protoc plugin\<close>

record message_desc =
  msg_name :: string
  msg_full_name :: string
  msg_fields :: "(string \<times> string) list"

text \<open>\<^verbatim>\<open>name.substr(0, name.find_last_of("."))\<close>: the whole name when there is no dot.\<close>

definition name_without_extension :: "string \<Rightarrow> string" where
  "name_without_extension name =
     (if CHR ''.'' \<in> set name then rev (tl (dropWhile (\<lambda>c. c \<noteq> CHR ''.'') (rev name))) else name)"

definition line_end :: string where "line_end = [CHR 0x0A]"

definition print_message :: "message_desc \<Rightarrow> string" where
  "print_message d =
     ''Header:'' @ line_end @ ''name = '' @ msg_name d @ '' Full Name = '' @ msg_full_name d @ line_end
     @ concat (map (\<lambda>(n, t). ''name = '' @ n @ '' type = '' @ t @ line_end) (msg_fields d))"

text \<open>The name of the file opened and what is printed to it; the result is always true.\<close>

definition Generate :: "string \<Rightarrow> message_desc list \<Rightarrow> (string \<times> string) \<times> bool" where
  "Generate name messages =
     ((name_without_extension name @ ''.dummy'', concat (map print_message messages)), True)"

lemma name_without_extension_append:
  "CHR ''.'' \<notin> set ext \<Longrightarrow> name_without_extension (base @ CHR ''.'' # ext) = base"
proof -
  assume ext: "CHR ''.'' \<notin> set ext"
  then have "dropWhile (\<lambda>c. c \<noteq> CHR ''.'') (rev ext @ CHR ''.'' # rev base) = CHR ''.'' # rev base"
    by (subst dropWhile_append2) auto
  then show ?thesis by (simp add: name_without_extension_def)
qed

section \<open>System call wrappers\<close>

text \<open>An answer is the result of the call and \<^verbatim>\<open>errno\<close>.\<close>

definition wrap_socket :: "int \<times> int \<Rightarrow> int + 32 word" where
  "wrap_socket answer = (if fst answer \<ge> 0 then Inr (word_of_int (fst answer)) else Inl (snd answer))"

definition wrap_close :: "int \<times> int \<Rightarrow> int + unit" where
  "wrap_close answer = (if fst answer = 0 then Inr () else Inl (snd answer))"

definition wrap_fcntl :: "int \<times> int \<Rightarrow> int + 32 word" where
  "wrap_fcntl answer = (if fst answer \<ge> 0 then Inr (word_of_int (fst answer)) else Inl (snd answer))"

definition wrap_bind :: "int \<times> int \<Rightarrow> int + unit" where
  "wrap_bind answer = (if fst answer = 0 then Inr () else Inl (snd answer))"

section \<open>Abort macros\<close>

text \<open>\<^verbatim>\<open>TCPP_ABORT\<close> prints and goes on: \<open>rest\<close> is the code after it.\<close>

definition TCPP_ABORT :: "string \<Rightarrow> nat \<Rightarrow> string \<Rightarrow> string \<Rightarrow> string" where
  "TCPP_ABORT file ln msg out = out @ ''abort triggered @'' @ file @ '':'' @ show_nat ln @ '' msg:'' @ msg"

definition TCPP_ABORT_IF :: "string \<Rightarrow> nat \<Rightarrow> bool \<Rightarrow> string \<Rightarrow> string \<Rightarrow> string" where
  "TCPP_ABORT_IF file ln b msg out = (if b then TCPP_ABORT file ln msg out else out)"

definition TCPP_PRINT_HERE :: "string \<Rightarrow> nat \<Rightarrow> string \<Rightarrow> string" where
  "TCPP_PRINT_HERE file ln out = out @ file @ '':'' @ show_nat ln @ line_end"

definition TCPP_PRINT_HELLO_WORLD :: "string \<Rightarrow> string" where
  "TCPP_PRINT_HELLO_WORLD out = out @ ''hello world'' @ line_end"

definition TCPP_PRINT_PRETTY_FUNCTION :: "string \<Rightarrow> string \<Rightarrow> string" where
  "TCPP_PRINT_PRETTY_FUNCTION pretty out = out @ pretty @ line_end"

text \<open>The text of the expression and its value as formatted.\<close>

definition TCPP_PRINT_EXPR_RESULT :: "string \<Rightarrow> string \<Rightarrow> string \<Rightarrow> string" where
  "TCPP_PRINT_EXPR_RESULT expr res out = out @ ''( '' @ expr @ '' ) = '' @ res @ line_end"

text \<open>Token pasting: the identifier made on source line \<open>ln\<close>.\<close>

definition TCPP_CONCAT :: "string \<Rightarrow> string \<Rightarrow> string" where "TCPP_CONCAT x y = x @ y"

definition TCPP_UNIQUE_LOCAL_ID :: "nat \<Rightarrow> string" where
  "TCPP_UNIQUE_LOCAL_ID ln = TCPP_CONCAT ''__unique_local_id_'' (show_nat ln)"

section \<open>RunInThisThread\<close>

text \<open>\<^verbatim>\<open>ctx.run()\<close> gives the next state of the context and whether it threw.\<close>

partial_function (option) RunInThisThread :: "('c \<Rightarrow> 'c \<times> bool) \<Rightarrow> 'c \<Rightarrow> string \<Rightarrow> ('c \<times> string) option" where
  "RunInThisThread run ctx out =
     (let (ctx, threw) = run ctx
      in RunInThisThread run ctx (if threw then out @ ''unknown exception caught! keep going!'' else out))"

lemma RunInThisThread_never_returns: "RunInThisThread run ctx out = None"
proof (rule ccontr)
  assume "RunInThisThread run ctx out \<noteq> None"
  then obtain r where "RunInThisThread run ctx out = Some r" by auto
  then show False
    by (rule RunInThisThread.raw_induct [where P = "\<lambda>_ _ _ _. False", rotated]) (auto split: prod.splits)
qed

section \<open>Class visitor\<close>

record class_decl =
  is_definition :: bool
  decl_name :: "string option"
  qualified_name :: string

definition VisitCXXRecordDecl :: "class_decl \<Rightarrow> string \<Rightarrow> bool \<times> string" where
  "VisitCXXRecordDecl d out =
     (True, if is_definition d \<and> decl_name d \<noteq> None then out @ qualified_name d @ line_end else out)"

text \<open>The traversal visits every class declaration, in the order given, until a visit returns false.\<close>

fun HandleTranslationUnit :: "class_decl list \<Rightarrow> string \<Rightarrow> string" where
  "HandleTranslationUnit [] out = out"
| "HandleTranslationUnit (d # ds) out =
     (let (go, out) = VisitCXXRecordDecl d out in if go then HandleTranslationUnit ds out else out)"

lemma HandleTranslationUnit_names:
  "HandleTranslationUnit ds out = out
     @ concat (map (\<lambda>d. qualified_name d @ line_end) (filter (\<lambda>d. is_definition d \<and> decl_name d \<noteq> None) ds))"
  by (induction ds arbitrary: out) (auto simp: VisitCXXRecordDecl_def)

section \<open>Error usage example\<close>

definition error_usage_main :: "(int \<Rightarrow> string) \<Rightarrow> string \<Rightarrow> nat \<Rightarrow> fault + string" where
  "error_usage_main strerror file ln =
     (let details = StringErrorDetails ''Something went wrong''; copy = Clone details;
          out = ''Details: '' @ details_to_string strerror details @ line_end
            @ ''Clone: '' @ details_to_string strerror copy @ line_end;
          err = \<lparr>details = StringErrorDetails ''File not found'',
                 source_context = \<lparr>file_name = file, line = ln\<rparr>\<rparr>;
          out = out @ Error_to_string strerror err @ line_end;
          result = (Result_value 42 :: (int, error) result)
      in if Ok result then bind_res (Value result) (\<lambda>v. Inr (out @ ''Value: '' @ show_int v @ line_end))
         else bind_res (Error result) (\<lambda>e. Inr (out @ ''Error: '' @ Error_to_string strerror e @ line_end)))"

end
