(* ===== verification/Programs.thy ===== *)
theory Programs
  imports Tools Grpc_Dummy Iostream
begin

text \<open>
  The entry points around the modelled components: the \<^verbatim>\<open>main\<close> functions of the echo servers and of
  the grpc server, which hand the thread to a library loop, and the functions that the Python
  bindings export.
\<close>

section \<open>The echo servers\<close>

text \<open>The constructor of \<^verbatim>\<open>Server\<close> throws when the port cannot be bound, and nothing catches it.\<close>

definition tcp_server_main :: "bool \<Rightarrow> ('c \<Rightarrow> 'c \<times> bool) \<Rightarrow> 'c \<Rightarrow> (fault + 'c \<times> string) option" where
  "tcp_server_main bound run ctx =
     (if \<not> bound then Some (Inl (Thrown ''bind''))
      else map_option Inr (RunInThisThread run ctx (TCPP_PRINT_HELLO_WORLD [])))"

definition udp_server_main :: "bool \<Rightarrow> ('c \<Rightarrow> 'c \<times> bool) \<Rightarrow> 'c \<Rightarrow> (fault + 'c \<times> string) option" where
  "udp_server_main bound run ctx =
     (if \<not> bound then Some (Inl (Thrown ''bind''))
      else map_option Inr (RunInThisThread run ctx (TCPP_PRINT_HELLO_WORLD [])))"

text \<open>Once bound, neither returns: when the context has no work left its \<^verbatim>\<open>run\<close> returns at once, for ever.\<close>

lemma servers_never_return:
  "tcp_server_main True run ctx = None" "udp_server_main True run ctx = None"
  by (simp_all add: tcp_server_main_def udp_server_main_def RunInThisThread_never_returns)

section \<open>The grpc server\<close>

text \<open>\<^verbatim>\<open>BuildAndStart\<close> returns null when the port cannot be bound; the address is printed either way. The
  result is the output and the fault that ends the program, \<open>None\<close> when \<^verbatim>\<open>Wait\<close> blocks.\<close>

definition RunServer :: "bool \<Rightarrow> string \<times> fault option" where
  "RunServer started =
     (let server_address = ''0.0.0.0:50051'';
          out = ''Server listening on '' @ server_address @ line_end
      in (out, if started then None else Some (Undefined ''null server'')))"

lemma RunServer_claims_to_listen: "fst (RunServer False) = fst (RunServer True)"
  by (simp add: RunServer_def)

section \<open>What Python sees\<close>

definition py_add :: "int \<Rightarrow> int \<Rightarrow> fault + int" where
  "py_add i j = add_int i j"

record pet =
  pet_name :: string

definition Pet :: "string \<Rightarrow> pet" where "Pet name = \<lparr>pet_name = name\<rparr>"

definition Pet_set :: "string \<Rightarrow> pet \<Rightarrow> pet" where "Pet_set n p = p\<lparr>pet_name := n\<rparr>"

definition Pet_get :: "pet \<Rightarrow> string" where "Pet_get p = pet_name p"

text \<open>The names the module gives them.\<close>

definition pybind11_test :: "(string \<times> string list) list" where
  "pybind11_test = [(''add'', []), (''Pet'', [''__init__'', ''set'', ''get''])]"

text \<open>Two ints of the interpreter that fit can have a sum that does not.\<close>

lemma py_add_overflow: "py_add 2147483647 1 = Inl (Undefined ''signed overflow'')"
  by (simp add: py_add_def)

lemma Pet_set_get: "Pet_get (fold Pet_set (ns @ [n]) (Pet name)) = n"
  by (simp add: Pet_set_def Pet_get_def)


section \<open>Hello world\<close>

text \<open>\<^verbatim>\<open>helloworld/main.cpp\<close> and its copy: the output and the exit status.\<close>

definition TestFmt :: "string \<Rightarrow> string" where "TestFmt out = out @ ''hello world!'' @ line_end"

definition TestBoost :: "string \<Rightarrow> string" where "TestBoost out = out"

definition hello_main :: "string \<Rightarrow> int \<times> string" where "hello_main out = (0, TestFmt (TestBoost out))"

definition hello2_main :: "string \<Rightarrow> int \<times> string" where "hello2_main out = (0, TestFmt (TestBoost out))"

section \<open>Unique identifiers\<close>

text \<open>Two uses of \<^verbatim>\<open>TCPP_UNIQUE_LOCAL_ID\<close> collide exactly when they stand on the same line.\<close>

lemma unique_local_id: "TCPP_UNIQUE_LOCAL_ID m = TCPP_UNIQUE_LOCAL_ID n \<longleftrightarrow> m = n"
proof
  assume "TCPP_UNIQUE_LOCAL_ID m = TCPP_UNIQUE_LOCAL_ID n"
  then have "show_nat m = show_nat n" by (simp add: TCPP_UNIQUE_LOCAL_ID_def TCPP_CONCAT_def)
  then show "m = n" by (metis dec_value_show)
qed simp

section \<open>The queue of the test fixture\<close>

text \<open>\<^verbatim>\<open>gtest_test/test_fixture_q.cpp\<close>: a queue over \<^verbatim>\<open>std::queue\<close>, and the loop of the test
  \<^verbatim>\<open>DequeueWorks\<close> with the expectations that failed.\<close>

definition q_Enqueue :: "'a \<Rightarrow> 'a list \<Rightarrow> 'a list" where
  "q_Enqueue e q = q @ [e]"

definition q_Dequeue :: "'a list \<Rightarrow> fault + ('a \<times> 'a list)" where
  "q_Dequeue q = (case q of [] \<Rightarrow> Inl (Undefined ''front of an empty queue'') | e # q \<Rightarrow> Inr (e, q))"

definition q_SetUp :: "64 word list" where
  "q_SetUp = fold (\<lambda>i. q_Enqueue (of_nat i)) [0..<10] []"

fun DequeueWorks_loop :: "64 word list \<Rightarrow> 64 word \<Rightarrow> fault + (64 word \<times> 64 word) list" where
  "DequeueWorks_loop [] i = Inl (Undefined ''front of an empty queue'')"
| "DequeueWorks_loop (v # q) i =
     (if v = 0 then Inr []
      else bind_res (DequeueWorks_loop q (i - 1)) (\<lambda>failed. Inr (if v = i then failed else (v, i) # failed)))"

lemma q_fifo:
  "fold q_Enqueue xs q = q @ xs" "q_Dequeue (q_Enqueue e (x # q)) = Inr (x, q_Enqueue e q)"
proof -
  show "fold q_Enqueue xs q = q @ xs" by (induction xs arbitrary: q) (simp_all add: q_Enqueue_def)
qed (simp add: q_Dequeue_def q_Enqueue_def)

text \<open>The test expects the elements in the order of a stack and passes, because the first element is 0
  and ends the loop before any expectation. On a queue without a 0 the loop never stops at the end.\<close>

lemma DequeueWorks_vacuous: "q_SetUp = [0, 1, 2, 3, 4, 5, 6, 7, 8, 9]" "DequeueWorks_loop q_SetUp 9 = Inr []"
proof -
  have "[0..<10] = [0, 1, 2, 3, 4, 5, 6, 7, 8, 9]" by (simp add: upt_rec)
  then show set_up: "q_SetUp = [0, 1, 2, 3, 4, 5, 6, 7, 8, 9]" by (simp add: q_SetUp_def q_Enqueue_def)
  show "DequeueWorks_loop q_SetUp 9 = Inr []" by (simp add: set_up)
qed

lemma DequeueWorks_runs_off:
  "0 \<notin> set q \<Longrightarrow> DequeueWorks_loop q i = Inl (Undefined ''front of an empty queue'')"
  by (induction q i rule: DequeueWorks_loop.induct) auto

end
