(* ===== verification/Spec2Isabelle.thy ===== *)
theory Spec2Isabelle
  imports Prelude Machine Core_Result Core_Error Core_Range CF_Driver Core_SmallFunction Core_UniqueRef
    Aio_Context Aio_Reactor Aio_FD Aio_Datagram Aio_Sockets Aio_System Aio_PingPong V0_Context V0_Acceptor
    V0_Stream V0_Server Lang_CondVar Lang_Linkage Posix_Servers Timtim_Loops Timtim_Matrix Mystd_Vector Core_ParOStream Lang_AsyncScopes Lang_AsyncDraft
    Lang_CLI Lang_Coroutines Timtim_Editor Timtim_Buses Timtim_BusInput Timtim_Dump Boost_Echo Boost_Channel Grpc_Dummy
    Mem_Pools Mem_Channel Challenge_Pattern Iostream Tools Programs
begin

text \<open>
  A verification of the C++ sources of the repository. Paths below are relative to \<^verbatim>\<open>src/\<close>,
  the source directory. The repository holds a small compiler, a core library of error and ownership types,
  two generations of an asynchronous I/O library, and a number of self-contained programs. They
  meet in the core library: \<^verbatim>\<open>core/result.h\<close> and \<^verbatim>\<open>core/error.h\<close> carry the errors of all of them,
  \<^verbatim>\<open>core/unique_ref.h\<close> owns the compiler's syntax tree and modules, \<^verbatim>\<open>core/small_function.h\<close> holds
  the completion handlers of the I/O library.

  \<^bold>\<open>Conventions.\<close> An operation that can fail returns \<open>fault + 'a\<close>: \<open>Inl\<close> is an exception that
  leaves the call, a termination of the program, or undefined behaviour, and each is a value of
  its own (\<open>Prelude\<close>). Errors that the code returns as values are sums or \<open>Result\<close>s. Objects that
  may alias live in stores from addresses to their fields. Code outside the repository is a
  parameter: the answers of system calls, what a callback does, LLVM, the file system. Loops that may
  not end are \<open>partial_function (option)\<close>, or functions with an explicit number of rounds, and
  theorems about them say that they return, or that they do not for any number of rounds.
  A machine integer is a word where it can wrap, and an integer with checked additions
  where overflow is undefined.

  \<^bold>\<open>Interfaces.\<close> \<open>Machine\<close> has the contracts the components share: \<open>safe_machine\<close> (an admissible
  operation never faults and keeps the invariant), \<open>refined_machine\<close> (and is an abstract operation
  under an abstraction function), \<open>run_queue\<close> (a queue of operations drained by a loop). Whole runs
  are treated there once; the components interpret the contracts on their own operations.
  \<open>Core_Result\<close> adds \<open>checked_access\<close> for the throwing accessors and \<open>CF_Parser\<close> adds
  \<open>token_parser\<close> for a parsing method and its grammar rule. \<open>Aio_System\<close> adds \<open>socket_client\<close>, what
  a socket expects of the handlers of its owner. \<open>Iostream\<close> is formatted extraction from a stream, shared
  by the programs that read text.

  \<^bold>\<open>The core library.\<close>
  \<^item> \<open>Core_Result\<close>: \<^verbatim>\<open>core/result.h\<close>, the three \<^verbatim>\<open>Result\<close> templates. Every accessor returns the
    alternative that is there and throws otherwise.
  \<^item> \<open>Core_Error\<close>: \<^verbatim>\<open>core/error.h\<close>, \<^verbatim>\<open>error.cpp\<close>, \<^verbatim>\<open>source_context.h\<close>, \<^verbatim>\<open>make_noexcept.h\<close> and the error
    details of all components. The hand-written run-time type information agrees with inheritance, which
    is an instance of the library's class of orders.
  \<^item> \<open>Core_Range\<close>: \<^verbatim>\<open>core/range.h\<close> at every width and signedness: what a range-for loop visits, and when
    it does not end.
  \<^item> \<open>Core_SmallFunction\<close>: \<^verbatim>\<open>core/small_type_erased_base.h\<close> and \<^verbatim>\<open>small_function.h\<close>: a refinement
    of an abstract store of callables by all operations but copy assignment, which is broken.
  \<^item> \<open>Core_UniqueRef\<close>: \<^verbatim>\<open>core/unique_ref.h\<close> and \<^verbatim>\<open>core_cpp20/at_scope_exit.h\<close>: every object has one owner.
  \<^item> \<open>Core_ParOStream\<close>: \<^verbatim>\<open>core/par_ostream.h\<close> as an inductive step relation over threads:
    statements are not interleaved, for every schedule.

  \<^bold>\<open>The compiler.\<close> \<^verbatim>\<open>c_frontend/main/main.cpp\<close> reads a file, lexes, parses, generates and writes.
  \<^item> \<open>CF_Lexer\<close> (\<^verbatim>\<open>lib/lexer.cpp\<close>): \<^verbatim>\<open>Lexer::next\<close> on indices, refined to a lexer on the remaining characters.
  \<^item> \<open>CF_Tokens\<close>: the lexing loop: it ends, finds the first bad character, and inverts printing.
  \<^item> \<open>CF_Parser\<close> (\<^verbatim>\<open>lib/parser.cpp\<close>): the parser accepts exactly its grammar and returns the tree of the phrase.
  \<^item> \<open>CF_Codegen\<close> (\<^verbatim>\<open>lib/codegen.cpp\<close>): the calls made on LLVM depend on the name of the first function only.
  \<^item> \<open>CF_Driver\<close>: options, pipeline and outputs: which sources are accepted, what is printed, and the exit status.

  \<^bold>\<open>The I/O library, second version\<close> (\<^verbatim>\<open>minaio/v2\<close>). The socket enqueues completions on the context;
  the context's \<^verbatim>\<open>Poll\<close> runs a snapshot of its queue and then polls the reactor, whose handlers are the sockets'.
  \<^item> \<open>Aio_Context\<close> (\<^verbatim>\<open>context.h\<close>, \<^verbatim>\<open>details/context.ipp\<close>): what one \<^verbatim>\<open>Poll\<close> runs, and that a stopped loop drains and ends.
  \<^item> \<open>Aio_Reactor\<close> (\<^verbatim>\<open>reactor.cpp\<close>): dispatch when handlers leave the registrations alone, remove, or add.
  \<^item> \<open>Aio_FD\<close> (\<^verbatim>\<open>fd.h\<close>): ownership of descriptors, transferred from \<open>Core_UniqueRef\<close>.
  \<^item> \<open>Aio_Datagram\<close> (\<^verbatim>\<open>datagram_socket.cpp\<close>): each completion handler is called once, under one operation at a time.
  \<^item> \<open>Aio_Sockets\<close> (\<^verbatim>\<open>datagram_socket.cpp\<close>): construction, moves and destruction of the socket objects, which
    share a state that points back to its socket: no descriptor is lost or closed twice.
  \<^item> \<open>Aio_System\<close>: context, reactor and any number of sockets together, on one queue. A socket seen on its own
    (\<open>view\<close>) is the one of \<open>Aio_Datagram\<close>, so its invariant carries over to whole \<^verbatim>\<open>Poll\<close>s; a system with an
    empty queue stays as it is for ever.
  \<^item> \<open>Aio_PingPong\<close> (\<^verbatim>\<open>unittests/test_datagram_socket.cpp\<close>): the two clients of the test on that system: they
    never break the contract, and the test never ends.

  \<^bold>\<open>The I/O library, first version\<close> (\<^verbatim>\<open>minaio/v0\<close>, left out of the build by its \<^verbatim>\<open>CMakeLists.txt\<close>).
  \<^item> \<open>V0_Context\<close> (\<^verbatim>\<open>io_context.h\<close>): registration, completions and the event loop over the whole event array.
  \<^item> \<open>V0_Acceptor\<close> (\<^verbatim>\<open>socket_base.h\<close>, \<^verbatim>\<open>endpoint.h\<close>, \<^verbatim>\<open>stream_socket.h\<close>, \<^verbatim>\<open>acceptor.h\<close>, \<^verbatim>\<open>connector.h\<close>): the
    life of an acceptor and its reactor, and what happens to an accepted connection.
  \<^item> \<open>V0_Server\<close> (\<^verbatim>\<open>unittests/test_acceptor.cpp\<close>): the server of the test on the acceptor and the event loop
    together, from its constructor on: which results its handler sees for any answers of \<^verbatim>\<open>accept\<close>, and the three
    ways its polling loop can go.
  \<^item> \<open>V0_Stream\<close> (\<^verbatim>\<open>stream_socket.h\<close> and the forwarding functions): operations that never complete.

  \<^bold>\<open>Programs.\<close>
  \<^item> \<open>Lang_AsyncScopes\<close> (\<^verbatim>\<open>lang/random/test_async_scopes_1.cpp\<close>): a tree of objects destroyed
    asynchronously; the discipline under which each is destroyed once, and what goes wrong outside it.
  \<^item> \<open>Lang_AsyncDraft\<close> (\<^verbatim>\<open>lang/random/test_async_scopes_0.cpp\<close>): its first draft, whose test never ends.
  \<^item> \<open>Lang_CLI\<close> (\<^verbatim>\<open>lang/random/test_111.cpp\<close>): a command line parser, against the grammar of command lines.
  \<^item> \<open>Lang_Coroutines\<close> (\<^verbatim>\<open>coroutines/\<close>): coroutines as frames with suspend points, and the order of what they print.
  \<^item> \<open>Lang_CondVar\<close> (\<^verbatim>\<open>random/test_unique_lock_0.cpp\<close>, \<^verbatim>\<open>test_condition_var_0.cpp\<close>, \<^verbatim>\<open>lang/random/test_condition_var_0.cpp\<close>):
    threads with a mutex and a condition variable under every schedule. Every program takes a bounded number of steps
    (\<open>rank\<close>); what holds of the finitely many states of each program is checked by exploring them in the kernel.
  \<^item> \<open>Lang_Linkage\<close> (\<^verbatim>\<open>lang/linkage/static_members\<close>): which addresses two units share.
  \<^item> \<open>Posix_Servers\<close> (\<^verbatim>\<open>posix_test/\<close>): the servers that wait for one connection by \<^verbatim>\<open>accept\<close>, \<^verbatim>\<open>poll\<close> and \<^verbatim>\<open>epoll\<close>.
  \<^item> \<open>Timtim_Loops\<close>, \<open>Timtim_Matrix\<close>, \<open>Timtim_Editor\<close>, \<open>Timtim_Buses\<close>, \<open>Timtim_Dump\<close> (\<^verbatim>\<open>timtim/\<close>): what
    each program computes, and the inputs on which it leaves the language's rules. \<open>Timtim_BusInput\<close> is the bus
    program from its standard input to its output.
  \<^item> \<open>Challenge_Pattern\<close> (\<^verbatim>\<open>challenges/\<close>): the longest repeated pattern of a string.
  \<^item> \<open>Boost_Echo\<close> (\<^verbatim>\<open>boost_test/common/\<close>): the TCP and UDP echo servers as the handlers they pass to the
    library, for every arrival of the text, and the UDP client against the server.
  \<^item> \<open>Boost_Channel\<close> (\<^verbatim>\<open>boost_test/common/test_channel.cpp\<close>): two coroutines over a channel, each in a loop over
    a range, for every order in which the executor runs their completions.
  \<^item> \<open>Grpc_Dummy\<close> (\<^verbatim>\<open>protos/grpc_dummy/examples/\<close>): the service methods, the client over a stub, and the
    two together over a connection that loses nothing.
  \<^item> \<open>Mem_Pools\<close> (\<^verbatim>\<open>random/test_mempools.cpp\<close>, \<^verbatim>\<open>boost_test/common/test_spsc_queue_0.cpp\<close>): object pools;
    nothing is handed out twice, and the number of objects is the peak of their use. \<open>Mem_Channel\<close> is the
    second program's producer and consumer under every schedule of the two threads.
  \<^item> \<open>Mystd_Vector\<close> (\<^verbatim>\<open>mystd/vector.h\<close>, \<^verbatim>\<open>array.h\<close>): the members that have a body.
  \<^item> \<open>Tools\<close>: coverage guards, the protoc plugin, the system call wrappers of \<^verbatim>\<open>minaio/v1\<close>, the macros, the clang visitor.
  \<^item> \<open>Programs\<close>: the \<^verbatim>\<open>main\<close> functions of the servers, what is exported to Python, and the queue of the test fixture.

  \<^bold>\<open>Bounds and fuel.\<close> The completion loop of \<open>V0_Context\<close> is a partial function; its event loop takes the
  answers of \<^verbatim>\<open>epoll_wait\<close>, one for each round, and the waiting loop of \<open>Lang_AsyncScopes\<close> a number of rounds; the
  theorems either give a number that is enough or say that none is. Chains of operations that enqueue operations are bounded by the rank a client gives
  (\<open>Aio_Context\<close>). The event array of \<^verbatim>\<open>io_context.h\<close> has its 100 entries, \<^verbatim>\<open>std::size_t\<close> 64 bits, \<^verbatim>\<open>int\<close> 32.

  The state spaces of \<open>Lang_CondVar\<close> are explored with 1000 rounds, which is enough because the check also
  tests that the states found are closed under steps.

  A step of a thread in \<open>Mem_Channel\<close> is what it does between two accesses to the shared queue or a pool, and
  finding a free message is one step; the flags it reads can only become free meanwhile.

  \<^bold>\<open>Not modelled.\<close> Bytes moved by system calls, LLVM and the linker (parameters of the model).
  The \<^verbatim>\<open>EPOLLOUT\<close> branch of the first connector and \<^verbatim>\<open>minaio/v1/stuff.h\<close>, which do not compile.
  Declarations without a body (\<^verbatim>\<open>mystd\<close>), and classes inside comments (\<^verbatim>\<open>core/small_any.h\<close>). Programs that
  only poll an empty boost context; signal and value category experiments; build and language
  demonstrations. What the modelled programs print on errors of system calls (\<open>Posix_Servers\<close>, \<open>V0_Server\<close>).
\<close>

end
